(* ===== verification/Nexus_Prelude.thy ===== *)
theory Nexus_Prelude
  imports Main "HOL-Library.Word"
begin

text \<open>
  Shared vocabulary of the development: the machine integers of
  \<^verbatim>\<open>include/nexus/core/types.hpp\<close> as words of their width, the collections of
  rewrite rules the components add to, and the generic facts on words and lists that more
  than one component needs.
\<close>

type_synonym u8 = "8 word"
type_synonym u16 = "16 word"
type_synonym u64 = "64 word"

text \<open>
  \<open>heap_simps\<close> collects the read-over-write equations of the order-node heap,
  \<open>list_rel\<close> the rules that move a list-segment fact across such a write,
  \<open>spec_simps\<close> the equations of the abstract order-book specification.
\<close>

named_theorems heap_simps
named_theorems list_rel
named_theorems spec_simps

section \<open>Words\<close>

lemma word_gt_0_iff: "0 < (x :: 'a::len word) \<longleftrightarrow> x \<noteq> 0"
  by (simp add: word_neq_0_conv)

lemma unat_diff: "y \<le> (x :: 'a::len word) \<Longrightarrow> unat (x - y) = unat x - unat y"
  by (rule unat_sub)

lemma word_min_cases:
  "min (x :: 'a::len word) y = (if x \<le> y then x else y)"
  by (simp add: min_def)

lemma sum_list_zero_word [simp]:
  "sum_list (replicate n (0 :: 'a::len word)) = 0"
  by (induction n) auto

lemma unat_Suc_less:
  "unat (x :: 'a::len word) < unat (y :: 'a word) \<Longrightarrow> unat (x + 1) = Suc (unat x)"
proof -
  assume "unat x < unat y"
  moreover have "unat y < 2 ^ LENGTH('a)" by (rule unsigned_less)
  moreover have "unat (1 :: 'a word) = 1" by simp
  ultimately have "unat x + unat (1 :: 'a word) < 2 ^ LENGTH('a)" by linarith
  from iffD1 [OF unat_add_lem this] show ?thesis by simp
qed

lemma unat_mult_exact:
  "unat (x :: 'a::len word) * unat y < 2 ^ LENGTH('a) \<Longrightarrow> unat (x * y) = unat x * unat y"
  by (simp add: unat_word_ariths)

lemma unat_add_exact:
  "unat (x :: 'a::len word) + unat y < 2 ^ LENGTH('a) \<Longrightarrow> unat (x + y) = unat x + unat y"
  by (simp add: unat_word_ariths)

section \<open>Lists\<close>

lemma sum_list_remove_mid:
  "sum_list (xs @ y # ys) - y = sum_list (xs @ ys)" for y :: "'a::ab_group_add"
  by (simp add: algebra_simps)

lemma distinct_mid:
  "distinct (xs @ y # ys) \<Longrightarrow> y \<notin> set xs \<and> y \<notin> set ys \<and> distinct (xs @ ys)"
  by auto

lemma take_Suc_update [simp]:
  "n < length xs \<Longrightarrow> take (Suc n) (xs[n := y]) = take n xs @ [y]"
  by (simp add: take_Suc_conv_app_nth)

lemma sum_list_map_cong:
  "(\<And>x. x \<in> set xs \<Longrightarrow> f x = g x) \<Longrightarrow> sum_list (map f xs) = sum_list (map g xs)"
  by (simp cong: map_cong)

end
