(* ===== verification/Core_Types.thy ===== *)
theory Core_Types
  imports Nexus_Prelude
begin

text \<open>
  The value types every component shares: \<^verbatim>\<open>include/nexus/core/types.hpp\<close> (fixed-point
  prices, quantities and order ids as unsigned 64-bit words, the enumerations with their
  underlying bytes) and \<^verbatim>\<open>include/nexus/engine/trade.hpp\<close>.
\<close>

type_synonym Price = u64
type_synonym Quantity = u64
type_synonym OrderId = u64

datatype Side = Buy | Sell

datatype OrderType = Limit | Market

datatype TimeInForce = GTC | IOC | FOK

definition MAX_PRICE :: Price where
  "MAX_PRICE = - 1"

definition MIN_PRICE :: Price where
  "MIN_PRICE = 0"

fun opposite :: "Side \<Rightarrow> Side" where
  "opposite Buy = Sell"
| "opposite Sell = Buy"

lemma opposite_opposite [simp]: "opposite (opposite s) = s"
  by (cases s) auto

lemma price_range: "MIN_PRICE \<le> p \<and> p \<le> MAX_PRICE"
  by (simp add: MIN_PRICE_def MAX_PRICE_def)

text \<open>
  \<open>enum class Side : uint8_t\<close> and its siblings carry their byte on the wire.
\<close>

fun side_byte :: "Side \<Rightarrow> u8" where
  "side_byte Buy = 0"
| "side_byte Sell = 1"

fun order_type_byte :: "OrderType \<Rightarrow> u8" where
  "order_type_byte Limit = 0"
| "order_type_byte Market = 1"

section \<open>Trades\<close>

record Trade =
  maker_order_id :: OrderId
  taker_order_id :: OrderId
  trade_price :: Price
  trade_qty :: Quantity

definition Trade_of :: "OrderId \<Rightarrow> OrderId \<Rightarrow> Price \<Rightarrow> Quantity \<Rightarrow> Trade" where
  "Trade_of m t p q =
     \<lparr>maker_order_id = m, taker_order_id = t, trade_price = p, trade_qty = q\<rparr>"

lemma Trade_of_sel [simp]:
  "maker_order_id (Trade_of m t p q) = m"
  "taker_order_id (Trade_of m t p q) = t"
  "trade_price (Trade_of m t p q) = p"
  "trade_qty (Trade_of m t p q) = q"
  by (simp_all add: Trade_of_def)

record ExecutionReport =
  er_order_id :: OrderId
  er_executed_qty :: Quantity
  er_execution_price :: Price

end
