(* ===== verification/Intrusive_List.thy ===== *)
theory Intrusive_List
  imports Core_Types
begin

text \<open>
  The order-node heap and the intrusive doubly-linked list of
  \<^verbatim>\<open>include/nexus/core/intrusive_list.hpp\<close> and \<^verbatim>\<open>order_book.hpp\<close>. A node is
  addressed by its slot in the pool's slab, \<open>nullptr\<close> is \<open>None\<close>, and the two operations
  write the links of the nodes in the heap the way the code does. The list-segment
  relation \<open>lseg\<close> says which sequence of nodes a head and a tail pointer describe.
\<close>

section \<open>Nodes and the heap\<close>

type_synonym addr = nat

record OrderNode =
  on_id :: OrderId
  on_price :: Price
  on_qty :: Quantity
  on_side :: Side
  on_prev :: "addr option"
  on_next :: "addr option"

type_synonym mem = "addr \<Rightarrow> OrderNode"

text \<open>The constructor: the links start as \<open>nullptr\<close>.\<close>

definition OrderNode_of :: "OrderId \<Rightarrow> Price \<Rightarrow> Quantity \<Rightarrow> Side \<Rightarrow> OrderNode" where
  "OrderNode_of i p q s =
     \<lparr>on_id = i, on_price = p, on_qty = q, on_side = s, on_prev = None, on_next = None\<rparr>"

definition set_prev :: "addr \<Rightarrow> addr option \<Rightarrow> mem \<Rightarrow> mem" where
  "set_prev a v m = m(a := (m a)\<lparr>on_prev := v\<rparr>)"

definition set_next :: "addr \<Rightarrow> addr option \<Rightarrow> mem \<Rightarrow> mem" where
  "set_next a v m = m(a := (m a)\<lparr>on_next := v\<rparr>)"

definition set_qty :: "addr \<Rightarrow> Quantity \<Rightarrow> mem \<Rightarrow> mem" where
  "set_qty a v m = m(a := (m a)\<lparr>on_qty := v\<rparr>)"

lemma set_prev_sel [simp, heap_simps]:
  "on_prev (set_prev a v m b) = (if b = a then v else on_prev (m b))"
  "on_next (set_prev a v m b) = on_next (m b)"
  "on_qty (set_prev a v m b) = on_qty (m b)"
  "on_id (set_prev a v m b) = on_id (m b)"
  "on_price (set_prev a v m b) = on_price (m b)"
  "on_side (set_prev a v m b) = on_side (m b)"
  by (auto simp: set_prev_def)

lemma set_next_sel [simp, heap_simps]:
  "on_prev (set_next a v m b) = on_prev (m b)"
  "on_next (set_next a v m b) = (if b = a then v else on_next (m b))"
  "on_qty (set_next a v m b) = on_qty (m b)"
  "on_id (set_next a v m b) = on_id (m b)"
  "on_price (set_next a v m b) = on_price (m b)"
  "on_side (set_next a v m b) = on_side (m b)"
  by (auto simp: set_next_def)

lemma set_qty_sel [simp, heap_simps]:
  "on_prev (set_qty a v m b) = on_prev (m b)"
  "on_next (set_qty a v m b) = on_next (m b)"
  "on_qty (set_qty a v m b) = (if b = a then v else on_qty (m b))"
  "on_id (set_qty a v m b) = on_id (m b)"
  "on_price (set_qty a v m b) = on_price (m b)"
  "on_side (set_qty a v m b) = on_side (m b)"
  by (auto simp: set_qty_def)

section \<open>The list object and its operations\<close>

record IntrusiveList =
  il_head :: "addr option"
  il_tail :: "addr option"

definition il_empty_list :: IntrusiveList where
  "il_empty_list = \<lparr>il_head = None, il_tail = None\<rparr>"

definition il_empty :: "IntrusiveList \<Rightarrow> bool" where
  "il_empty l \<longleftrightarrow> il_head l = None"

text \<open>
  \<open>push_back\<close>: the branch on a non-null head dereferences \<open>tail_\<close>; a null tail there is
  the null-pointer dereference \<open>None\<close>.
\<close>

definition il_push_back ::
  "addr \<Rightarrow> IntrusiveList \<times> mem \<Rightarrow> (IntrusiveList \<times> mem) option" where
  "il_push_back node = (\<lambda>(l, m).
     (case il_head l of
        None \<Rightarrow>
          Some (l\<lparr>il_head := Some node, il_tail := Some node\<rparr>,
                set_prev node None (set_next node None m))
      | Some _ \<Rightarrow>
          (case il_tail l of
             None \<Rightarrow> None
           | Some t \<Rightarrow>
               Some (l\<lparr>il_tail := Some node\<rparr>,
                     set_next node None (set_prev node (Some t)
                       (set_next t (Some node) m))))))"

definition il_remove :: "addr \<Rightarrow> IntrusiveList \<times> mem \<Rightarrow> IntrusiveList \<times> mem" where
  "il_remove node = (\<lambda>(l, m).
     (let (l1, m1) =
            (case on_prev (m node) of
               Some p \<Rightarrow> (l, set_next p (on_next (m node)) m)
             | None \<Rightarrow> (l\<lparr>il_head := on_next (m node)\<rparr>, m));
          (l2, m2) =
            (case on_next (m1 node) of
               Some n \<Rightarrow> (l1, set_prev n (on_prev (m1 node)) m1)
             | None \<Rightarrow> (l1\<lparr>il_tail := on_prev (m1 node)\<rparr>, m1))
      in (l2, set_next node None (set_prev node None m2))))"

section \<open>List segments\<close>

text \<open>
  \<open>lseg m pr h xs t nx\<close>: following the next-pointers from \<open>h\<close> visits the nodes \<open>xs\<close> and
  stops at \<open>nx\<close>; each node's prev-pointer is the node before it, the first one's is
  \<open>pr\<close>; \<open>t\<close> is the last node, or \<open>pr\<close> when there is none.
\<close>

primrec lseg ::
  "mem \<Rightarrow> addr option \<Rightarrow> addr option \<Rightarrow> addr list \<Rightarrow> addr option \<Rightarrow> addr option \<Rightarrow> bool" where
  "lseg m pr h [] t nx \<longleftrightarrow> h = nx \<and> t = pr"
| "lseg m pr h (a # as) t nx \<longleftrightarrow>
     h = Some a \<and> on_prev (m a) = pr \<and> lseg m (Some a) (on_next (m a)) as t nx"

lemma lseg_append [list_rel]:
  "lseg m pr h (xs @ ys) t nx \<longleftrightarrow>
     (\<exists>t' h'. lseg m pr h xs t' h' \<and> lseg m t' h' ys t nx)"
  by (induction xs arbitrary: pr h) auto

lemma lseg_cong [list_rel]:
  "(\<And>a. a \<in> set xs \<Longrightarrow> on_prev (m' a) = on_prev (m a) \<and> on_next (m' a) = on_next (m a))
   \<Longrightarrow> lseg m' pr h xs t nx = lseg m pr h xs t nx"
  by (induction xs arbitrary: pr h) auto

lemma lseg_set_qty [simp, list_rel]:
  "lseg (set_qty a v m) pr h xs t nx = lseg m pr h xs t nx"
  by (rule lseg_cong) simp

lemma lseg_set_prev_outside [simp, list_rel]:
  "a \<notin> set xs \<Longrightarrow> lseg (set_prev a v m) pr h xs t nx = lseg m pr h xs t nx"
  by (rule lseg_cong) auto

lemma lseg_set_next_outside [simp, list_rel]:
  "a \<notin> set xs \<Longrightarrow> lseg (set_next a v m) pr h xs t nx = lseg m pr h xs t nx"
  by (rule lseg_cong) auto

lemma lseg_unique:
  "lseg m pr h xs t None \<Longrightarrow> lseg m pr h ys t' None \<Longrightarrow> xs = ys"
proof (induction xs arbitrary: pr h ys)
  case Nil
  then show ?case by (cases ys) auto
next
  case (Cons a as)
  then show ?case by (cases ys) auto
qed

lemma lseg_last:
  "lseg m pr h xs t nx \<Longrightarrow> t = (if xs = [] then pr else Some (last xs))"
  by (induction xs arbitrary: pr h) auto

lemma lseg_snoc_relink:
  assumes "lseg m pr h xs (Some l) None" and "xs \<noteq> []" and "distinct xs"
  shows "lseg (set_next l v m) pr h xs (Some l) v"
  using assms
proof (induction xs arbitrary: pr h)
  case Nil
  then show ?case by simp
next
  case (Cons a as)
  show ?case
  proof (cases "as = []")
    case True
    with Cons.prems show ?thesis by auto
  next
    case False
    from Cons.prems have "lseg m (Some a) (on_next (m a)) as (Some l) None" by simp
    from lseg_last [OF this] False have last_in: "l \<in> set as" by simp
    with Cons.prems have "a \<noteq> l" by auto
    moreover have "lseg (set_next l v m) (Some a) (on_next (m a)) as (Some l) v"
      using Cons.prems False by (intro Cons.IH) auto
    ultimately show ?thesis using Cons.prems by simp
  qed
qed

section \<open>What the list object holds\<close>

definition il_holds :: "mem \<Rightarrow> IntrusiveList \<Rightarrow> addr list \<Rightarrow> bool" where
  "il_holds m l xs \<longleftrightarrow> lseg m None (il_head l) xs (il_tail l) None \<and> distinct xs"

lemma il_holds_empty [simp]: "il_holds m il_empty_list []"
  by (simp add: il_holds_def il_empty_list_def)

lemma il_holds_unique: "il_holds m l xs \<Longrightarrow> il_holds m l ys \<Longrightarrow> xs = ys"
  by (auto simp: il_holds_def intro: lseg_unique)

lemma il_empty_iff: "il_holds m l xs \<Longrightarrow> il_empty l \<longleftrightarrow> xs = []"
  by (cases xs) (auto simp: il_holds_def il_empty_def)

lemma il_holds_head: "il_holds m l (a # as) \<Longrightarrow> il_head l = Some a"
  by (simp add: il_holds_def)

lemma il_holds_cong:
  "(\<And>a. a \<in> set xs \<Longrightarrow> on_prev (m' a) = on_prev (m a) \<and> on_next (m' a) = on_next (m a))
   \<Longrightarrow> il_holds m' l xs = il_holds m l xs"
  by (simp add: il_holds_def lseg_cong [of xs m' m])

text \<open>
  Two frame relations: a write changes no field but the links (\<open>same_data\<close>), and it
  touches no node outside a set (\<open>same_off\<close>).
\<close>

definition same_data :: "mem \<Rightarrow> mem \<Rightarrow> bool" where
  "same_data m m' \<longleftrightarrow> (\<forall>a. on_id (m' a) = on_id (m a) \<and> on_price (m' a) = on_price (m a) \<and>
     on_qty (m' a) = on_qty (m a) \<and> on_side (m' a) = on_side (m a))"

definition same_off :: "addr set \<Rightarrow> mem \<Rightarrow> mem \<Rightarrow> bool" where
  "same_off S m m' \<longleftrightarrow> (\<forall>a. a \<notin> S \<longrightarrow> m' a = m a)"

lemma same_data_refl [simp]: "same_data m m"
  by (simp add: same_data_def)

lemma same_off_refl [simp]: "same_off S m m"
  by (simp add: same_off_def)

lemma same_off_trans: "same_off S m m' \<Longrightarrow> same_off S m' m'' \<Longrightarrow> same_off S m m''"
  by (simp add: same_off_def)

lemma same_off_mono: "same_off S m m' \<Longrightarrow> S \<subseteq> T \<Longrightarrow> same_off T m m'"
  by (auto simp: same_off_def)

lemma il_holds_same_off:
  "same_off S m m' \<Longrightarrow> S \<inter> set xs = {} \<Longrightarrow> il_holds m' l xs = il_holds m l xs"
  by (rule il_holds_cong) (auto simp: same_off_def)

lemma il_push_back_holds:
  assumes holds: "il_holds m l xs" and fresh: "node \<notin> set xs"
  obtains l' m' where "il_push_back node (l, m) = Some (l', m')"
    and "il_holds m' l' (xs @ [node])"
    and "same_data m m'" and "same_off (insert node (set xs)) m m'"
proof (cases xs rule: rev_cases)
  case Nil
  with holds have "il_head l = None" by (simp add: il_holds_def)
  then show thesis
    by (intro that) (auto simp: il_push_back_def Nil il_holds_def same_data_def same_off_def
        set_prev_def set_next_def)
next
  case (snoc ys p)
  from holds have seg: "lseg m None (il_head l) (ys @ [p]) (il_tail l) None"
    and dist: "distinct (ys @ [p])"
    by (simp_all add: il_holds_def snoc)
  from seg have tl: "il_tail l = Some p" using lseg_last [OF seg] by simp
  from seg obtain h where hd: "il_head l = Some h" by (cases ys) auto
  let ?m = "set_next node None (set_prev node (Some p) (set_next p (Some node) m))"
  have "lseg (set_next p (Some node) m) None (il_head l) (ys @ [p]) (Some p) (Some node)"
    using seg dist tl by (intro lseg_snoc_relink) auto
  then have "lseg ?m None (il_head l) (ys @ [p]) (Some p) (Some node)"
    using fresh snoc by simp
  then have "lseg ?m None (il_head l) ((ys @ [p]) @ [node]) (Some node) None"
    by (subst lseg_append) auto
  moreover have "p \<noteq> node" using fresh snoc by auto
  ultimately show thesis
    using fresh dist
    by (intro that [of "l\<lparr>il_tail := Some node\<rparr>" ?m])
      (auto simp: il_push_back_def hd tl snoc il_holds_def same_data_def same_off_def
        set_prev_def set_next_def)
qed

lemma lseg_relink_front:
  assumes "lseg m pr h ys t nx" and "distinct ys" and "ys \<noteq> []"
  shows "lseg (set_prev (hd ys) v m) v h ys t nx"
  using assms by (cases ys) auto

lemma lseg_relink_back:
  assumes "lseg m pr h xs t nx" and "distinct xs" and "xs \<noteq> []"
  shows "lseg (set_next (last xs) v m) pr h xs t v"
  using assms
proof (induction xs arbitrary: pr h)
  case Nil
  then show ?case by simp
next
  case (Cons a as)
  then show ?case by (cases "as = []") auto
qed

lemma il_remove_holds:
  assumes holds: "il_holds m l (xs @ node # ys)"
  obtains l' m' where "il_remove node (l, m) = (l', m')"
    and "il_holds m' l' (xs @ ys)"
    and "same_data m m'" and "same_off (set (xs @ node # ys)) m m'"
    and "on_prev (m' node) = None" and "on_next (m' node) = None"
proof -
  from holds obtain pr where
    left: "lseg m None (il_head l) xs pr (Some node)" and
    mid: "on_prev (m node) = pr" and
    right: "lseg m (Some node) (on_next (m node)) ys (il_tail l) None" and
    dist: "distinct (xs @ node # ys)"
    by (auto simp: il_holds_def lseg_append)
  from left have pr: "pr = (if xs = [] then None else Some (last xs))"
    by (rule lseg_last)
  from right have nx: "on_next (m node) = (if ys = [] then None else Some (hd ys))"
    by (cases ys) auto
  from right have tl: "il_tail l = (if ys = [] then Some node else Some (last ys))"
    by (auto dest: lseg_last)
  let ?nx = "on_next (m node)"
  let ?m1 = "if xs = [] then m else set_next (last xs) ?nx m"
  let ?m2 = "if ys = [] then ?m1 else set_prev (hd ys) pr ?m1"
  let ?m3 = "set_next node None (set_prev node None ?m2)"
  let ?l1 = "if xs = [] then l\<lparr>il_head := ?nx\<rparr> else l"
  let ?l2 = "if ys = [] then ?l1\<lparr>il_tail := pr\<rparr> else ?l1"
  have "last xs \<noteq> node" if "xs \<noteq> []" using that dist by (metis distinct_mid last_in_set)
  then have run: "il_remove node (l, m) = (?l2, ?m3)"
    by (auto simp: il_remove_def Let_def mid pr nx split: option.splits)
  have hdys: "hd ys \<notin> set xs" if "ys \<noteq> []" using that dist by (cases ys) auto
  have lastxs: "last xs \<notin> set ys" if "xs \<noteq> []"
    using last_in_set [OF that] dist by auto
  have "lseg ?m1 None (il_head ?l1) xs pr ?nx"
    using left dist pr by (auto intro!: lseg_relink_back)
  then have L: "lseg ?m3 None (il_head ?l2) xs pr ?nx"
    using hdys dist by auto
  have "lseg ?m1 (Some node) ?nx ys (il_tail l) None"
    using right lastxs by auto
  then have R: "lseg ?m3 pr ?nx ys (il_tail ?l2) None"
    using dist tl nx by (auto intro!: lseg_relink_front simp: last_in_set)
  have "lseg ?m3 None (il_head ?l2) (xs @ ys) (il_tail ?l2) None"
    using L R unfolding lseg_append by blast
  then have "il_holds ?m3 ?l2 (xs @ ys)"
    using dist by (simp add: il_holds_def)
  moreover have "same_data m ?m3" by (simp add: same_data_def)
  moreover have "same_off (set (xs @ node # ys)) m ?m3"
    using last_in_set [of xs] hd_in_set [of ys]
    by (auto simp: same_off_def set_prev_def set_next_def)
  ultimately show thesis by (intro that [OF run]) auto
qed

section \<open>The list as an interface\<close>

text \<open>
  What the order book relies on: \<open>push_back\<close> queues behind everything there, \<open>remove\<close>
  takes one node out of any place and leaves the others in order.
\<close>

fun push_list :: "('a \<Rightarrow> 's \<Rightarrow> 's option) \<Rightarrow> 'a list \<Rightarrow> 's \<Rightarrow> 's option" where
  "push_list push [] st = Some st"
| "push_list push (a # as) st =
     (case push a st of None \<Rightarrow> None | Some st' \<Rightarrow> push_list push as st')"

locale linked_fifo =
  fixes holds :: "'m \<Rightarrow> 'l \<Rightarrow> 'a list \<Rightarrow> bool"
    and push :: "'a \<Rightarrow> 'l \<times> 'm \<Rightarrow> ('l \<times> 'm) option"
    and unlink :: "'a \<Rightarrow> 'l \<times> 'm \<Rightarrow> 'l \<times> 'm"
  assumes push_holds: "holds m l xs \<Longrightarrow> a \<notin> set xs \<Longrightarrow>
      \<exists>l' m'. push a (l, m) = Some (l', m') \<and> holds m' l' (xs @ [a])"
    and unlink_holds: "holds m l (xs @ a # ys) \<Longrightarrow> unlink a (l, m) = (l', m') \<Longrightarrow>
      holds m' l' (xs @ ys)"
    and holds_distinct: "holds m l xs \<Longrightarrow> distinct xs"
begin

lemma push_all:
  "holds m l xs \<Longrightarrow> distinct (xs @ as) \<Longrightarrow>
     \<exists>l' m'. push_list push as (l, m) = Some (l', m') \<and> holds m' l' (xs @ as)"
proof (induction as arbitrary: l m xs)
  case Nil
  then show ?case by simp
next
  case (Cons a as)
  then have fresh: "a \<notin> set xs" by simp
  from push_holds [OF Cons.prems(1) this] obtain l1 m1 where
    one: "push a (l, m) = Some (l1, m1)" "holds m1 l1 (xs @ [a])" by blast
  from Cons.IH [OF one(2)] Cons.prems(2) one(1) show ?case by simp
qed

lemma push_unlink:
  assumes "holds m l xs" and "a \<notin> set xs" and "push a (l, m) = Some (l1, m1)"
    and "unlink a (l1, m1) = (l2, m2)"
  shows "holds m2 l2 xs"
  using push_holds [OF assms(1,2)] assms(3,4) unlink_holds [of m1 l1 xs a "[]" l2 m2] by auto

lemma unlink_push:
  assumes "holds m l (xs @ a # ys)" and "unlink a (l, m) = (l1, m1)"
  shows "\<exists>l2 m2. push a (l1, m1) = Some (l2, m2) \<and> holds m2 l2 (xs @ ys @ [a])"
proof -
  have "a \<notin> set (xs @ ys)" using holds_distinct [OF assms(1)] by auto
  from push_holds [OF unlink_holds [OF assms] this] show ?thesis by simp
qed

end

interpretation order_list: linked_fifo il_holds il_push_back il_remove
proof
  fix m l xs and a :: addr
  assume "il_holds m l xs" "a \<notin> set xs"
  from il_push_back_holds [OF this]
  show "\<exists>l' m'. il_push_back a (l, m) = Some (l', m') \<and> il_holds m' l' (xs @ [a])" by metis
next
  fix m l xs ys l' m' and a :: addr
  assume "il_holds m l (xs @ a # ys)" "il_remove a (l, m) = (l', m')"
  then show "il_holds m' l' (xs @ ys)"
    using il_remove_holds [of m l xs a ys] by (metis prod.inject)
next
  fix m l xs
  assume "il_holds m l xs"
  then show "distinct xs" by (simp add: il_holds_def)
qed

section \<open>Properties\<close>

text \<open>
  Pushing distinct nodes onto an empty intrusive list never dereferences null and
  leaves a well-linked list (both directions, head and tail) that holds them in that order.
\<close>

lemma intrusive_list_fifo:
  assumes "distinct as"
  shows "\<exists>l m'. push_list il_push_back as (il_empty_list, m) = Some (l, m') \<and> il_holds m' l as"
  using order_list.push_all [OF il_holds_empty, of as] assms by simp

lemma intrusive_list_fifo_witness:
  "\<exists>l m'. push_list il_push_back [3, 1, 2] (il_empty_list, \<lambda>_. OrderNode_of 0 0 0 Buy) =
     Some (l, m') \<and> il_holds m' l [3, 1, 2]"
  by (rule intrusive_list_fifo) simp

text \<open>
  Removing a node from any place of a list and pushing it again keeps the other nodes
  in order and moves it to the back.
\<close>

lemma intrusive_list_requeue:
  assumes "il_holds m l (xs @ a # ys)" and "il_remove a (l, m) = (l1, m1)"
  shows "il_holds m1 l1 (xs @ ys) \<and>
         (\<exists>l2 m2. il_push_back a (l1, m1) = Some (l2, m2) \<and> il_holds m2 l2 (xs @ ys @ [a]))"
  using order_list.unlink_holds [OF assms] order_list.unlink_push [OF assms] by simp

lemma intrusive_list_requeue_witness:
  "\<exists>m l l1 m1. il_holds m l [1, 2, 3] \<and> il_remove 2 (l, m) = (l1, m1) \<and> il_holds m1 l1 [1, 3]"
proof -
  obtain l m where held: "il_holds m l [1, 2, 3]"
    using order_list.push_all [OF il_holds_empty, of "[1, 2, 3]" "\<lambda>_. OrderNode_of 0 0 0 Buy"]
    by auto
  obtain l1 m1 where un: "il_remove 2 (l, m) = (l1, m1)" by (metis surj_pair)
  have "il_holds m l ([1] @ 2 # [3])" using held by simp
  from intrusive_list_requeue [OF this un] held un show ?thesis by auto
qed

end
