(* ===== verification/Std_Map.thy ===== *)
theory Std_Map
  imports Nexus_Prelude
begin

text \<open>
  The part of \<open>std::map<Key, T, Compare>\<close> the order book uses, as an association list in
  iteration order: \<open>find\<close>, \<open>emplace\<close> (which leaves an existing entry alone), assignment
  through an iterator, \<open>erase\<close> by key and \<open>begin\<close>. The comparator is an argument, as it
  is a template argument of the class; what the standard requires of it is the locale
  \<open>map_compare\<close> (for comparators, such as the two on prices, under which only equal keys
  are equivalent).
\<close>

type_synonym ('k, 'v) stdmap = "('k \<times> 'v) list"

fun map_find :: "'k \<Rightarrow> ('k, 'v) stdmap \<Rightarrow> 'v option" where
  "map_find k [] = None"
| "map_find k ((k', v) # m) = (if k' = k then Some v else map_find k m)"

fun map_emplace :: "('k \<Rightarrow> 'k \<Rightarrow> bool) \<Rightarrow> 'k \<Rightarrow> 'v \<Rightarrow> ('k, 'v) stdmap \<Rightarrow> ('k, 'v) stdmap" where
  "map_emplace cmp k v [] = [(k, v)]"
| "map_emplace cmp k v ((k', v') # m) =
     (if cmp k k' then (k, v) # (k', v') # m
      else if cmp k' k then (k', v') # map_emplace cmp k v m
      else (k', v') # m)"

fun map_store :: "'k \<Rightarrow> 'v \<Rightarrow> ('k, 'v) stdmap \<Rightarrow> ('k, 'v) stdmap" where
  "map_store k v [] = []"
| "map_store k v ((k', v') # m) =
     (if k' = k then (k', v) # m else (k', v') # map_store k v m)"

fun map_erase :: "'k \<Rightarrow> ('k, 'v) stdmap \<Rightarrow> ('k, 'v) stdmap" where
  "map_erase k [] = []"
| "map_erase k ((k', v') # m) = (if k' = k then m else (k', v') # map_erase k m)"

fun map_begin :: "('k, 'v) stdmap \<Rightarrow> ('k \<times> 'v) option" where
  "map_begin [] = None"
| "map_begin (e # m) = Some e"

definition keys_of :: "('k, 'v) stdmap \<Rightarrow> 'k list" where
  "keys_of m = map fst m"

lemma keys_of_simps [simp]:
  "keys_of [] = []" "keys_of ((k, v) # m) = k # keys_of m"
  by (simp_all add: keys_of_def)

lemma map_find_None_iff: "map_find k m = None \<longleftrightarrow> k \<notin> set (keys_of m)"
  by (induction k m rule: map_find.induct) auto

lemma map_find_Some_key: "map_find k m = Some v \<Longrightarrow> k \<in> set (keys_of m)"
  using map_find_None_iff [of k m] by auto

lemma find_entry: "distinct (keys_of m) \<Longrightarrow> (k, v) \<in> set m \<Longrightarrow> map_find k m = Some v"
  by (induction m) (auto simp: keys_of_def image_iff)

lemma keys_store [simp]: "keys_of (map_store k v m) = keys_of m"
  by (induction k v m rule: map_store.induct) auto

lemma find_store [simp]:
  "map_find k' (map_store k v m) =
     (if k' = k \<and> k \<in> set (keys_of m) then Some v else map_find k' m)"
  by (induction k v m rule: map_store.induct) auto

lemma keys_erase: "distinct (keys_of m) \<Longrightarrow> keys_of (map_erase k m) = remove1 k (keys_of m)"
  by (induction k m rule: map_erase.induct) auto

lemma keys_erase_subset: "set (keys_of (map_erase k m)) \<subseteq> set (keys_of m)"
  by (induction k m rule: map_erase.induct) auto

lemma find_erase [simp]:
  "distinct (keys_of m) \<Longrightarrow>
     map_find k' (map_erase k m) = (if k' = k then None else map_find k' m)"
  by (induction k m rule: map_erase.induct) (auto simp: map_find_None_iff)

section \<open>The comparator contract\<close>

locale map_compare =
  fixes cmp :: "'k \<Rightarrow> 'k \<Rightarrow> bool"
  assumes irreflexive: "\<not> cmp k k"
    and transitive: "cmp a b \<Longrightarrow> cmp b c \<Longrightarrow> cmp a c"
    and total: "a \<noteq> b \<Longrightarrow> cmp a b \<or> cmp b a"
begin

lemma asymmetric: "cmp a b \<Longrightarrow> \<not> cmp b a"
  using irreflexive transitive by blast

lemma sorted_distinct: "sorted_wrt cmp ks \<Longrightarrow> distinct ks"
  by (induction ks) (auto simp: irreflexive)

lemma sorted_unique:
  "sorted_wrt cmp ks \<Longrightarrow> sorted_wrt cmp ks' \<Longrightarrow> set ks = set ks' \<Longrightarrow> ks = ks'"
proof (induction ks arbitrary: ks')
  case Nil
  then show ?case by simp
next
  case (Cons k ks)
  then obtain k' ks'' where ks': "ks' = k' # ks''" by (cases ks') auto
  have "k = k'"
  proof (rule ccontr)
    assume "k \<noteq> k'"
    with Cons.prems ks' have "k' \<in> set ks" "k \<in> set ks''" by auto
    with Cons.prems ks' asymmetric show False by auto
  qed
  moreover have "set ks = set ks''"
    using Cons.prems ks' \<open>k = k'\<close> sorted_distinct [of "k # ks"] sorted_distinct [of "k' # ks''"]
    by auto
  ultimately show ?case using Cons ks' by simp
qed

text \<open>Where a key goes in a sorted key list, whether or not it is there already.\<close>

lemma key_position:
  assumes "sorted_wrt cmp ks"
  obtains before after where
    "sorted_wrt cmp (before @ k # after)" and "set (before @ k # after) = insert k (set ks)"
    and "ks = before @ k # after \<or> (k \<notin> set ks \<and> ks = before @ after)"
    and "\<forall>x \<in> set before. cmp x k" and "\<forall>x \<in> set after. cmp k x"
  using assms
proof (induction ks arbitrary: thesis)
  case Nil
  show ?case by (rule Nil.prems(1) [of "[]" "[]"]) auto
next
  case (Cons h ks)
  consider "cmp k h" | "h = k" | "cmp h k" "h \<noteq> k" using total irreflexive by blast
  then show ?case
  proof cases
    case 1
    then have "\<forall>x \<in> set (h # ks). cmp k x" using Cons.prems(2) transitive by auto
    with Cons.prems(2) irreflexive show ?thesis
      by (intro Cons.prems(1) [of "[]" "h # ks"]) auto
  next
    case 2
    with Cons.prems(2) show ?thesis by (intro Cons.prems(1) [of "[]" ks]) auto
  next
    case 3
    obtain before after where
      IH: "sorted_wrt cmp (before @ k # after)" "set (before @ k # after) = insert k (set ks)"
      "ks = before @ k # after \<or> (k \<notin> set ks \<and> ks = before @ after)"
      "\<forall>x \<in> set before. cmp x k" "\<forall>x \<in> set after. cmp k x"
      using Cons.IH Cons.prems(2) by auto
    have "\<forall>x \<in> set ks. cmp h x" using Cons.prems(2) by simp
    then have "\<forall>x \<in> set (before @ k # after). cmp h x" using IH(2) 3 by auto
    with IH 3 show ?thesis by (intro Cons.prems(1) [of "h # before" after]) auto
  qed
qed

lemma keys_emplace:
  "set (keys_of (map_emplace cmp k v m)) = insert k (set (keys_of m))"
proof (induction m)
  case (Cons e m)
  obtain k' v' where e: "e = (k', v')" by (cases e)
  with Cons show ?case using total [of k k'] by auto
qed simp

lemma sorted_emplace:
  "sorted_wrt cmp (keys_of m) \<Longrightarrow> sorted_wrt cmp (keys_of (map_emplace cmp k v m))"
proof (induction m)
  case (Cons e m)
  obtain k' v' where e: "e = (k', v')" by (cases e)
  with Cons show ?case
    using keys_emplace [of k v m] by (auto intro: transitive)
qed simp

lemma sorted_not_later:
  "sorted_wrt cmp (k' # ks) \<Longrightarrow> cmp k k' \<Longrightarrow> k \<notin> set (k' # ks)"
  using asymmetric irreflexive by auto

lemma find_emplace:
  "sorted_wrt cmp (keys_of m) \<Longrightarrow>
   map_find q (map_emplace cmp k v m) =
     (if q = k \<and> map_find k m = None then Some v else map_find q m)"
proof (induction m)
  case (Cons e m)
  obtain k' v' where e: "e = (k', v')" by (cases e)
  from Cons.prems e have srt: "sorted_wrt cmp (k' # keys_of m)" by simp
  consider "cmp k k'" | "\<not> cmp k k'" "cmp k' k" | "k = k'" using total by blast
  then show ?case
  proof cases
    case 1
    with sorted_not_later [OF srt] have "map_find k m = None" "k \<noteq> k'"
      by (simp_all add: map_find_None_iff)
    with 1 e show ?thesis by simp
  next
    case 2
    then have "k \<noteq> k'" using irreflexive by blast
    with 2 e Cons srt show ?thesis by (cases "q = k") simp_all
  next
    case 3
    with e irreflexive show ?thesis by simp
  qed
qed simp

lemma sorted_erase:
  "sorted_wrt cmp (keys_of m) \<Longrightarrow> sorted_wrt cmp (keys_of (map_erase k m))"
proof (induction m)
  case (Cons e m)
  obtain k' v' where e: "e = (k', v')" by (cases e)
  with Cons show ?case using keys_erase_subset [of k m] by auto
qed simp

lemma begin_best:
  assumes "sorted_wrt cmp (keys_of m)" and "map_begin m = Some (k, v)"
  shows "map_find k m = Some v \<and> (\<forall>q. map_find q m \<noteq> None \<longrightarrow> q = k \<or> cmp k q)"
  using assms by (cases m) (auto dest: map_find_Some_key)

end

lemma begin_None_iff [simp]: "map_begin m = None \<longleftrightarrow> m = []"
  by (cases m) auto

end
