(* ===== verification/Order_Book.thy ===== *)
theory Order_Book
  imports Intrusive_List Std_Map
begin

text \<open>
  \<^verbatim>\<open>include/nexus/core/order_book.hpp\<close> and \<^verbatim>\<open>src/engine/order_book.cpp\<close>: price
  levels (a volume and an intrusive list of orders), the two price-sorted maps, and the
  book's operations on the maps and the node heap. A \<open>PriceLevel*\<close> into a map is the key
  of its map node. The code writes each operation twice, once on \<open>bids_\<close> and once on
  \<open>asks_\<close>; the model writes it once over \<open>book_side s\<close>.
\<close>

section \<open>Data\<close>

record PriceLevel =
  lvl_price :: Price
  total_volume :: Quantity
  lvl_orders :: IntrusiveList

definition PriceLevel_of :: "Price \<Rightarrow> PriceLevel" where
  "PriceLevel_of p = \<lparr>lvl_price = p, total_volume = 0, lvl_orders = il_empty_list\<rparr>"

type_synonym levels = "(Price, PriceLevel) stdmap"

record OrderBook =
  bids :: levels
  asks :: levels

definition OrderBook_new :: OrderBook where
  "OrderBook_new = \<lparr>bids = [], asks = []\<rparr>"

text \<open>\<open>std::greater\<close> orders the bids, \<open>std::less\<close> the asks.\<close>

fun side_cmp :: "Side \<Rightarrow> Price \<Rightarrow> Price \<Rightarrow> bool" where
  "side_cmp Buy a b = (b < a)"
| "side_cmp Sell a b = (a < b)"

fun book_side :: "Side \<Rightarrow> OrderBook \<Rightarrow> levels" where
  "book_side Buy b = bids b"
| "book_side Sell b = asks b"

fun set_book_side :: "Side \<Rightarrow> levels \<Rightarrow> OrderBook \<Rightarrow> OrderBook" where
  "set_book_side Buy lm b = b\<lparr>bids := lm\<rparr>"
| "set_book_side Sell lm b = b\<lparr>asks := lm\<rparr>"

lemma book_side_set [simp]:
  "book_side s (set_book_side s' lm b) = (if s = s' then lm else book_side s b)"
  by (cases s; cases s') auto

interpretation bid_order: map_compare "side_cmp Buy"
  by unfold_locales auto

interpretation ask_order: map_compare "side_cmp Sell"
  by unfold_locales auto

interpretation side_order: map_compare "side_cmp s" for s
  by (cases s) (simp_all add: bid_order.map_compare_axioms ask_order.map_compare_axioms)

section \<open>Operations\<close>

definition get_best_bid :: "OrderBook \<Rightarrow> PriceLevel option" where
  "get_best_bid b = map_option snd (map_begin (bids b))"

definition get_best_ask :: "OrderBook \<Rightarrow> PriceLevel option" where
  "get_best_ask b = map_option snd (map_begin (asks b))"

fun best_level :: "Side \<Rightarrow> OrderBook \<Rightarrow> PriceLevel option" where
  "best_level Buy b = get_best_bid b"
| "best_level Sell b = get_best_ask b"

definition check_remove_level :: "PriceLevel \<Rightarrow> Side \<Rightarrow> OrderBook \<Rightarrow> OrderBook" where
  "check_remove_level level s b =
     (if il_empty (lvl_orders level)
      then set_book_side s (map_erase (lvl_price level) (book_side s b)) b
      else b)"

text \<open>
  \<open>insert_order\<close>: find the level, create it if it is missing, append the node, add its
  quantity. \<open>None\<close> is a null dereference inside \<open>push_back\<close>.
\<close>

definition insert_order :: "addr \<Rightarrow> OrderBook \<times> mem \<Rightarrow> (OrderBook \<times> mem) option" where
  "insert_order node = (\<lambda>(b, m).
     (let s = on_side (m node);
          p = on_price (m node);
          lm = (case map_find p (book_side s b) of
                  None \<Rightarrow> map_emplace (side_cmp s) p (PriceLevel_of p) (book_side s b)
                | Some _ \<Rightarrow> book_side s b)
      in (case map_find p lm of
            None \<Rightarrow> None
          | Some lvl \<Rightarrow>
              (case il_push_back node (lvl_orders lvl, m) of
                 None \<Rightarrow> None
               | Some (os, m') \<Rightarrow>
                   Some (set_book_side s
                     (map_store p (lvl\<lparr>lvl_orders := os,
                        total_volume := total_volume lvl + on_qty (m' node)\<rparr>) lm) b, m')))))"

definition cancel_order :: "addr \<Rightarrow> OrderBook \<times> mem \<Rightarrow> OrderBook \<times> mem" where
  "cancel_order node = (\<lambda>(b, m).
     (let s = on_side (m node);
          p = on_price (m node)
      in (case map_find p (book_side s b) of
            None \<Rightarrow> (b, m)
          | Some lvl \<Rightarrow>
              (let (os, m') = il_remove node (lvl_orders lvl, m);
                   lvl' = lvl\<lparr>lvl_orders := os,
                     total_volume := total_volume lvl - on_qty (m' node)\<rparr>;
                   b' = set_book_side s (map_store p lvl' (book_side s b)) b
               in (check_remove_level lvl' s b', m')))))"

definition reduce_order :: "addr \<Rightarrow> Quantity \<Rightarrow> OrderBook \<times> mem \<Rightarrow> OrderBook \<times> mem" where
  "reduce_order node new_qty = (\<lambda>(b, m).
     (if new_qty \<ge> on_qty (m node) then (b, m)
      else
        (let diff = on_qty (m node) - new_qty;
             m' = set_qty node new_qty m;
             s = on_side (m' node);
             p = on_price (m' node)
         in (case map_find p (book_side s b) of
               None \<Rightarrow> (b, m')
             | Some lvl \<Rightarrow>
                 (set_book_side s
                   (map_store p (lvl\<lparr>total_volume := total_volume lvl - diff\<rparr>)
                     (book_side s b)) b, m')))))"

section \<open>What a book represents\<close>

text \<open>
  The abstract book is the queue of orders at each price of each side. A level represents
  a non-empty queue: its list holds the queue, every node carries the level's price and
  side, and the volume is the sum of the quantities (in 64-bit arithmetic, so a wrapped sum
  stays consistent).
\<close>

type_synonym queues = "Side \<Rightarrow> Price \<Rightarrow> addr list"

definition level_rel :: "mem \<Rightarrow> Side \<Rightarrow> Price \<Rightarrow> PriceLevel \<Rightarrow> addr list \<Rightarrow> bool" where
  "level_rel m s p lvl xs \<longleftrightarrow> lvl_price lvl = p \<and> xs \<noteq> [] \<and> il_holds m (lvl_orders lvl) xs \<and>
     (\<forall>a \<in> set xs. on_price (m a) = p \<and> on_side (m a) = s) \<and>
     total_volume lvl = sum_list (map (\<lambda>a. on_qty (m a)) xs)"

definition slot_rel :: "mem \<Rightarrow> Side \<Rightarrow> Price \<Rightarrow> PriceLevel option \<Rightarrow> addr list \<Rightarrow> bool" where
  "slot_rel m s p slot xs \<longleftrightarrow>
     (case slot of None \<Rightarrow> xs = [] | Some lvl \<Rightarrow> level_rel m s p lvl xs)"

lemma slot_rel_simps [simp]:
  "slot_rel m s p None xs \<longleftrightarrow> xs = []"
  "slot_rel m s p (Some lvl) xs \<longleftrightarrow> level_rel m s p lvl xs"
  by (simp_all add: slot_rel_def)

definition side_rel :: "mem \<Rightarrow> Side \<Rightarrow> levels \<Rightarrow> (Price \<Rightarrow> addr list) \<Rightarrow> bool" where
  "side_rel m s lm Q \<longleftrightarrow> sorted_wrt (side_cmp s) (keys_of lm) \<and>
     (\<forall>p. slot_rel m s p (map_find p lm) (Q p))"

definition book_rel :: "mem \<Rightarrow> OrderBook \<Rightarrow> queues \<Rightarrow> bool" where
  "book_rel m b N \<longleftrightarrow> (\<forall>s. side_rel m s (book_side s b) (N s))"

definition live :: "queues \<Rightarrow> addr \<Rightarrow> bool" where
  "live N a \<longleftrightarrow> (\<exists>s p. a \<in> set (N s p))"

definition upd_queue :: "Side \<Rightarrow> Price \<Rightarrow> addr list \<Rightarrow> queues \<Rightarrow> queues" where
  "upd_queue s p xs N = N(s := (N s)(p := xs))"

lemma upd_queue_apply [simp]:
  "upd_queue s p xs N s' = (if s' = s then (N s)(p := xs) else N s')"
  by (simp add: upd_queue_def)

lemma book_rel_new: "book_rel m OrderBook_new (\<lambda>_ _. [])"
proof -
  have "side_rel m s (book_side s OrderBook_new) (\<lambda>_. [])" for s
    by (cases s) (simp_all add: side_rel_def OrderBook_new_def)
  then show ?thesis by (simp add: book_rel_def)
qed

lemma level_rel_frame:
  "(\<And>a. a \<in> set xs \<Longrightarrow> m' a = m a) \<Longrightarrow> level_rel m' s p lvl xs = level_rel m s p lvl xs"
  unfolding level_rel_def
  by (subst il_holds_cong [of xs m' m]) (auto simp: cong: map_cong)

lemma slot_rel_frame:
  "(\<And>a. a \<in> set xs \<Longrightarrow> m' a = m a) \<Longrightarrow> slot_rel m' s p slot xs = slot_rel m s p slot xs"
  using level_rel_frame [of xs m' m s p] by (cases slot) simp_all

lemma side_rel_level:
  "side_rel m s lm Q \<Longrightarrow> map_find p lm = Some lvl \<Longrightarrow> level_rel m s p lvl (Q p)"
  by (auto simp: side_rel_def dest!: spec [of _ p])

lemma side_rel_no_level: "side_rel m s lm Q \<Longrightarrow> map_find p lm = None \<longleftrightarrow> Q p = []"
  unfolding side_rel_def by (cases "map_find p lm") (auto simp: level_rel_def dest: spec [of _ p])

lemma side_rel_node:
  assumes "side_rel m s lm Q" and "a \<in> set (Q p)"
  shows "on_price (m a) = p \<and> on_side (m a) = s"
proof (cases "map_find p lm")
  case None
  with assms show ?thesis by (simp add: side_rel_no_level)
next
  case (Some lvl)
  with assms show ?thesis by (auto dest: side_rel_level simp: level_rel_def)
qed

lemma side_rel_disjoint:
  "side_rel m s lm Q \<Longrightarrow> q \<noteq> p \<Longrightarrow> a \<in> set (Q q) \<Longrightarrow> a \<notin> set (Q p)"
  using side_rel_node [of m s lm Q a q] side_rel_node [of m s lm Q a p] by auto

lemma side_rel_keys_distinct: "side_rel m s lm Q \<Longrightarrow> distinct (keys_of lm)"
  unfolding side_rel_def using side_order.sorted_distinct [of s "keys_of lm"] by simp

lemma side_rel_frame:
  assumes rel: "side_rel m s lm Q" and same: "\<And>p a. a \<in> set (Q p) \<Longrightarrow> m' a = m a"
  shows "side_rel m' s lm Q"
proof -
  have "slot_rel m' s p slot (Q p) = slot_rel m s p slot (Q p)" for p slot
    by (rule slot_rel_frame) (rule same)
  with rel show ?thesis by (simp add: side_rel_def)
qed

lemma book_rel_node:
  "book_rel m b N \<Longrightarrow> a \<in> set (N s p) \<Longrightarrow> on_price (m a) = p \<and> on_side (m a) = s"
  by (auto simp: book_rel_def dest: side_rel_node)

lemma book_rel_live_iff:
  "book_rel m b N \<Longrightarrow> live N a \<longleftrightarrow> a \<in> set (N (on_side (m a)) (on_price (m a)))"
  by (auto simp: live_def dest: book_rel_node)

lemma book_rel_distinct:
  assumes "book_rel m b N" shows "distinct (N s p)"
proof (cases "map_find p (book_side s b)")
  case None
  with assms have "N s p = []" by (auto simp: book_rel_def dest: side_rel_no_level)
  then show ?thesis by simp
next
  case (Some lvl)
  with assms show ?thesis
    by (auto simp: book_rel_def level_rel_def il_holds_def dest!: side_rel_level)
qed

text \<open>
  One queue changes: the relation for the whole book follows from the relation for the
  changed side, when the heap is the same outside nodes of that side and price.
\<close>

lemma book_rel_update_side:
  assumes rel: "book_rel m b N"
    and changed: "side_rel m' s lm ((N s)(p := xs))"
    and off: "same_off S m m'"
    and S: "\<And>a. a \<in> S \<Longrightarrow> \<not> live N a \<or> a \<in> set (N s p)"
  shows "book_rel m' (set_book_side s lm b) (upd_queue s p xs N)"
proof -
  have "side_rel m' s' (book_side s' b) (N s')" if "s' \<noteq> s" for s'
  proof (rule side_rel_frame)
    show "side_rel m s' (book_side s' b) (N s')" using rel by (simp add: book_rel_def)
    fix q a assume a: "a \<in> set (N s' q)"
    then have "live N a" by (auto simp: live_def)
    moreover have "a \<notin> set (N s p)" using a that rel by (auto dest: book_rel_node)
    ultimately show "m' a = m a" using off S by (auto simp: same_off_def)
  qed
  with changed show ?thesis by (auto simp: book_rel_def)
qed

text \<open>
  The same for one side: the level at \<open>p\<close> is stored or erased, the others keep their nodes.
\<close>

lemma side_rel_update_level:
  assumes rel: "side_rel m s lm Q"
    and sorted: "sorted_wrt (side_cmp s) (keys_of lm')"
    and others: "\<And>q. q \<noteq> p \<Longrightarrow> map_find q lm' = map_find q lm"
    and here: "slot_rel m' s p (map_find p lm') xs"
    and off: "\<And>q a. q \<noteq> p \<Longrightarrow> a \<in> set (Q q) \<Longrightarrow> m' a = m a"
  shows "side_rel m' s lm' (Q(p := xs))"
proof -
  have "slot_rel m' s q (map_find q lm') (Q q)" if "q \<noteq> p" for q
    using rel others [OF that] slot_rel_frame [of "Q q" m' m] off [OF that]
    by (simp add: side_rel_def)
  with sorted here show ?thesis by (simp add: side_rel_def)
qed

section \<open>Inserting\<close>

text \<open>
  After the find-or-emplace prefix of \<open>insert_order\<close> there is a level at the price, empty
  if it is new, and the other levels are as before.
\<close>

lemma find_or_emplace:
  fixes p :: Price
  assumes rel: "side_rel m s lm Q"
  defines "lm' \<equiv> (case map_find p lm of
                    None \<Rightarrow> map_emplace (side_cmp s) p (PriceLevel_of p) lm | Some _ \<Rightarrow> lm)"
  obtains lvl where "map_find p lm' = Some lvl" and "lvl_price lvl = p"
    and "il_holds m (lvl_orders lvl) (Q p)"
    and "total_volume lvl = sum_list (map (\<lambda>a. on_qty (m a)) (Q p))"
    and "sorted_wrt (side_cmp s) (keys_of lm')"
    and "\<And>q. q \<noteq> p \<Longrightarrow> map_find q lm' = map_find q lm"
proof (cases "map_find p lm")
  case None
  then have Q: "Q p = []" using rel by (simp add: side_rel_no_level)
  have srt: "sorted_wrt (side_cmp s) (keys_of lm)" using rel by (simp add: side_rel_def)
  from None have lm': "lm' = map_emplace (side_cmp s) p (PriceLevel_of p) lm"
    by (simp add: lm'_def)
  show thesis
    by (rule that [of "PriceLevel_of p"])
      (simp_all add: lm' side_order.find_emplace [OF srt] None Q PriceLevel_of_def
        side_order.sorted_emplace [OF srt])
next
  case (Some lvl)
  then have "level_rel m s p lvl (Q p)" using rel by (auto dest: side_rel_level)
  with Some rel show thesis
    by (intro that [of lvl]) (simp_all add: lm'_def level_rel_def side_rel_def)
qed

lemma insert_order_rel:
  assumes rel: "book_rel m b N" and fresh: "\<not> live N a"
    and s: "s = on_side (m a)" and p: "p = on_price (m a)"
  obtains b' m' where "insert_order a (b, m) = Some (b', m')"
    and "book_rel m' b' (upd_queue s p (N s p @ [a]) N)"
    and "same_data m m'" and "same_off (insert a (set (N s p))) m m'"
proof -
  have side: "side_rel m s (book_side s b) (N s)" using rel by (simp add: book_rel_def)
  let ?lm = "case map_find p (book_side s b) of
      None \<Rightarrow> map_emplace (side_cmp s) p (PriceLevel_of p) (book_side s b)
    | Some _ \<Rightarrow> book_side s b"
  obtain lvl where lvl: "map_find p ?lm = Some lvl" "lvl_price lvl = p"
    and holds: "il_holds m (lvl_orders lvl) (N s p)"
    and vol: "total_volume lvl = sum_list (map (\<lambda>a. on_qty (m a)) (N s p))"
    and srt: "sorted_wrt (side_cmp s) (keys_of ?lm)"
    and others: "\<And>q. q \<noteq> p \<Longrightarrow> map_find q ?lm = map_find q (book_side s b)"
    using find_or_emplace [OF side, of p] by blast
  have out: "a \<notin> set (N s' q)" for s' q using fresh by (auto simp: live_def)
  have node: "on_side (m a) = s" "on_price (m a) = p" using s p by simp_all
  have nodes: "\<forall>c \<in> set (N s p). on_price (m c) = p \<and> on_side (m c) = s"
    using side_rel_node [OF side] by blast
  obtain os m' where push: "il_push_back a (lvl_orders lvl, m) = Some (os, m')"
    and holds': "il_holds m' os (N s p @ [a])"
    and data: "same_data m m'" and off: "same_off (insert a (set (N s p))) m m'"
    by (rule il_push_back_holds [OF holds out]) blast
  let ?lvl = "lvl\<lparr>lvl_orders := os, total_volume := total_volume lvl + on_qty (m' a)\<rparr>"
  let ?b = "set_book_side s (map_store p ?lvl ?lm) b"
  have key: "p \<in> set (keys_of ?lm)" using lvl(1) by (rule map_find_Some_key)
  have run: "insert_order a (b, m) = Some (?b, m')"
    unfolding insert_order_def Let_def prod.case node lvl(1) option.case push ..
  have "level_rel m' s p ?lvl (N s p @ [a])"
    using lvl(2) holds' vol data node nodes by (auto simp: level_rel_def same_data_def)
  moreover have "m' c = m c" if "q \<noteq> p" "c \<in> set (N s q)" for q c
    using off side_rel_disjoint [OF side that] out [of s q] that by (auto simp: same_off_def)
  ultimately have "side_rel m' s (map_store p ?lvl ?lm) ((N s)(p := N s p @ [a]))"
    using srt others by (intro side_rel_update_level [OF side]) (auto simp: key)
  then have "book_rel m' ?b (upd_queue s p (N s p @ [a]) N)"
    by (rule book_rel_update_side [OF rel _ off]) (use fresh in auto)
  then show thesis by (rule that [OF run _ data off])
qed

section \<open>Cancelling\<close>

lemma cancel_order_rel:
  assumes rel: "book_rel m b N" and here: "a \<in> set (N s p)"
  obtains b' m' where "cancel_order a (b, m) = (b', m')"
    and "book_rel m' b' (upd_queue s p (remove1 a (N s p)) N)"
    and "same_data m m'" and "same_off (set (N s p)) m m'"
    and "on_prev (m' a) = None" and "on_next (m' a) = None"
proof -
  have side: "side_rel m s (book_side s b) (N s)" using rel by (simp add: book_rel_def)
  from side here have node: "on_price (m a) = p" "on_side (m a) = s"
    by (auto dest: side_rel_node)
  from here side obtain lvl where lvl: "map_find p (book_side s b) = Some lvl"
    using side_rel_no_level [OF side, of p] by fastforce
  with side have lrel: "level_rel m s p lvl (N s p)" by (rule side_rel_level)
  from here obtain xs ys where split: "N s p = xs @ a # ys" by (meson split_list)
  have dist: "distinct (xs @ a # ys)" using book_rel_distinct [OF rel, of s p] split by simp
  then have rem: "remove1 a (N s p) = xs @ ys" by (simp add: split remove1_append)
  from lrel split have holds: "il_holds m (lvl_orders lvl) (xs @ a # ys)"
    by (simp add: level_rel_def)
  obtain os m' where un: "il_remove a (lvl_orders lvl, m) = (os, m')"
    and holds': "il_holds m' os (xs @ ys)"
    and data: "same_data m m'" and off: "same_off (set (xs @ a # ys)) m m'"
    and links: "on_prev (m' a) = None" "on_next (m' a) = None"
    by (rule il_remove_holds [OF holds]) blast
  let ?lvl = "lvl\<lparr>lvl_orders := os, total_volume := total_volume lvl - on_qty (m' a)\<rparr>"
  let ?lm = "map_store p ?lvl (book_side s b)"
  let ?lm' = "if xs @ ys = [] then map_erase p ?lm else ?lm"
  have key: "p \<in> set (keys_of (book_side s b))" using lvl by (rule map_find_Some_key)
  have empty: "il_empty os \<longleftrightarrow> xs @ ys = []" by (rule il_empty_iff [OF holds'])
  have price: "lvl_price lvl = p" using lrel by (simp add: level_rel_def)
  have "set_book_side s lm (set_book_side s lm2 b) = set_book_side s lm b" for lm lm2
    by (cases s) simp_all
  then have run: "cancel_order a (b, m) = (set_book_side s ?lm' b, m')"
    using price by (simp add: cancel_order_def Let_def node lvl un check_remove_level_def empty)
  have srt: "sorted_wrt (side_cmp s) (keys_of ?lm)" using side by (simp add: side_rel_def)
  have dst: "distinct (keys_of ?lm)" using side_rel_keys_distinct [OF side] by simp
  have vol: "total_volume ?lvl = sum_list (map (\<lambda>a. on_qty (m' a)) (xs @ ys))"
    using lrel data by (simp add: level_rel_def split same_data_def)
  have lvl': "level_rel m' s p ?lvl (xs @ ys)" if "xs @ ys \<noteq> []"
    using that lrel holds' vol data split by (auto simp: level_rel_def same_data_def)
  have "slot_rel m' s p (map_find p ?lm') (xs @ ys)"
    using lvl' dst key by auto
  then have "side_rel m' s ?lm' ((N s)(p := xs @ ys))"
    using srt dst off side_rel_disjoint [OF side, of _ p] side_order.sorted_erase [OF srt]
    by (intro side_rel_update_level [OF side]) (auto simp: same_off_def split)
  then have "book_rel m' (set_book_side s ?lm' b) (upd_queue s p (xs @ ys) N)"
    by (rule book_rel_update_side [OF rel _ off]) (use split in auto)
  then have "book_rel m' (set_book_side s ?lm' b) (upd_queue s p (remove1 a (N s p)) N)"
    by (simp only: rem)
  moreover have "same_off (set (N s p)) m m'" using off by (simp only: split)
  ultimately show thesis by (rule that [OF run _ data _ links])
qed

text \<open>
  Cancelling a node that is no longer in the book, with another order resting at the same
  side and price. The node's null links make \<open>remove\<close> set the level's head and tail to null,
  so the level looks empty and is erased with every order in it.
\<close>

lemma cancel_stale_erases:
  assumes rel: "book_rel m b N"
    and links: "on_prev (m a) = None" "on_next (m a) = None"
    and others: "N (on_side (m a)) (on_price (m a)) \<noteq> []"
  shows "map_find (on_price (m a))
           (book_side (on_side (m a)) (fst (cancel_order a (b, m)))) = None"
proof -
  let ?s = "on_side (m a)" and ?p = "on_price (m a)"
  have side: "side_rel m ?s (book_side ?s b) (N ?s)" using rel by (simp add: book_rel_def)
  with others obtain lvl where lvl: "map_find ?p (book_side ?s b) = Some lvl"
    using side_rel_no_level [OF side, of ?p] by fastforce
  with side have "level_rel m ?s ?p lvl (N ?s ?p)" by (rule side_rel_level)
  then have "lvl_price lvl = ?p" unfolding level_rel_def by blast
  with lvl links show ?thesis
    using side_rel_keys_distinct [OF side]
    by (simp add: cancel_order_def Let_def il_remove_def check_remove_level_def il_empty_def)
qed

section \<open>Reducing\<close>

lemma sum_list_set_qty:
  assumes "distinct xs" and "a \<in> set xs"
  shows "sum_list (map (\<lambda>c. on_qty (set_qty a q m c)) xs) =
         sum_list (map (\<lambda>c. on_qty (m c)) xs) - (on_qty (m a) - q)"
  using assms
proof (induction xs)
  case (Cons c cs)
  show ?case
  proof (cases "c = a")
    case True
    with Cons.prems have "\<forall>c \<in> set cs. c \<noteq> a" by auto
    with True show ?thesis by (simp cong: map_cong)
  next
    case False
    with Cons show ?thesis by simp
  qed
qed simp

lemma reduce_order_rel:
  assumes rel: "book_rel m b N" and here: "a \<in> set (N s p)" and less: "q < on_qty (m a)"
  obtains b' where "reduce_order a q (b, m) = (b', set_qty a q m)"
    and "book_rel (set_qty a q m) b' N"
proof -
  have side: "side_rel m s (book_side s b) (N s)" using rel by (simp add: book_rel_def)
  from side here have node: "on_price (m a) = p" "on_side (m a) = s"
    by (auto dest: side_rel_node)
  from here side obtain lvl where lvl: "map_find p (book_side s b) = Some lvl"
    using side_rel_no_level [OF side, of p] by fastforce
  with side have lrel: "level_rel m s p lvl (N s p)" by (rule side_rel_level)
  let ?m = "set_qty a q m"
  let ?lvl = "lvl\<lparr>total_volume := total_volume lvl - (on_qty (m a) - q)\<rparr>"
  let ?lm = "map_store p ?lvl (book_side s b)"
  have key: "p \<in> set (keys_of (book_side s b))" using lvl by (rule map_find_Some_key)
  have run: "reduce_order a q (b, m) = (set_book_side s ?lm b, ?m)"
    using less less[unfolded not_le[symmetric]] by (simp add: reduce_order_def Let_def node lvl)
  have holds: "il_holds ?m (lvl_orders lvl) (N s p)"
    using lrel il_holds_cong [of "N s p" ?m m] by (simp add: level_rel_def)
  have "level_rel ?m s p ?lvl (N s p)"
    using lrel holds sum_list_set_qty [OF book_rel_distinct [OF rel] here]
    by (simp add: level_rel_def)
  moreover have off: "same_off {a} m ?m" by (simp add: same_off_def set_qty_def)
  moreover have "?m c = m c" if "r \<noteq> p" "c \<in> set (N s r)" for r c
    using side_rel_disjoint [OF side that] here by (auto simp: set_qty_def)
  ultimately have "side_rel ?m s ?lm ((N s)(p := N s p))"
    using side by (intro side_rel_update_level [OF side]) (auto simp: key side_rel_def)
  then have "book_rel ?m (set_book_side s ?lm b) (upd_queue s p (N s p) N)"
    by (rule book_rel_update_side [OF rel _ off]) (use here in auto)
  then have "book_rel ?m (set_book_side s ?lm b) N" by (simp add: upd_queue_def)
  then show thesis by (rule that [OF run])
qed

lemma reduce_order_noop: "on_qty (m a) \<le> q \<Longrightarrow> reduce_order a q (b, m) = (b, m)"
  by (simp add: reduce_order_def)

section \<open>The book as an interface\<close>

text \<open>
  What the matching engine and its clients rely on: placing an order queues it behind the
  orders at its side and price, withdrawing takes exactly it out. \<open>key\<close> reads an order's
  side and price.
\<close>

locale order_index =
  fixes rel :: "'m \<Rightarrow> 'b \<Rightarrow> queues \<Rightarrow> bool"
    and key :: "'m \<Rightarrow> addr \<Rightarrow> Side \<times> Price"
    and place :: "addr \<Rightarrow> 'b \<times> 'm \<Rightarrow> ('b \<times> 'm) option"
    and withdraw :: "addr \<Rightarrow> 'b \<times> 'm \<Rightarrow> 'b \<times> 'm"
  assumes place_rel: "rel m b N \<Longrightarrow> \<not> live N a \<Longrightarrow> key m a = (s, p) \<Longrightarrow>
      \<exists>b' m'. place a (b, m) = Some (b', m') \<and> rel m' b' (upd_queue s p (N s p @ [a]) N) \<and>
              key m' a = (s, p)"
    and withdraw_rel: "rel m b N \<Longrightarrow> a \<in> set (N s p) \<Longrightarrow>
      \<exists>b' m'. withdraw a (b, m) = (b', m') \<and>
              rel m' b' (upd_queue s p (remove1 a (N s p)) N) \<and> key m' a = (s, p)"
    and rel_key: "rel m b N \<Longrightarrow> a \<in> set (N s p) \<Longrightarrow> key m a = (s, p)"
    and rel_distinct: "rel m b N \<Longrightarrow> distinct (N s p)"
begin

lemma upd_queue_twice: "upd_queue s p xs (upd_queue s p ys N) = upd_queue s p xs N"
  by (simp add: upd_queue_def fun_eq_iff)

lemma place_withdraw:
  assumes rel: "rel m b N" and fresh: "\<not> live N a"
  shows "\<exists>b1 m1 b2 m2. place a (b, m) = Some (b1, m1) \<and> withdraw a (b1, m1) = (b2, m2) \<and>
           rel m2 b2 N"
proof -
  obtain s p where k: "key m a = (s, p)" by (metis surj_pair)
  from place_rel [OF rel fresh k] obtain b1 m1 where
    one: "place a (b, m) = Some (b1, m1)" "rel m1 b1 (upd_queue s p (N s p @ [a]) N)" by blast
  have out: "a \<notin> set (N s p)" using fresh by (auto simp: live_def)
  from withdraw_rel [OF one(2), of a s p] obtain b2 m2 where
    "withdraw a (b1, m1) = (b2, m2)"
    "rel m2 b2 (upd_queue s p (remove1 a (N s p @ [a])) (upd_queue s p (N s p @ [a]) N))"
    by auto
  with one out show ?thesis
    by (auto simp: upd_queue_twice remove1_append) (simp add: upd_queue_def)
qed

lemma withdraw_place:
  assumes rel: "rel m b N" and here: "a \<in> set (N s p)"
  shows "\<exists>b1 m1 b2 m2. withdraw a (b, m) = (b1, m1) \<and> place a (b1, m1) = Some (b2, m2) \<and>
           rel m2 b2 (upd_queue s p (remove1 a (N s p) @ [a]) N)"
proof -
  from withdraw_rel [OF assms] obtain b1 m1 where
    one: "withdraw a (b, m) = (b1, m1)" "rel m1 b1 (upd_queue s p (remove1 a (N s p)) N)"
      "key m1 a = (s, p)" by blast
  have "\<not> live (upd_queue s p (remove1 a (N s p)) N) a"
    using rel_key [OF rel] rel_key [OF rel here] rel_distinct [OF rel, of s p]
    by (fastforce simp: live_def split: if_splits)
  from place_rel [OF one(2) this one(3)] one(1) show ?thesis
    by (auto simp: upd_queue_twice)
qed

end

definition node_key :: "mem \<Rightarrow> addr \<Rightarrow> Side \<times> Price" where
  "node_key m a = (on_side (m a), on_price (m a))"

interpretation book: order_index book_rel node_key insert_order cancel_order
proof
  fix m b N a s p
  assume rel: "book_rel m b N" and fresh: "\<not> live N a" and "node_key m a = (s, p)"
  then have sp: "s = on_side (m a)" "p = on_price (m a)" by (simp_all add: node_key_def)
  show "\<exists>b' m'. insert_order a (b, m) = Some (b', m') \<and>
      book_rel m' b' (upd_queue s p (N s p @ [a]) N) \<and> node_key m' a = (s, p)"
    by (rule insert_order_rel [OF rel fresh sp]) (auto simp: node_key_def same_data_def sp)
next
  fix m b N a s p
  assume rel: "book_rel m b N" and here: "a \<in> set (N s p)"
  show "\<exists>b' m'. cancel_order a (b, m) = (b', m') \<and>
      book_rel m' b' (upd_queue s p (remove1 a (N s p)) N) \<and> node_key m' a = (s, p)"
    using book_rel_node [OF rel here]
    by (rule_tac cancel_order_rel [OF rel here]) (auto simp: node_key_def same_data_def)
next
  fix m b N a s p
  assume "book_rel m b N" "a \<in> set (N s p)"
  then show "node_key m a = (s, p)" using book_rel_node by (simp add: node_key_def)
qed (rule book_rel_distinct)

section \<open>Properties\<close>

text \<open>
  Inserting an order that is not in the book and cancelling it gives back the same
  queues at every price of both sides.
\<close>

lemma insert_cancel_roundtrip:
  assumes "book_rel m b N" and "\<not> live N a"
  shows "\<exists>b1 m1 b2 m2. insert_order a (b, m) = Some (b1, m1) \<and>
           cancel_order a (b1, m1) = (b2, m2) \<and> book_rel m2 b2 N"
  using assms by (rule book.place_withdraw)

theorem insert_cancel_roundtrip_witness:
  "\<exists>b1 m1 b2 m2. insert_order 0 (OrderBook_new, \<lambda>_. OrderNode_of 1 100 10 Buy) = Some (b1, m1) \<and>
     cancel_order 0 (b1, m1) = (b2, m2) \<and> book_rel m2 b2 (\<lambda>_ _. [])"
  using insert_cancel_roundtrip [OF book_rel_new, of 0 "\<lambda>_. OrderNode_of 1 100 10 Buy"]
  by (simp add: live_def)

text \<open>
  Cancelling a resting order and inserting it again loses its time priority: it goes to
  the back of the queue at its price, and every other queue is unchanged.
\<close>

lemma cancel_insert_loses_priority:
  assumes "book_rel m b N" and "a \<in> set (N s p)"
  shows "\<exists>b1 m1 b2 m2. cancel_order a (b, m) = (b1, m1) \<and>
           insert_order a (b1, m1) = Some (b2, m2) \<and>
           book_rel m2 b2 (upd_queue s p (remove1 a (N s p) @ [a]) N)"
  using assms by (rule book.withdraw_place)

theorem cancel_insert_loses_priority_witness:
  "\<exists>m b b1 m1 b2 m2. cancel_order 0 (b, m) = (b1, m1) \<and>
     insert_order 0 (b1, m1) = Some (b2, m2) \<and>
     book_rel m2 b2 (upd_queue Buy 100 [0] (\<lambda>_ _. []))"
proof -
  let ?m = "\<lambda>_. OrderNode_of 1 100 10 Buy" and ?N = "upd_queue Buy 100 [0] (\<lambda>_ _. [])"
  have "node_key ?m 0 = (Buy, 100)" by (simp add: node_key_def OrderNode_of_def)
  from book.place_rel [OF book_rel_new _ this] obtain b m where "book_rel m b ?N"
    by (auto simp: live_def)
  note requeued = cancel_insert_loses_priority [OF this, of 0 Buy 100]
  have same: "upd_queue Buy 100 (remove1 0 (?N Buy 100) @ [0]) ?N = ?N"
    by (simp add: upd_queue_def)
  have "0 \<in> set (?N Buy 100)" by simp
  from requeued [OF this] show ?thesis unfolding same by blast
qed

text \<open>
  (C21) Cancelling an order that already left the book (its links are null) while another
  order rests at the same side and price erases that whole price level: the resting orders
  can no longer be found by matching or cancelling.
\<close>

theorem stale_cancel_drops_level:
  assumes "book_rel m b N" and "\<not> live N a"
    and "on_prev (m a) = None" and "on_next (m a) = None"
    and "c \<in> set (N (on_side (m a)) (on_price (m a)))"
  shows "map_find (on_price (m a)) (book_side (on_side (m a)) b) \<noteq> None \<and>
         map_find (on_price (m a))
           (book_side (on_side (m a)) (fst (cancel_order a (b, m)))) = None"
proof -
  have "side_rel m (on_side (m a)) (book_side (on_side (m a)) b) (N (on_side (m a)))"
    using assms(1) by (simp add: book_rel_def)
  moreover have ne: "N (on_side (m a)) (on_price (m a)) \<noteq> []" using assms(5) by auto
  ultimately show ?thesis
    using cancel_stale_erases [OF assms(1,3,4) ne] side_rel_no_level by blast
qed

theorem stale_cancel_drops_level_witness:
  "\<exists>b m. map_find 100 (bids b) \<noteq> None \<and> map_find 100 (bids (fst (cancel_order 7 (b, m)))) = None"
proof -
  let ?m = "\<lambda>_. OrderNode_of 1 100 10 Buy" and ?N = "upd_queue Buy 100 [0] (\<lambda>_ _. [])"
  have fresh: "\<not> live (\<lambda>_ _. []) 0" by (simp add: live_def)
  have sp: "Buy = on_side (?m 0)" "100 = on_price (?m 0)" by (simp_all add: OrderNode_of_def)
  obtain b m where rel': "book_rel m b (upd_queue Buy 100 ([] @ [0]) (\<lambda>_ _. []))"
    and off: "same_off (insert 0 (set [])) ?m m"
    by (rule insert_order_rel [OF book_rel_new fresh sp]) blast
  have rel: "book_rel m b ?N" using rel' by simp
  have "m 7 = OrderNode_of 1 100 10 Buy" using off by (simp add: same_off_def)
  then have node: "on_side (m 7) = Buy" "on_price (m 7) = 100"
    "on_prev (m 7) = None" "on_next (m 7) = None" by (simp_all add: OrderNode_of_def)
  have "\<not> live ?N 7" by (simp add: live_def)
  moreover have "0 \<in> set (?N (on_side (m 7)) (on_price (m 7)))" by (simp add: node)
  ultimately have "map_find 100 (bids b) \<noteq> None \<and>
      map_find 100 (bids (fst (cancel_order 7 (b, m)))) = None"
    using stale_cancel_drops_level [OF rel _ node(3,4)] node(1,2) by simp
  then show ?thesis by blast
qed

end
