(* ===== verification/Match_Spec.thy ===== *)
theory Match_Spec
  imports Order_Book "HOL-Library.Sublist"
begin

text \<open>
  The abstract specification of price-time priority matching, with no pointers, levels or
  volumes: one side of the book is the list of its resting orders from the first to trade
  to the last. \<open>spec_fill\<close> trades an incoming quantity against the front of such a list,
  \<open>spec_insert\<close> queues the remainder behind every order that is not strictly worse, and
  \<open>spec_submit\<close> is a limit order's whole effect. The lemmas here are about the lists
  alone; the matching engine is shown to implement them in \<^verbatim>\<open>Matching_Engine\<close>.
\<close>

section \<open>Resting orders and filling\<close>

record resting =
  r_ref :: addr
  r_id :: OrderId
  r_price :: Price
  r_qty :: Quantity

definition view :: "mem \<Rightarrow> addr \<Rightarrow> resting" where
  "view m a = \<lparr>r_ref = a, r_id = on_id (m a), r_price = on_price (m a), r_qty = on_qty (m a)\<rparr>"

lemma view_sel [simp]:
  "r_ref (view m a) = a" "r_id (view m a) = on_id (m a)"
  "r_price (view m a) = on_price (m a)" "r_qty (view m a) = on_qty (m a)"
  by (simp_all add: view_def)

fun spec_fill ::
  "(Price \<Rightarrow> bool) \<Rightarrow> OrderId \<Rightarrow> Quantity \<Rightarrow> resting list \<Rightarrow> Trade list \<times> Quantity \<times> resting list"
where
  "spec_fill ok t q [] = ([], q, [])"
| "spec_fill ok t q (r # rs) =
     (if q = 0 \<or> \<not> ok (r_price r) then ([], q, r # rs)
      else if r_qty r \<le> q
      then (let (ts, q', rs') = spec_fill ok t (q - r_qty r) rs
            in (Trade_of (r_id r) t (r_price r) (r_qty r) # ts, q', rs'))
      else ([Trade_of (r_id r) t (r_price r) q], 0, r\<lparr>r_qty := r_qty r - q\<rparr> # rs))"

definition spec_insert :: "Side \<Rightarrow> resting \<Rightarrow> resting list \<Rightarrow> resting list" where
  "spec_insert s r rs =
     takeWhile (\<lambda>x. \<not> side_cmp s (r_price r) (r_price x)) rs @ [r] @
     dropWhile (\<lambda>x. \<not> side_cmp s (r_price r) (r_price x)) rs"

text \<open>\<open>acceptable s limit p\<close>: an order on side \<open>s\<close> with this limit may trade at \<open>p\<close>.\<close>

definition acceptable :: "Side \<Rightarrow> Price \<Rightarrow> Price \<Rightarrow> bool" where
  "acceptable s limit p \<longleftrightarrow> \<not> side_cmp (opposite s) limit p"

lemma acceptable_simps [simp]:
  "acceptable Buy limit p \<longleftrightarrow> p \<le> limit"
  "acceptable Sell limit p \<longleftrightarrow> limit \<le> p"
  by (auto simp: acceptable_def)

definition spec_submit ::
  "Side \<Rightarrow> resting \<Rightarrow> resting list \<Rightarrow> resting list \<Rightarrow> Trade list \<times> resting list \<times> resting list"
where
  "spec_submit s r own opp =
     (let (ts, q', opp') = spec_fill (acceptable s (r_price r)) (r_id r) (r_qty r) opp;
          own' = (if q' = 0 then own else spec_insert s (r\<lparr>r_qty := q'\<rparr>) own)
      in (ts, own', opp'))"

section \<open>Filling\<close>

lemma spec_fill_zero [simp]: "spec_fill ok t 0 rs = ([], 0, rs)"
  by (cases rs) auto

lemma spec_fill_append:
  "spec_fill ok t q (xs @ ys) =
     (let (ts1, q1, xs') = spec_fill ok t q xs
      in if xs' = [] then (let (ts2, q2, ys') = spec_fill ok t q1 ys in (ts1 @ ts2, q2, ys'))
         else (ts1, q1, xs' @ ys))"
proof (induction xs arbitrary: q)
  case Nil
  then show ?case by (auto split: prod.splits)
next
  case (Cons r rs)
  then show ?case by (auto simp: Let_def split: prod.splits)
qed

lemma spec_fill_remainder:
  "spec_fill ok t q rs = (ts, q', rs') \<Longrightarrow> q' \<noteq> 0 \<Longrightarrow> rs' = [] \<or> \<not> ok (r_price (hd rs'))"
  by (induction rs arbitrary: q ts) (auto split: if_splits prod.splits)

lemma spec_fill_all_ok:
  "spec_fill ok t q rs = (ts, q', rs') \<Longrightarrow> \<forall>r \<in> set rs. ok (r_price r) \<Longrightarrow> q' \<noteq> 0 \<Longrightarrow> rs' = []"
  by (induction rs arbitrary: q ts) (auto split: if_splits prod.splits)

lemma spec_fill_quantity:
  "spec_fill ok t q rs = (ts, q', rs') \<Longrightarrow>
     sum_list (map (\<lambda>x. unat (trade_qty x)) ts) + unat q' = unat q"
proof (induction rs arbitrary: q ts)
  case (Cons r rs)
  then show ?case
    by (fastforce simp: unat_diff word_le_nat_alt split: if_splits prod.splits)
qed simp

lemma spec_fill_resting_quantity:
  "spec_fill ok t q rs = (ts, q', rs') \<Longrightarrow>
     sum_list (map (\<lambda>x. unat (trade_qty x)) ts) + sum_list (map (\<lambda>x. unat (r_qty x)) rs') =
     sum_list (map (\<lambda>x. unat (r_qty x)) rs)"
proof (induction rs arbitrary: q ts)
  case (Cons r rs)
  then show ?case
    by (fastforce simp: unat_diff word_le_nat_alt not_le split: if_splits prod.splits)
qed simp

lemma spec_fill_makers:
  "spec_fill ok t q rs = (ts, q', rs') \<Longrightarrow>
     length ts \<le> length rs \<and>
     map (\<lambda>x. (maker_order_id x, trade_price x)) ts =
       map (\<lambda>r. (r_id r, r_price r)) (take (length ts) rs) \<and>
     (\<forall>x \<in> set ts. taker_order_id x = t \<and> ok (trade_price x))"
proof (induction rs arbitrary: q ts)
  case (Cons r rs)
  then show ?case by (auto split: if_splits prod.splits)
qed simp

text \<open>
  All but the last trade exhaust their maker; the last may leave one maker, at the front of
  what remains, with a reduced quantity.
\<close>

lemma spec_fill_shape:
  "spec_fill ok t q rs = (ts, q', rs') \<Longrightarrow>
     (\<exists>done. rs = done @ rs' \<and> map trade_qty ts = map r_qty done) \<or>
     (\<exists>done r rest k. rs = done @ r # rest \<and> rs' = r\<lparr>r_qty := r_qty r - k\<rparr> # rest \<and>
        map trade_qty ts = map r_qty done @ [k] \<and> 0 < k \<and> k < r_qty r \<and> q' = 0)"
proof (induction rs arbitrary: q ts)
  case (Cons r rs)
  show ?case
  proof (cases "q = 0 \<or> \<not> ok (r_price r)")
    case True
    with Cons.prems show ?thesis by auto
  next
    case go: False
    show ?thesis
    proof (cases "r_qty r \<le> q")
      case True
      obtain ts2 where rest: "spec_fill ok t (q - r_qty r) rs = (ts2, q', rs')"
        and ts: "ts = Trade_of (r_id r) t (r_price r) (r_qty r) # ts2"
        using Cons.prems go True by (auto split: prod.splits)
      from Cons.IH [OF rest] show ?thesis
      proof (elim disjE exE conjE)
        fix d assume "rs = d @ rs'" "map trade_qty ts2 = map r_qty d"
        with ts show ?thesis by (intro disjI1 exI [of _ "r # d"]) simp
      next
        fix d x rest k assume "rs = d @ x # rest" "rs' = x\<lparr>r_qty := r_qty x - k\<rparr> # rest"
          "map trade_qty ts2 = map r_qty d @ [k]" "0 < k" "k < r_qty x" "q' = 0"
        with ts show ?thesis
          by (intro disjI2 exI [of _ "r # d"] exI [of _ x] exI [of _ rest] exI [of _ k]) simp
      qed
    next
      case False
      with Cons.prems go show ?thesis
        by (intro disjI2 exI [of _ "[]"] exI [of _ r] exI [of _ rs] exI [of _ q])
          (auto simp: word_gt_0_iff)
    qed
  qed
qed simp

section \<open>Priority order\<close>

definition prio_sorted :: "Side \<Rightarrow> resting list \<Rightarrow> bool" where
  "prio_sorted s rs \<longleftrightarrow> sorted_wrt (\<lambda>x y. \<not> side_cmp s (r_price y) (r_price x)) rs"

lemma side_cmp_irrefl [simp]: "\<not> side_cmp s p p"
  by (cases s) auto

lemma side_cmp_negtrans:
  "\<not> side_cmp s a b \<Longrightarrow> \<not> side_cmp s b c \<Longrightarrow> \<not> side_cmp s a c"
  by (cases s) auto

lemma prio_sorted_insert: "prio_sorted s rs \<Longrightarrow> prio_sorted s (spec_insert s r rs)"
proof (induction rs)
  case Nil
  then show ?case by (simp add: prio_sorted_def spec_insert_def)
next
  case (Cons x xs)
  show ?case
  proof (cases "side_cmp s (r_price r) (r_price x)")
    case True
    then have "\<not> side_cmp s (r_price x) (r_price r)" by (cases s) auto
    moreover have "\<not> side_cmp s (r_price y) (r_price r)" if "y \<in> set xs" for y
      using that Cons.prems True by (cases s) (auto simp: prio_sorted_def)
    ultimately show ?thesis using Cons.prems True by (auto simp: prio_sorted_def spec_insert_def)
  next
    case False
    have mem: "set (spec_insert s r xs) = insert r (set xs)"
      unfolding spec_insert_def
      by (metis (no_types, lifting) Un_insert_right append_Cons append_Nil list.simps(15)
          set_append takeWhile_dropWhile_id)
    have eq: "spec_insert s r (x # xs) = x # spec_insert s r xs"
      using False by (simp add: spec_insert_def)
    from Cons.IH Cons.prems False show ?thesis
      by (simp add: eq prio_sorted_def mem)
  qed
qed

lemma spec_fill_prices:
  "spec_fill ok t q rs = (ts, q', rs') \<Longrightarrow>
     suffix (map r_price rs') (map r_price rs)"
proof (induction rs arbitrary: q ts)
  case (Cons r rs)
  then show ?case by (auto simp: suffix_Cons split: if_splits prod.splits)
qed simp

lemma prio_sorted_prices:
  "prio_sorted s rs \<longleftrightarrow> sorted_wrt (\<lambda>p q. \<not> side_cmp s q p) (map r_price rs)"
  by (simp add: prio_sorted_def sorted_wrt_map)

lemma sorted_wrt_suffix: "suffix ys xs \<Longrightarrow> sorted_wrt P xs \<Longrightarrow> sorted_wrt P ys"
  by (auto simp: suffix_def sorted_wrt_append)

lemma prio_sorted_fill:
  "spec_fill ok t q rs = (ts, q', rs') \<Longrightarrow> prio_sorted s rs \<Longrightarrow> prio_sorted s rs'"
  unfolding prio_sorted_prices by (rule sorted_wrt_suffix [OF spec_fill_prices])

section \<open>Uncrossed books\<close>

text \<open>No order on one side would trade with an order resting on the other.\<close>

definition spec_uncrossed :: "Side \<Rightarrow> resting list \<Rightarrow> resting list \<Rightarrow> bool" where
  "spec_uncrossed s own opp \<longleftrightarrow>
     (\<forall>x \<in> set own. \<forall>y \<in> set opp. \<not> acceptable s (r_price x) (r_price y))"

lemma set_spec_insert: "set (spec_insert s r rs) = insert r (set rs)"
proof -
  have "set rs = set (takeWhile P rs) \<union> set (dropWhile P rs)" for P
    by (metis set_append takeWhile_dropWhile_id)
  then show ?thesis unfolding spec_insert_def by auto
qed

lemma prio_sorted_none_acceptable:
  assumes "prio_sorted (opposite s) (y # ys)" and "\<not> acceptable s l (r_price y)"
  shows "\<forall>z \<in> set (y # ys). \<not> acceptable s l (r_price z)"
  using assms by (cases s) (auto simp: prio_sorted_def)

lemma spec_submit_uncrossed:
  assumes srt: "prio_sorted (opposite s) opp" and unx: "spec_uncrossed s own opp"
    and run: "spec_submit s r own opp = (ts, own', opp')"
  shows "spec_uncrossed s own' opp'"
proof -
  obtain q' where fill: "spec_fill (acceptable s (r_price r)) (r_id r) (r_qty r) opp = (ts, q', opp')"
    and own': "own' = (if q' = 0 then own else spec_insert s (r\<lparr>r_qty := q'\<rparr>) own)"
    using run by (auto simp: spec_submit_def split: prod.splits)
  have "set (map r_price opp') \<subseteq> set (map r_price opp)"
    using spec_fill_prices [OF fill] by (rule set_mono_suffix)
  then have old: "\<forall>x \<in> set own. \<forall>y \<in> set opp'. \<not> acceptable s (r_price x) (r_price y)"
    using unx by (fastforce simp: spec_uncrossed_def)
  have "\<forall>y \<in> set opp'. \<not> acceptable s (r_price r) (r_price y)" if "q' \<noteq> 0"
  proof (cases opp')
    case (Cons y ys)
    with spec_fill_remainder [OF fill that] have "\<not> acceptable s (r_price r) (r_price y)" by simp
    with prio_sorted_fill [OF fill srt] Cons show ?thesis
      using prio_sorted_none_acceptable by blast
  qed simp
  with old show ?thesis by (simp add: own' spec_uncrossed_def set_spec_insert)
qed

lemma spec_uncrossed_swap:
  "spec_uncrossed (opposite s) opp own \<longleftrightarrow> spec_uncrossed s own opp"
  by (cases s) (auto simp: spec_uncrossed_def)

end
