(* ===== verification/Small_Vector.thy ===== *)
theory Small_Vector
  imports Nexus_Prelude
begin

text \<open>
  \<^verbatim>\<open>include/nexus/core/small_vector.hpp\<close>: the stack-first, heap-fallback vector the
  matching engine returns its trades in. A storage cell is \<open>None\<close> while it holds raw bytes
  and \<open>Some x\<close> once an object has been constructed in it; the heap buffer is \<open>None\<close> while
  \<open>heap_data_\<close> is \<open>nullptr\<close>. The inline capacity \<open>N\<close> is a template argument, so it is an
  argument of the operations that mention it. Element counts are \<open>nat\<close>: the 64-bit
  \<open>size_t\<close> cannot wrap before the address space is exhausted.
\<close>

type_synonym 'a cells = "'a option list"

record 'a small_vector =
  sv_size :: nat
  sv_capacity :: nat
  sv_heap :: "'a cells option"
  sv_inline :: "'a cells"

definition sv_new :: "nat \<Rightarrow> 'a small_vector" where
  "sv_new N = \<lparr>sv_size = 0, sv_capacity = N, sv_heap = None, sv_inline = replicate N None\<rparr>"

definition sv_is_heap :: "'a small_vector \<Rightarrow> bool" where
  "sv_is_heap v \<longleftrightarrow> sv_heap v \<noteq> None"

definition sv_data :: "'a small_vector \<Rightarrow> 'a cells" where
  "sv_data v = (case sv_heap v of Some h \<Rightarrow> h | None \<Rightarrow> sv_inline v)"

definition sv_set_data :: "'a cells \<Rightarrow> 'a small_vector \<Rightarrow> 'a small_vector" where
  "sv_set_data d v =
     (case sv_heap v of Some _ \<Rightarrow> v\<lparr>sv_heap := Some d\<rparr> | None \<Rightarrow> v\<lparr>sv_inline := d\<rparr>)"

definition sv_empty :: "'a small_vector \<Rightarrow> bool" where
  "sv_empty v \<longleftrightarrow> sv_size v = 0"

text \<open>\<open>operator[]\<close>: an index past the last element is undefined behaviour, \<open>None\<close>.\<close>

definition sv_at :: "'a small_vector \<Rightarrow> nat \<Rightarrow> 'a option" where
  "sv_at v i = (if i < sv_size v then sv_data v ! i else None)"

definition sv_back :: "'a small_vector \<Rightarrow> 'a option" where
  "sv_back v = (if sv_size v = 0 then None else sv_at v (sv_size v - 1))"

text \<open>
  The element-moving loop of \<open>grow\<close> and of the move constructor: construct in the target,
  destroy in the source, for each index below the count.
\<close>

function move_elems :: "nat \<Rightarrow> nat \<Rightarrow> 'a cells \<times> 'a cells \<Rightarrow> 'a cells \<times> 'a cells" where
  "move_elems i n (src, dst) =
     (if i < n then move_elems (Suc i) n (src[i := None], dst[i := src ! i])
      else (src, dst))"
  by pat_completeness auto
termination
  by (relation "measure (\<lambda>(i, n, _). n - i)") auto

declare move_elems.simps [simp del]

definition sv_grow :: "'a small_vector \<Rightarrow> 'a small_vector" where
  "sv_grow v =
     (let new_cap = sv_capacity v * 2;
          new_buf = replicate new_cap None;
          (old, new_buf') = move_elems 0 (sv_size v) (sv_data v, new_buf);
          v1 = sv_set_data old v
      in v1\<lparr>sv_heap := Some new_buf', sv_capacity := new_cap\<rparr>)"

definition sv_emplace_back :: "'a \<Rightarrow> 'a small_vector \<Rightarrow> 'a small_vector" where
  "sv_emplace_back x v =
     (let v1 = (if sv_size v = sv_capacity v then sv_grow v else v);
          v2 = sv_set_data ((sv_data v1)[sv_size v1 := Some x]) v1
      in v2\<lparr>sv_size := sv_size v2 + 1\<rparr>)"

text \<open>Both overloads of \<open>push_back\<close> append through \<open>emplace_back\<close>.\<close>

definition sv_push_back :: "'a \<Rightarrow> 'a small_vector \<Rightarrow> 'a small_vector" where
  "sv_push_back x v = sv_emplace_back x v"

text \<open>
  \<open>destroy_elements\<close> is compiled away when the element type is trivially destructible, as
  \<^verbatim>\<open>Trade\<close> is: then the cells keep their bytes. Otherwise every object is destroyed.
\<close>

function destroy_cells :: "nat \<Rightarrow> nat \<Rightarrow> 'a cells \<Rightarrow> 'a cells" where
  "destroy_cells i n p = (if i < n then destroy_cells (Suc i) n (p[i := None]) else p)"
  by pat_completeness auto
termination
  by (relation "measure (\<lambda>(i, n, _). n - i)") auto

declare destroy_cells.simps [simp del]

definition sv_destroy_elements :: "bool \<Rightarrow> 'a small_vector \<Rightarrow> 'a small_vector" where
  "sv_destroy_elements trivial v =
     (if trivial then v else sv_set_data (destroy_cells 0 (sv_size v) (sv_data v)) v)"

definition sv_clear :: "bool \<Rightarrow> 'a small_vector \<Rightarrow> 'a small_vector" where
  "sv_clear trivial v = (sv_destroy_elements trivial v)\<lparr>sv_size := 0\<rparr>"

text \<open>The move constructor: the new vector and what is left of the source.\<close>

definition sv_move :: "nat \<Rightarrow> 'a small_vector \<Rightarrow> 'a small_vector \<times> 'a small_vector" where
  "sv_move N other =
     (let new = \<lparr>sv_size = sv_size other, sv_capacity = sv_capacity other,
                 sv_heap = None, sv_inline = replicate N None\<rparr>;
          (new', other') =
            (if sv_is_heap other
             then (new\<lparr>sv_heap := sv_heap other\<rparr>, other\<lparr>sv_heap := None\<rparr>)
             else (let (src, dst) = move_elems 0 (sv_size new) (sv_inline other, sv_inline new)
                   in (new\<lparr>sv_inline := dst\<rparr>, other\<lparr>sv_inline := src\<rparr>)))
      in (new', other'\<lparr>sv_size := 0, sv_capacity := N\<rparr>))"

text \<open>
  The calls of \<^verbatim>\<open>operator new\<close> (with a number of elements) and \<^verbatim>\<open>operator delete\<close> that \<open>grow\<close>,
  \<open>emplace_back\<close> and the destructor make, in order.
\<close>

datatype heap_call = Heap_New nat | Heap_Delete

definition sv_grow_calls :: "'a small_vector \<Rightarrow> heap_call list" where
  "sv_grow_calls v = Heap_New (sv_capacity v * 2) # (if sv_is_heap v then [Heap_Delete] else [])"

definition sv_emplace_calls :: "'a small_vector \<Rightarrow> heap_call list" where
  "sv_emplace_calls v = (if sv_size v = sv_capacity v then sv_grow_calls v else [])"

definition sv_destroy :: "'a small_vector \<Rightarrow> heap_call list" where
  "sv_destroy v = (if sv_is_heap v then [Heap_Delete] else [])"

section \<open>Representation invariant and contents\<close>

definition sv_ok :: "nat \<Rightarrow> 'a small_vector \<Rightarrow> bool" where
  "sv_ok N v \<longleftrightarrow> 0 < N \<and> length (sv_inline v) = N \<and> sv_size v \<le> sv_capacity v \<and>
     length (sv_data v) = sv_capacity v \<and>
     (sv_is_heap v \<longrightarrow> N < sv_capacity v) \<and>
     (\<forall>i < sv_size v. sv_data v ! i \<noteq> None)"

definition sv_contents :: "'a small_vector \<Rightarrow> 'a list" where
  "sv_contents v = map the (take (sv_size v) (sv_data v))"

lemma sv_set_data_sel [simp]:
  "sv_data (sv_set_data d v) = d"
  "sv_size (sv_set_data d v) = sv_size v"
  "sv_capacity (sv_set_data d v) = sv_capacity v"
  "sv_is_heap (sv_set_data d v) = sv_is_heap v"
  "sv_is_heap v \<Longrightarrow> sv_inline (sv_set_data d v) = sv_inline v"
  by (auto simp: sv_set_data_def sv_data_def sv_is_heap_def split: option.splits)

lemma sv_set_data_inline_length:
  "length d = length (sv_data v) \<Longrightarrow>
     length (sv_inline (sv_set_data d v)) = length (sv_inline v)"
  by (auto simp: sv_set_data_def sv_data_def split: option.splits)

lemma sv_new_ok: "0 < N \<Longrightarrow> sv_ok N (sv_new N)"
  by (simp add: sv_ok_def sv_new_def sv_data_def sv_is_heap_def)

lemma sv_new_contents [simp]: "sv_contents (sv_new N) = []"
  by (simp add: sv_contents_def sv_new_def)

lemma move_elems_lengths:
  "move_elems i n (src, dst) = (src', dst') \<Longrightarrow>
     length src' = length src \<and> length dst' = length dst"
  by (induction i n "(src, dst)" arbitrary: src dst rule: move_elems.induct)
    (subst (asm) (2) move_elems.simps, auto split: if_splits)

lemma move_elems_nth:
  "\<lbrakk>move_elems i n (src, dst) = (src', dst'); n \<le> length src; n \<le> length dst\<rbrakk> \<Longrightarrow>
     (\<forall>j. i \<le> j \<and> j < n \<longrightarrow> dst' ! j = src ! j) \<and> (\<forall>j < i. dst' ! j = dst ! j)"
proof (induction i n "(src, dst)" arbitrary: src dst rule: move_elems.induct)
  case (1 i n src dst)
  show ?case
  proof (cases "i < n")
    case True
    with "1.prems" have
      step: "move_elems (Suc i) n (src[i := None], dst[i := src ! i]) = (src', dst')"
      by (simp add: move_elems.simps [of i n src dst])
    from "1.hyps" [OF True step] "1.prems" have
      later: "\<forall>j. Suc i \<le> j \<and> j < n \<longrightarrow> dst' ! j = src[i := None] ! j" and
      before: "\<forall>j < Suc i. dst' ! j = dst[i := src ! i] ! j" by auto
    show ?thesis
    proof (intro conjI allI impI)
      fix j assume "i \<le> j \<and> j < n"
      then show "dst' ! j = src ! j"
        using later before True "1.prems" by (cases "j = i") auto
    next
      fix j assume "j < i"
      then show "dst' ! j = dst ! j" using before by auto
    qed
  next
    case False
    with "1.prems" show ?thesis by (auto simp: move_elems.simps [of i n src dst])
  qed
qed

lemma move_elems_take:
  assumes "move_elems 0 n (src, dst) = (src', dst')" and "n \<le> length src" and "n \<le> length dst"
  shows "take n dst' = take n src"
  using move_elems_nth [OF assms] move_elems_lengths [OF assms(1)] assms(2,3)
  by (intro nth_equalityI) auto

section \<open>Growth\<close>

lemma sv_grow_props:
  assumes ok: "sv_ok N v"
  shows "length (sv_inline (sv_grow v)) = N"
    and "sv_size (sv_grow v) = sv_size v"
    and "sv_capacity (sv_grow v) = 2 * sv_capacity v"
    and "sv_is_heap (sv_grow v)"
    and "length (sv_data (sv_grow v)) = 2 * sv_capacity v"
    and "take (sv_size v) (sv_data (sv_grow v)) = take (sv_size v) (sv_data v)"
proof -
  obtain old buf where mv:
    "move_elems 0 (sv_size v) (sv_data v, replicate (sv_capacity v * 2) None) = (old, buf)"
    by (metis surj_pair)
  have len: "length old = length (sv_data v)" "length buf = sv_capacity v * 2"
    using move_elems_lengths [OF mv] by auto
  have grow: "sv_grow v =
      (sv_set_data old v)\<lparr>sv_heap := Some buf, sv_capacity := sv_capacity v * 2\<rparr>"
    by (simp add: sv_grow_def mv)
  show "length (sv_inline (sv_grow v)) = N"
    using ok sv_set_data_inline_length [OF len(1)] by (simp add: grow sv_ok_def)
  show "sv_size (sv_grow v) = sv_size v" "sv_capacity (sv_grow v) = 2 * sv_capacity v"
    "sv_is_heap (sv_grow v)" "length (sv_data (sv_grow v)) = 2 * sv_capacity v"
    by (simp_all add: grow sv_is_heap_def sv_data_def len)
  show "take (sv_size v) (sv_data (sv_grow v)) = take (sv_size v) (sv_data v)"
    using move_elems_take [OF mv] ok by (simp add: grow sv_data_def sv_ok_def)
qed

lemma sv_ok_capacity: "sv_ok N v \<Longrightarrow> 0 < sv_capacity v \<and> N \<le> sv_capacity v"
  by (cases "sv_is_heap v") (auto simp: sv_ok_def sv_is_heap_def sv_data_def)

lemma sv_ok_inline_capacity: "sv_ok N v \<Longrightarrow> \<not> sv_is_heap v \<Longrightarrow> sv_capacity v = N"
  by (auto simp: sv_ok_def sv_is_heap_def sv_data_def)

lemma sv_contents_length [simp]: "sv_ok N v \<Longrightarrow> length (sv_contents v) = sv_size v"
  by (simp add: sv_ok_def sv_contents_def)

lemma sv_grow_ok:
  assumes "sv_ok N v" shows "sv_ok N (sv_grow v) \<and> sv_contents (sv_grow v) = sv_contents v"
proof -
  note g = sv_grow_props [OF assms]
  have "sv_data (sv_grow v) ! i = sv_data v ! i" if "i < sv_size v" for i
    using g(6) that by (metis nth_take)
  then show ?thesis
    using assms g sv_ok_capacity [OF assms] sv_ok_inline_capacity [OF assms]
    unfolding sv_ok_def sv_contents_def by auto
qed

lemma sv_emplace_back_ok:
  assumes ok: "sv_ok N v"
  shows "sv_ok N (sv_emplace_back x v)"
    and "sv_contents (sv_emplace_back x v) = sv_contents v @ [x]"
    and "sv_size (sv_emplace_back x v) = sv_size v + 1"
    and "sv_is_heap (sv_emplace_back x v) \<longleftrightarrow> sv_is_heap v \<or> sv_size v = sv_capacity v"
    and "sv_capacity (sv_emplace_back x v) =
           (if sv_size v = sv_capacity v then 2 * sv_capacity v else sv_capacity v)"
proof -
  let ?v1 = "if sv_size v = sv_capacity v then sv_grow v else v"
  let ?d = "(sv_data ?v1)[sv_size ?v1 := Some x]"
  note g = sv_grow_props [OF ok]
  have run: "sv_emplace_back x v = (sv_set_data ?d ?v1)\<lparr>sv_size := sv_size ?v1 + 1\<rparr>"
    by (simp add: sv_emplace_back_def Let_def)
  have ok1: "sv_ok N ?v1" and c1: "sv_contents ?v1 = sv_contents v"
    and sz: "sv_size ?v1 = sv_size v"
    using ok sv_grow_ok [OF ok] g by auto
  have room: "sv_size ?v1 < sv_capacity ?v1"
    using ok g sv_ok_capacity [OF ok] by (auto simp: sv_ok_def)
  have data: "sv_data (sv_emplace_back x v) = ?d"
    unfolding run by (simp add: sv_data_def sv_set_data_def split: option.splits)
  have len: "length (sv_data ?v1) = sv_capacity ?v1" using ok1 by (simp add: sv_ok_def)
  show "sv_contents (sv_emplace_back x v) = sv_contents v @ [x]"
  proof -
    have "sv_contents (sv_emplace_back x v) = map the (take (Suc (sv_size ?v1)) ?d)"
      by (simp only: sv_contents_def data) (simp add: run)
    also have "\<dots> = sv_contents ?v1 @ [x]"
      using room len by (simp only: take_Suc_update sv_contents_def) simp
    finally show ?thesis using c1 by simp
  qed
  show "sv_ok N (sv_emplace_back x v)"
    using ok1 room len sv_set_data_inline_length [of ?d ?v1]
    unfolding sv_ok_def data by (auto simp: run nth_list_update less_Suc_eq sv_is_heap_def
        sv_set_data_def split: option.splits)
  show "sv_size (sv_emplace_back x v) = sv_size v + 1" by (simp add: run sz)
  show "sv_is_heap (sv_emplace_back x v) \<longleftrightarrow> sv_is_heap v \<or> sv_size v = sv_capacity v"
    using g by (auto simp: run sv_is_heap_def sv_set_data_def split: option.splits)
  show "sv_capacity (sv_emplace_back x v) =
      (if sv_size v = sv_capacity v then 2 * sv_capacity v else sv_capacity v)"
    using g by (simp add: run)
qed

section \<open>Clearing and moving\<close>

lemma destroy_cells_length [simp]: "length (destroy_cells i n p) = length p"
  by (induction i n p rule: destroy_cells.induct) (subst destroy_cells.simps, simp)

lemma destroy_cells_nth:
  "j < length p \<Longrightarrow> destroy_cells i n p ! j = (if i \<le> j \<and> j < n then None else p ! j)"
proof (induction i n p rule: destroy_cells.induct)
  case (1 i n p)
  show ?case
  proof (cases "i < n")
    case True
    with 1 show ?thesis by (subst destroy_cells.simps) (auto simp: nth_list_update)
  qed (subst destroy_cells.simps, auto)
qed

text \<open>
  \<open>clear\<close> keeps the storage and its capacity and leaves no element; when the elements have
  destructors, no cell below the old size holds a live object afterwards.
\<close>

lemma sv_clear_ok:
  "sv_ok N v \<Longrightarrow> sv_ok N (sv_clear trivial v) \<and> sv_contents (sv_clear trivial v) = [] \<and>
     sv_capacity (sv_clear trivial v) = sv_capacity v \<and> sv_is_heap (sv_clear trivial v) = sv_is_heap v"
  by (cases "sv_heap v")
    (simp_all add: sv_clear_def sv_destroy_elements_def sv_ok_def sv_contents_def sv_data_def
      sv_is_heap_def sv_set_data_def)

lemma sv_clear_destroys:
  "sv_ok N v \<Longrightarrow> i < sv_size v \<Longrightarrow> sv_data (sv_clear False v) ! i = None"
  by (cases "sv_heap v")
    (auto simp: sv_clear_def sv_destroy_elements_def sv_ok_def sv_data_def sv_set_data_def
      destroy_cells_nth)

lemma sv_move_ok:
  assumes ok: "sv_ok N v" and mv: "sv_move N v = (new, old)"
  shows "sv_ok N new \<and> sv_contents new = sv_contents v \<and> sv_capacity new = sv_capacity v \<and>
         sv_is_heap new = sv_is_heap v \<and> sv_ok N old \<and> sv_contents old = []"
proof (cases "sv_is_heap v")
  case True
  with ok mv show ?thesis
    by (auto simp: sv_move_def sv_ok_def sv_contents_def sv_data_def sv_is_heap_def
        split: option.splits)
next
  case False
  obtain src dst where m:
    "move_elems 0 (sv_size v) (sv_inline v, replicate N None) = (src, dst)"
    by (metis surj_pair)
  have data: "sv_data v = sv_inline v" and cap: "sv_capacity v = N"
    using False sv_ok_inline_capacity [OF ok] by (auto simp: sv_is_heap_def sv_data_def)
  have len: "length src = N" "length dst = N"
    using move_elems_lengths [OF m] ok by (auto simp: sv_ok_def)
  have fits: "sv_size v \<le> N" "length (sv_inline v) = N"
    using ok cap by (auto simp: sv_ok_def)
  have tk: "take (sv_size v) dst = take (sv_size v) (sv_inline v)"
    using move_elems_take [OF m] fits by simp
  then have nth: "dst ! i = sv_inline v ! i" if "i < sv_size v" for i
    using that by (metis nth_take)
  from mv False m have new: "new = \<lparr>sv_size = sv_size v, sv_capacity = sv_capacity v,
      sv_heap = None, sv_inline = dst\<rparr>"
    and old: "old = v\<lparr>sv_inline := src, sv_size := 0, sv_capacity := N\<rparr>"
    by (auto simp: sv_move_def)
  have hp: "sv_heap v = None" using False by (simp add: sv_is_heap_def)
  show ?thesis
    using ok len tk nth cap fits hp data unfolding new old
    by (auto simp: sv_ok_def sv_contents_def sv_data_def sv_is_heap_def)
qed

section \<open>The interface a client appends through\<close>

text \<open>
  What the matching engine relies on when it calls \<open>emplace_back\<close>: the elements come out
  in the order they went in. \<open>spill_buffer\<close> adds what the latency claims rely on: when
  the buffer leaves its inline storage and how its capacity grows.
\<close>

locale append_buffer =
  fixes invar :: "'v \<Rightarrow> bool"
    and contents :: "'v \<Rightarrow> 'a list"
    and append1 :: "'a \<Rightarrow> 'v \<Rightarrow> 'v"
    and fresh :: 'v
  assumes fresh_invar: "invar fresh"
    and fresh_contents: "contents fresh = []"
    and append_invar: "invar v \<Longrightarrow> invar (append1 x v)"
    and append_contents: "invar v \<Longrightarrow> contents (append1 x v) = contents v @ [x]"
begin

lemma append_all:
  "invar v \<Longrightarrow> invar (fold append1 xs v) \<and> contents (fold append1 xs v) = contents v @ xs"
  by (induction xs arbitrary: v) (simp_all add: append_invar append_contents)

lemma append_all_fresh:
  "invar (fold append1 xs fresh) \<and> contents (fold append1 xs fresh) = xs"
  using append_all [OF fresh_invar] by (simp add: fresh_contents)

end

locale spill_buffer = append_buffer invar contents append1 fresh
  for invar :: "'v \<Rightarrow> bool" and contents :: "'v \<Rightarrow> 'a list"
    and append1 :: "'a \<Rightarrow> 'v \<Rightarrow> 'v" and fresh :: 'v +
  fixes spilled :: "'v \<Rightarrow> bool" and cap :: "'v \<Rightarrow> nat" and limit :: nat
  assumes fresh_spilled: "\<not> spilled fresh"
    and fresh_cap: "cap fresh = limit"
    and room: "invar v \<Longrightarrow> length (contents v) \<le> cap v"
    and append_spilled:
      "invar v \<Longrightarrow> spilled (append1 x v) \<longleftrightarrow> spilled v \<or> length (contents v) = cap v"
    and append_cap: "invar v \<Longrightarrow>
      cap (append1 x v) = (if length (contents v) = cap v then 2 * cap v else cap v)"
begin

lemma spilled_iff: "spilled (fold append1 xs fresh) \<longleftrightarrow> limit < length xs"
  and unspilled_cap: "length xs \<le> limit \<Longrightarrow> cap (fold append1 xs fresh) = limit"
proof (induction xs rule: rev_induct)
  case Nil
  { case 1 show ?case by (simp add: fresh_spilled) }
  { case 2 show ?case by (simp add: fresh_cap) }
next
  case (snoc x xs)
  note inv = append_all_fresh [of xs]
  { case 1
    show ?case
      using snoc.IH append_spilled [of "fold append1 xs fresh" x] inv
      by (cases "length xs \<le> limit") auto }
  { case 2
    then show ?case
      using snoc.IH append_cap [of "fold append1 xs fresh" x] inv by auto }
qed

text \<open>
  The same as a step invariant, for a client that appends inside its own loops.
\<close>

lemma tight_append:
  assumes "invar v" and "\<not> spilled v \<longrightarrow> cap v = limit"
    and "spilled v \<longleftrightarrow> limit < length (contents v)"
  shows "invar (append1 x v)" and "contents (append1 x v) = contents v @ [x]"
    and "\<not> spilled (append1 x v) \<longrightarrow> cap (append1 x v) = limit"
    and "spilled (append1 x v) \<longleftrightarrow> limit < length (contents (append1 x v))"
  using assms append_spilled [of v x] append_cap [of v x] room [of v]
  by (auto simp: append_invar append_contents)

lemma cap_doubles:
  "\<exists>k. cap (fold append1 xs fresh) = limit * 2 ^ k \<and> (k = 0 \<or> limit * 2 ^ (k - 1) < length xs)"
proof (induction xs rule: rev_induct)
  case Nil
  show ?case by (rule exI [of _ 0]) (simp add: fresh_cap)
next
  case (snoc x xs)
  note inv = append_all_fresh [of xs]
  from snoc.IH obtain k where
    k: "cap (fold append1 xs fresh) = limit * 2 ^ k" "k = 0 \<or> limit * 2 ^ (k - 1) < length xs"
    by blast
  show ?case
  proof (cases "length xs = cap (fold append1 xs fresh)")
    case True
    with k inv append_cap [of "fold append1 xs fresh" x] show ?thesis
      by (intro exI [of _ "Suc k"]) auto
  next
    case False
    with k inv append_cap [of "fold append1 xs fresh" x] show ?thesis
      by (intro exI [of _ k]) auto
  qed
qed

end

text \<open>\<open>SmallVector<T, N>\<close> provides both contracts; 16 is the engine's inline capacity.\<close>

interpretation trade_buffer:
  spill_buffer "sv_ok 16" sv_contents sv_emplace_back "sv_new 16" sv_is_heap sv_capacity 16
proof unfold_locales
  show "sv_ok 16 (sv_new 16)" by (rule sv_new_ok) simp
  show "length (sv_contents v) \<le> sv_capacity v" if "sv_ok 16 v" for v :: "'a small_vector"
    using that by (simp add: sv_ok_def sv_contents_def)
qed (simp_all add: sv_emplace_back_ok sv_new_def sv_is_heap_def[of "\<lparr>sv_size = _, sv_capacity = _,
      sv_heap = None, sv_inline = _\<rparr>"] sv_contents_def[of "\<lparr>sv_size = 0, sv_capacity = _,
      sv_heap = None, sv_inline = _\<rparr>"])

section \<open>Properties\<close>

text \<open>
  The trade buffer keeps the zero-allocation promise exactly: after any sequence of
  appends to a fresh \<open>SmallVector<T, 16>\<close> the elements are the appended ones in order, and
  the vector has moved to the heap if and only if more than 16 were appended.
\<close>

lemma small_vector_inline_until_16:
  "sv_contents (fold sv_emplace_back xs (sv_new 16)) = xs \<and>
   (sv_is_heap (fold sv_emplace_back xs (sv_new 16)) \<longleftrightarrow> 16 < length xs)"
  using trade_buffer.append_all_fresh [of xs] trade_buffer.spilled_iff [of xs] by simp

text \<open>
  Growth is by doubling and never more than one doubling ahead of need: the capacity
  after any appends is \<open>16 * 2^k\<close>, and if it doubled at all, half of it was too small.
\<close>

lemma small_vector_capacity_doubles:
  "\<exists>k. sv_capacity (fold sv_emplace_back xs (sv_new 16)) = 16 * 2 ^ k \<and>
       (k = 0 \<or> 16 * 2 ^ (k - 1) < length xs)"
  by (rule trade_buffer.cap_doubles)

text \<open>
  The move constructor hands over every element and the storage mode, leaves the
  source empty and usable, and both vectors satisfy the representation invariant, so the
  heap buffer has exactly one owner.
\<close>

lemma small_vector_move:
  assumes "sv_ok N v"
  shows "sv_contents (fst (sv_move N v)) = sv_contents v \<and>
         sv_is_heap (fst (sv_move N v)) = sv_is_heap v \<and>
         sv_ok N (fst (sv_move N v)) \<and> sv_ok N (snd (sv_move N v)) \<and>
         sv_contents (snd (sv_move N v)) = [] \<and> \<not> sv_is_heap (snd (sv_move N v))"
proof -
  obtain new old where mv: "sv_move N v = (new, old)" by (metis surj_pair)
  have "\<not> sv_is_heap old"
    using mv by (cases "sv_heap v") (auto simp: sv_move_def sv_is_heap_def Let_def split: prod.splits)
  with sv_move_ok [OF assms mv] mv show ?thesis by simp
qed

theorem small_vector_move_witness:
  "sv_contents (fst (sv_move 2 (sv_emplace_back (7::nat) (sv_new 2)))) = [7]"
proof -
  have ok: "sv_ok 2 (sv_emplace_back (7::nat) (sv_new 2))"
    by (rule sv_emplace_back_ok(1) [OF sv_new_ok]) simp
  from small_vector_move [OF ok] show ?thesis
    using sv_emplace_back_ok(2) [OF sv_new_ok, of 2 "7::nat"] by simp
qed

section \<open>Ownership of the heap buffer\<close>

fun append_calls :: "'a list \<Rightarrow> 'a small_vector \<Rightarrow> heap_call list" where
  "append_calls [] v = []"
| "append_calls (x # xs) v = sv_emplace_calls v @ append_calls xs (sv_emplace_back x v)"

text \<open>The number of live blocks after some calls; \<open>None\<close> is a block deleted twice.\<close>

fun live_blocks :: "heap_call list \<Rightarrow> nat \<Rightarrow> nat option" where
  "live_blocks [] n = Some n"
| "live_blocks (Heap_New _ # cs) n = live_blocks cs (Suc n)"
| "live_blocks (Heap_Delete # cs) n = (if n = 0 then None else live_blocks cs (n - 1))"

lemma live_blocks_append:
  "live_blocks (cs @ ds) n = Option.bind (live_blocks cs n) (live_blocks ds)"
  by (induction cs n rule: live_blocks.induct) simp_all

lemma append_calls_live:
  "sv_ok N v \<Longrightarrow> live_blocks (append_calls xs v) (of_bool (sv_is_heap v)) =
     Some (of_bool (sv_is_heap (fold sv_emplace_back xs v)))"
proof (induction xs arbitrary: v)
  case (Cons x xs)
  note e = sv_emplace_back_ok [OF Cons.prems, of x]
  have "live_blocks (sv_emplace_calls v) (of_bool (sv_is_heap v)) =
      Some (of_bool (sv_is_heap (sv_emplace_back x v)))"
    by (simp add: e(4) sv_emplace_calls_def sv_grow_calls_def)
  with Cons.IH [OF e(1)] show ?case by (simp add: live_blocks_append)
qed simp

text \<open>
  The vector neither leaks nor frees twice: after any appends, also when it is moved into another
  vector first, the destructors have deleted every block exactly once.
\<close>

lemma sv_new_fresh: "sv_is_heap (sv_new N) \<longleftrightarrow> False"
  by (simp add: sv_new_def sv_is_heap_def)

lemma append_calls_fresh:
  "live_blocks (append_calls xs (sv_new 16)) 0 =
     Some (of_bool (sv_is_heap (fold sv_emplace_back xs (sv_new 16))))"
  using append_calls_live [OF sv_new_ok, of 16 xs] by (simp add: sv_new_fresh)

lemma small_vector_frees_once:
  "live_blocks (append_calls xs (sv_new 16) @ sv_destroy (fold sv_emplace_back xs (sv_new 16))) 0 = Some 0"
  by (simp add: live_blocks_append append_calls_fresh sv_destroy_def)

lemma small_vector_move_frees_once:
  assumes "sv_move 16 (fold sv_emplace_back xs (sv_new 16)) = (new, old)"
  shows "live_blocks (append_calls xs (sv_new 16) @ sv_destroy old @ sv_destroy new) 0 = Some 0"
  using small_vector_move [OF conjunct1 [OF trade_buffer.append_all_fresh [of xs]]] assms
  by (simp add: live_blocks_append append_calls_fresh sv_destroy_def)

end
