(* ===== verification/Matching_Engine.thy ===== *)
theory Matching_Engine
  imports Match_Spec Small_Vector
begin

text \<open>
  \<^verbatim>\<open>src/engine/matching_engine.cpp\<close>: the two nested matching loops and
  \<open>process_limit_order\<close>, on the node heap, the price maps and the trade buffer. The loops
  are \<open>partial_function (option)\<close>: \<open>None\<close> is a loop that does not return or a null
  dereference. \<open>process_limit_order_refines\<close> shows that on every book that represents
  queues of orders the call returns, keeps the book representing queues, and computes
  exactly what \<open>spec_submit\<close> does.

  The source writes the buy and the sell loop separately with the sides exchanged and the
  price test reversed; \<open>match_against s\<close> is that text with \<open>s\<close> the side matched against,
  and the level pointer \<open>best_ask\<close> (\<open>best_bid\<close>) is the level's value, stored back into the
  map node it came from before \<open>check_remove_level\<close>.
\<close>

section \<open>The inner loop\<close>

record match_st =
  ms_mem :: mem
  ms_level :: PriceLevel
  ms_trades :: "Trade small_vector"

text \<open>One iteration: the body of the inner \<open>while\<close>, with the next order to visit.\<close>

definition match_step :: "addr \<Rightarrow> addr \<Rightarrow> match_st \<Rightarrow> addr option \<times> match_st" where
  "match_step incoming resting st =
     (let m = ms_mem st;
          level = ms_level st;
          trade_qty = min (on_qty (m incoming)) (on_qty (m resting));
          trades = sv_emplace_back
            (Trade_of (on_id (m resting)) (on_id (m incoming)) (lvl_price level) trade_qty)
            (ms_trades st);
          m1 = set_qty incoming (on_qty (m incoming) - trade_qty) m;
          m2 = set_qty resting (on_qty (m1 resting) - trade_qty) m1;
          level1 = level\<lparr>total_volume := total_volume level - trade_qty\<rparr>;
          next_order = on_next (m2 resting);
          (os, m3) = (if on_qty (m2 resting) = 0
                      then il_remove resting (lvl_orders level1, m2)
                      else (lvl_orders level1, m2))
      in (next_order,
          \<lparr>ms_mem = m3, ms_level = level1\<lparr>lvl_orders := os\<rparr>, ms_trades = trades\<rparr>))"

partial_function (option) match_level ::
  "addr \<Rightarrow> addr option \<Rightarrow> match_st \<Rightarrow> match_st option" where
  "match_level incoming resting st =
     (case resting of
        None \<Rightarrow> Some st
      | Some r \<Rightarrow>
          if on_qty (ms_mem st incoming) > 0
          then (case match_step incoming r st of (nxt, st') \<Rightarrow> match_level incoming nxt st')
          else Some st)"

section \<open>The outer loop and the entry points\<close>

partial_function (option) match_against ::
  "Side \<Rightarrow> addr \<Rightarrow> OrderBook \<Rightarrow> mem \<Rightarrow> Trade small_vector \<Rightarrow>
     (OrderBook \<times> mem \<times> Trade small_vector) option" where
  "match_against s incoming b m trades =
     (if on_qty (m incoming) > 0
      then (case best_level s b of
              None \<Rightarrow> Some (b, m, trades)
            | Some best \<Rightarrow>
                if side_cmp s (on_price (m incoming)) (lvl_price best)
                then Some (b, m, trades)
                else
                  (case match_level incoming (il_head (lvl_orders best))
                          \<lparr>ms_mem = m, ms_level = best, ms_trades = trades\<rparr> of
                     None \<Rightarrow> None
                   | Some st \<Rightarrow>
                       match_against s incoming
                         (check_remove_level (ms_level st) s
                           (set_book_side s
                             (map_store (lvl_price best) (ms_level st) (book_side s b)) b))
                         (ms_mem st) (ms_trades st)))
      else Some (b, m, trades))"

declare match_level.simps [code] match_against.simps [code]

definition match_buy_order ::
  "addr \<Rightarrow> OrderBook \<Rightarrow> mem \<Rightarrow> Trade small_vector \<Rightarrow>
     (OrderBook \<times> mem \<times> Trade small_vector) option" where
  "match_buy_order = match_against Sell"

definition match_sell_order ::
  "addr \<Rightarrow> OrderBook \<Rightarrow> mem \<Rightarrow> Trade small_vector \<Rightarrow>
     (OrderBook \<times> mem \<times> Trade small_vector) option" where
  "match_sell_order = match_against Buy"

definition process_limit_order ::
  "addr \<Rightarrow> OrderBook \<times> mem \<Rightarrow> (Trade small_vector \<times> OrderBook \<times> mem) option" where
  "process_limit_order incoming = (\<lambda>(b, m).
     (let trades = sv_new 16;
          matched = (if on_side (m incoming) = Buy
                     then match_buy_order incoming b m trades
                     else match_sell_order incoming b m trades)
      in (case matched of
            None \<Rightarrow> None
          | Some (b1, m1, trades1) \<Rightarrow>
              if on_qty (m1 incoming) > 0
              then (case insert_order incoming (b1, m1) of
                      None \<Rightarrow> None
                    | Some (b2, m2) \<Rightarrow> Some (trades1, b2, m2))
              else Some (trades1, b1, m1))))"

definition engine_cancel_order :: "addr \<Rightarrow> OrderBook \<times> mem \<Rightarrow> OrderBook \<times> mem" where
  "engine_cancel_order node = cancel_order node"

section \<open>The inner loop implements filling at one price\<close>

text \<open>
  What the loops keep of the trade buffer: its representation invariant, and that it is on
  the heap exactly when it holds more than its 16 inline trades.
\<close>

definition trades_ok :: "Trade small_vector \<Rightarrow> bool" where
  "trades_ok v \<longleftrightarrow> sv_ok 16 v \<and> (\<not> sv_is_heap v \<longrightarrow> sv_capacity v = 16) \<and>
     (sv_is_heap v \<longleftrightarrow> 16 < length (sv_contents v))"

lemma trades_ok_new: "trades_ok (sv_new 16)"
  by (simp add: trades_ok_def trade_buffer.fresh_invar trade_buffer.fresh_spilled
      trade_buffer.fresh_cap)

lemma trades_ok_emplace_back:
  "trades_ok v \<Longrightarrow> trades_ok (sv_emplace_back x v)"
  "trades_ok v \<Longrightarrow> sv_contents (sv_emplace_back x v) = sv_contents v @ [x]"
  using trade_buffer.tight_append [of v x] by (simp_all add: trades_ok_def)

definition same_static :: "mem \<Rightarrow> mem \<Rightarrow> bool" where
  "same_static m m' \<longleftrightarrow> (\<forall>a. on_id (m' a) = on_id (m a) \<and> on_price (m' a) = on_price (m a) \<and>
     on_side (m' a) = on_side (m a))"

lemma same_static_refl [simp]: "same_static m m"
  by (simp add: same_static_def)

lemma same_static_trans: "same_static m m' \<Longrightarrow> same_static m' m'' \<Longrightarrow> same_static m m''"
  by (simp add: same_static_def)

lemma same_data_static: "same_data m m' \<Longrightarrow> same_static m m'"
  by (simp add: same_data_def same_static_def)

lemma match_level_idle [simp]:
  "on_qty (ms_mem st incoming) = 0 \<Longrightarrow> match_level incoming resting st = Some st"
  by (subst match_level.simps) (auto split: option.splits)

text \<open>What the loop sees of a level: its list, and a volume that adds up.\<close>

definition level_holds :: "mem \<Rightarrow> PriceLevel \<Rightarrow> addr list \<Rightarrow> bool" where
  "level_holds m lvl xs \<longleftrightarrow> il_holds m (lvl_orders lvl) xs \<and>
     total_volume lvl = sum_list (map (\<lambda>a. on_qty (m a)) xs)"

lemma level_holds_cong:
  "(\<And>a. a \<in> set xs \<Longrightarrow> m' a = m a) \<Longrightarrow> level_holds m' lvl xs = level_holds m lvl xs"
  unfolding level_holds_def
  by (subst il_holds_cong [of xs m' m]) (auto cong: map_cong)

text \<open>An iteration that exhausts the resting order unlinks it and moves to the next one.\<close>

lemma match_step_exhaust:
  assumes lvl: "level_holds m lvl (a # as)" and inc: "i \<notin> set (a # as)"
    and le: "on_qty (m a) \<le> on_qty (m i)"
  obtains m' lvl' where
    "match_step i a \<lparr>ms_mem = m, ms_level = lvl, ms_trades = ts\<rparr> =
       (il_head (lvl_orders lvl'),
        \<lparr>ms_mem = m', ms_level = lvl', ms_trades =
           sv_emplace_back (Trade_of (on_id (m a)) (on_id (m i)) (lvl_price lvl) (on_qty (m a))) ts\<rparr>)"
    and "level_holds m' lvl' as" and "lvl_price lvl' = lvl_price lvl"
    and "same_static m m'" and "same_off (insert i (set (a # as))) m m'"
    and "on_qty (m' i) = on_qty (m i) - on_qty (m a)"
    and "\<And>c. c \<noteq> i \<Longrightarrow> c \<noteq> a \<Longrightarrow> on_qty (m' c) = on_qty (m c)"
proof -
  let ?r = "on_qty (m a)"
  let ?m2 = "set_qty a 0 (set_qty i (on_qty (m i) - ?r) m)"
  have ai: "a \<noteq> i" using inc by auto
  have holds: "il_holds m (lvl_orders lvl) ([] @ a # as)"
    and vol: "total_volume lvl = ?r + sum_list (map (\<lambda>a. on_qty (m a)) as)"
    using lvl by (simp_all add: level_holds_def)
  have holds2: "il_holds ?m2 (lvl_orders lvl) ([] @ a # as)"
    using holds il_holds_cong [of "[] @ a # as" ?m2 m] by simp
  obtain os m' where un: "il_remove a (lvl_orders lvl, ?m2) = (os, m')"
    and holds': "il_holds m' os as" and data: "same_data ?m2 m'"
    and off: "same_off (set (a # as)) ?m2 m'"
    by (rule il_remove_holds [OF holds2]) auto
  let ?lvl = "lvl\<lparr>total_volume := total_volume lvl - ?r, lvl_orders := os\<rparr>"
  have "on_next (m a) = il_head os"
    using holds holds' by (cases as) (auto simp: il_holds_def)
  then have step: "match_step i a \<lparr>ms_mem = m, ms_level = lvl, ms_trades = ts\<rparr> =
       (il_head (lvl_orders ?lvl),
        \<lparr>ms_mem = m', ms_level = ?lvl, ms_trades =
           sv_emplace_back (Trade_of (on_id (m a)) (on_id (m i)) (lvl_price lvl) ?r) ts\<rparr>)"
    using le un ai by (simp add: match_step_def Let_def min_absorb2)
  have qty: "on_qty (m' c) = (if c = a then 0 else if c = i then on_qty (m i) - ?r else on_qty (m c))"
    for c using data by (simp add: same_data_def)
  have dist: "a \<notin> set as" using holds by (simp add: il_holds_def)
  have "sum_list (map (\<lambda>c. on_qty (m' c)) as) = sum_list (map (\<lambda>c. on_qty (m c)) as)"
    using dist inc by (intro sum_list_map_cong) (auto simp: qty)
  then have "level_holds m' ?lvl as"
    using holds' vol by (simp add: level_holds_def)
  moreover have "same_static m m'" using data by (simp add: same_data_def same_static_def)
  moreover have "same_off (insert i (set (a # as))) m m'"
    using off by (auto simp: same_off_def set_qty_def)
  ultimately show thesis using ai by (intro that [OF step]) (simp_all add: qty)
qed

text \<open>An iteration that only reduces the resting order spends the incoming quantity.\<close>

lemma match_step_partial:
  assumes lvl: "level_holds m lvl (a # as)" and inc: "i \<notin> set (a # as)"
    and less: "on_qty (m i) < on_qty (m a)"
  obtains nxt m' lvl' where
    "match_step i a \<lparr>ms_mem = m, ms_level = lvl, ms_trades = ts\<rparr> =
       (nxt, \<lparr>ms_mem = m', ms_level = lvl', ms_trades =
           sv_emplace_back (Trade_of (on_id (m a)) (on_id (m i)) (lvl_price lvl) (on_qty (m i))) ts\<rparr>)"
    and "level_holds m' lvl' (a # as)" and "lvl_price lvl' = lvl_price lvl"
    and "m' = set_qty a (on_qty (m a) - on_qty (m i)) (set_qty i 0 m)"
proof -
  let ?q = "on_qty (m i)"
  let ?m' = "set_qty a (on_qty (m a) - ?q) (set_qty i 0 m)"
  let ?lvl = "lvl\<lparr>total_volume := total_volume lvl - ?q\<rparr>"
  have ai: "a \<noteq> i" using inc by auto
  from less have nz: "on_qty (m a) - ?q \<noteq> 0" by simp
  have "min ?q (on_qty (m a)) = ?q" using less by (simp add: min_def less_imp_le)
  then have step: "match_step i a \<lparr>ms_mem = m, ms_level = lvl, ms_trades = ts\<rparr> =
      (on_next (m a), \<lparr>ms_mem = ?m', ms_level = ?lvl, ms_trades =
         sv_emplace_back (Trade_of (on_id (m a)) (on_id (m i)) (lvl_price lvl) ?q) ts\<rparr>)"
    using ai nz by (simp add: match_step_def Let_def)
  have holds: "il_holds m (lvl_orders lvl) (a # as)"
    and vol: "total_volume lvl = on_qty (m a) + sum_list (map (\<lambda>a. on_qty (m a)) as)"
    using lvl by (simp_all add: level_holds_def)
  have "il_holds ?m' (lvl_orders lvl) (a # as)"
    using holds il_holds_cong [of "a # as" ?m' m] by simp
  moreover have "sum_list (map (\<lambda>c. on_qty (?m' c)) as) = sum_list (map (\<lambda>c. on_qty (m c)) as)"
    using holds inc by (intro sum_list_map_cong) (auto simp: il_holds_def)
  ultimately have "level_holds ?m' ?lvl (a # as)"
    using vol ai by (simp add: level_holds_def)
  then show thesis by (intro that [OF step]) simp_all
qed

text \<open>
  The whole inner loop, started at the head of a level: it returns, and the trades it
  appends, the quantity it leaves and the orders it leaves are those of \<open>spec_fill\<close>.
\<close>

lemma match_level_refines:
  assumes "level_holds m lvl xs" and "i \<notin> set xs"
    and "\<forall>a \<in> set xs. on_price (m a) = lvl_price lvl" and "ok (lvl_price lvl)"
    and "trades_ok ts"
  shows "\<exists>m' lvl' ts' zs ys trs.
    match_level i (il_head (lvl_orders lvl)) \<lparr>ms_mem = m, ms_level = lvl, ms_trades = ts\<rparr> =
      Some \<lparr>ms_mem = m', ms_level = lvl', ms_trades = ts'\<rparr> \<and>
    xs = zs @ ys \<and> level_holds m' lvl' ys \<and> lvl_price lvl' = lvl_price lvl \<and>
    spec_fill ok (on_id (m i)) (on_qty (m i)) (map (view m) xs) =
      (trs, on_qty (m' i), map (view m') ys) \<and>
    trades_ok ts' \<and> sv_contents ts' = sv_contents ts @ trs \<and>
    same_static m m' \<and> same_off (insert i (set xs)) m m'"
  using assms
proof (induction xs arbitrary: m lvl ts)
  case Nil
  then have "il_head (lvl_orders lvl) = None" by (simp add: level_holds_def il_holds_def)
  then have "match_level i (il_head (lvl_orders lvl))
      \<lparr>ms_mem = m, ms_level = lvl, ms_trades = ts\<rparr> =
      Some \<lparr>ms_mem = m, ms_level = lvl, ms_trades = ts\<rparr>"
    by (simp add: match_level.simps)
  with Nil show ?case by (intro exI conjI) (assumption | simp)+
next
  case (Cons a as)
  let ?st = "\<lparr>ms_mem = m, ms_level = lvl, ms_trades = ts\<rparr>"
  have hd: "il_head (lvl_orders lvl) = Some a"
    using Cons.prems(1) by (simp add: level_holds_def il_holds_def)
  show ?case
  proof (cases "on_qty (m i) = 0")
    case True
    then have "match_level i (il_head (lvl_orders lvl)) ?st = Some ?st" by simp
    moreover have "a # as = [] @ a # as" by simp
    ultimately show ?thesis using Cons.prems(1,5) True
      by (intro exI conjI) (assumption | simp)+
  next
    case pos: False
    then have loop: "match_level i (il_head (lvl_orders lvl)) ?st =
        (case match_step i a ?st of (nxt, st') \<Rightarrow> match_level i nxt st')"
      by (subst match_level.simps) (simp add: hd word_gt_0_iff)
    have price: "on_price (m a) = lvl_price lvl" using Cons.prems(3) by simp
    show ?thesis
    proof (cases "on_qty (m a) \<le> on_qty (m i)")
      case True
      let ?tr = "Trade_of (on_id (m a)) (on_id (m i)) (lvl_price lvl) (on_qty (m a))"
      obtain m1 lvl1 where
        step: "match_step i a ?st = (il_head (lvl_orders lvl1),
          \<lparr>ms_mem = m1, ms_level = lvl1, ms_trades = sv_emplace_back ?tr ts\<rparr>)"
        and lvl1: "level_holds m1 lvl1 as" and p1: "lvl_price lvl1 = lvl_price lvl"
        and st1: "same_static m m1" and off1: "same_off (insert i (set (a # as))) m m1"
        and q1: "on_qty (m1 i) = on_qty (m i) - on_qty (m a)"
        and others: "\<And>c. c \<noteq> i \<Longrightarrow> c \<noteq> a \<Longrightarrow> on_qty (m1 c) = on_qty (m c)"
        by (rule match_step_exhaust [OF Cons.prems(1,2) True, of ts]) blast
      note sv = trades_ok_emplace_back [OF Cons.prems(5), of ?tr]
      have dist: "a \<notin> set as" "i \<notin> set as"
        using Cons.prems(1,2) by (auto simp: level_holds_def il_holds_def)
      have "\<forall>c \<in> set as. on_price (m1 c) = lvl_price lvl1"
        using Cons.prems(3) st1 p1 by (simp add: same_static_def)
      with Cons.IH [OF lvl1 dist(2) _ _ sv(1)] Cons.prems(4) p1
      obtain m' lvl' ts' zs ys trs where
        run: "match_level i (il_head (lvl_orders lvl1))
          \<lparr>ms_mem = m1, ms_level = lvl1, ms_trades = sv_emplace_back ?tr ts\<rparr> =
          Some \<lparr>ms_mem = m', ms_level = lvl', ms_trades = ts'\<rparr>"
        and ys: "as = zs @ ys" "level_holds m' lvl' ys" "lvl_price lvl' = lvl_price lvl1"
        and fill: "spec_fill ok (on_id (m1 i)) (on_qty (m1 i)) (map (view m1) as) =
          (trs, on_qty (m' i), map (view m') ys)"
        and sv': "trades_ok ts'" "sv_contents ts' = sv_contents (sv_emplace_back ?tr ts) @ trs"
        and st': "same_static m1 m'" and off': "same_off (insert i (set as)) m1 m'"
        by auto
      have "on_qty (m1 c) = on_qty (m c)" if "c \<in> set as" for c
        using others [of c] that dist by auto
      then have "map (view m1) as = map (view m) as"
        using st1 by (simp add: view_def same_static_def)
      with fill have "spec_fill ok (on_id (m i)) (on_qty (m i)) (map (view m) (a # as)) =
          (?tr # trs, on_qty (m' i), map (view m') ys)"
        using True pos Cons.prems(4) price q1 st1 by (simp add: same_static_def)
      moreover have "a # as = (a # zs) @ ys" using ys(1) by simp
      moreover have "same_static m m'" using st1 st' by (rule same_static_trans)
      moreover have "same_off (insert i (set (a # as))) m m'"
        using off1 off' by (auto simp: same_off_def)
      moreover have "sv_contents ts' = sv_contents ts @ ?tr # trs"
        using sv' sv(2) by simp
      ultimately show ?thesis
        using loop step run ys(2,3) p1 sv'(1) by (intro exI conjI) (assumption | simp)+
    next
      case False
      let ?tr = "Trade_of (on_id (m a)) (on_id (m i)) (lvl_price lvl) (on_qty (m i))"
      note sv = trades_ok_emplace_back [OF Cons.prems(5), of ?tr]
      obtain nxt m' lvl' where
        step: "match_step i a ?st =
          (nxt, \<lparr>ms_mem = m', ms_level = lvl', ms_trades = sv_emplace_back ?tr ts\<rparr>)"
        and lvl': "level_holds m' lvl' (a # as)" "lvl_price lvl' = lvl_price lvl"
        and m': "m' = set_qty a (on_qty (m a) - on_qty (m i)) (set_qty i 0 m)"
        using match_step_partial [OF Cons.prems(1,2), of ts] False by (metis not_le)
      have ai: "a \<noteq> i" using Cons.prems(2) by auto
      have "map (view m') as = map (view m) as"
        using Cons.prems(1,2) by (auto simp: m' view_def level_holds_def il_holds_def)
      then have "spec_fill ok (on_id (m i)) (on_qty (m i)) (map (view m) (a # as)) =
          ([?tr], on_qty (m' i), map (view m') (a # as))"
        using False pos Cons.prems(4) price ai by (simp add: m' view_def)
      moreover have "match_level i nxt \<lparr>ms_mem = m', ms_level = lvl',
          ms_trades = sv_emplace_back ?tr ts\<rparr> =
          Some \<lparr>ms_mem = m', ms_level = lvl', ms_trades = sv_emplace_back ?tr ts\<rparr>"
        using ai by (simp add: m')
      moreover have "a # as = [] @ a # as" by simp
      moreover have "same_static m m'" by (simp add: m' same_static_def)
      moreover have "same_off (insert i (set (a # as))) m m'"
        by (auto simp: m' same_off_def set_qty_def)
      ultimately show ?thesis
        using loop step lvl' sv(1,2) by (intro exI conjI) (assumption | simp)+
    qed
  qed
qed

section \<open>The outer loop implements filling across levels\<close>

definition side_queue :: "mem \<Rightarrow> OrderBook \<Rightarrow> queues \<Rightarrow> Side \<Rightarrow> resting list" where
  "side_queue m b N s = map (view m) (concat (map (N s) (keys_of (book_side s b))))"

lemma best_level_begin: "best_level s b = map_option snd (map_begin (book_side s b))"
  by (cases s) (simp_all add: get_best_bid_def get_best_ask_def)

lemma match_against_idle [simp]:
  "on_qty (m i) = 0 \<Longrightarrow> match_against s i b m ts = Some (b, m, ts)"
  by (simp add: match_against.simps)

lemma book_side_set_twice [simp]:
  "set_book_side s lm (set_book_side s lm2 b) = set_book_side s lm b"
  by (cases s) simp_all

text \<open>
  One round of the outer loop at an acceptable best level \<open>p\<close>: the level keeps a suffix of
  its queue, or is erased when that suffix is empty.
\<close>

lemma match_round:
  assumes rel: "book_rel m b N" and fresh: "\<not> live N i" and sv: "trades_ok ts"
    and lm: "book_side s b = (p, lvl) # lm'" and ok: "ok p"
  obtains m1 lvl1 ts1 ys trs where
    "match_level i (il_head (lvl_orders lvl)) \<lparr>ms_mem = m, ms_level = lvl, ms_trades = ts\<rparr> =
       Some \<lparr>ms_mem = m1, ms_level = lvl1, ms_trades = ts1\<rparr>"
    and "check_remove_level lvl1 s (set_book_side s ((p, lvl1) # lm') b) =
       set_book_side s (if ys = [] then lm' else (p, lvl1) # lm') b"
    and "book_rel m1 (set_book_side s (if ys = [] then lm' else (p, lvl1) # lm') b)
           (upd_queue s p ys N)"
    and "set ys \<subseteq> set (N s p)"
    and "spec_fill ok (on_id (m i)) (on_qty (m i)) (map (view m) (N s p)) =
           (trs, on_qty (m1 i), map (view m1) ys)"
    and "trades_ok ts1" and "sv_contents ts1 = sv_contents ts @ trs"
    and "same_static m m1" and "same_off (insert i (set (N s p))) m m1"
proof -
  let ?xs = "N s p"
  have side: "side_rel m s (book_side s b) (N s)" using rel by (simp add: book_rel_def)
  have lrel: "level_rel m s p lvl ?xs" using side_rel_level [OF side, of p] lm by simp
  have lp: "lvl_price lvl = p" and prices: "\<forall>a \<in> set ?xs. on_price (m a) = p \<and> on_side (m a) = s"
    and holds: "level_holds m lvl ?xs"
    using lrel by (auto simp: level_rel_def level_holds_def)
  have out: "i \<notin> set (N s' q)" for s' q using fresh by (auto simp: live_def)
  have prices': "\<forall>a \<in> set ?xs. on_price (m a) = lvl_price lvl" "ok (lvl_price lvl)"
    using prices lp ok by auto
  obtain m1 lvl1 ts1 zs ys trs where
    run: "match_level i (il_head (lvl_orders lvl)) \<lparr>ms_mem = m, ms_level = lvl, ms_trades = ts\<rparr> =
      Some \<lparr>ms_mem = m1, ms_level = lvl1, ms_trades = ts1\<rparr>"
    and ys: "?xs = zs @ ys" and lvl1: "level_holds m1 lvl1 ys" "lvl_price lvl1 = lvl_price lvl"
    and fill: "spec_fill ok (on_id (m i)) (on_qty (m i)) (map (view m) ?xs) =
      (trs, on_qty (m1 i), map (view m1) ys)"
    and sv1: "trades_ok ts1" "sv_contents ts1 = sv_contents ts @ trs"
    and st: "same_static m m1" and off: "same_off (insert i (set ?xs)) m m1"
    using match_level_refines [where ok = ok, OF holds out prices' sv] by blast
  let ?lm = "if ys = [] then lm' else (p, lvl1) # lm'"
  have empty: "il_empty (lvl_orders lvl1) \<longleftrightarrow> ys = []"
    using lvl1(1) il_empty_iff by (auto simp: level_holds_def)
  have remove: "check_remove_level lvl1 s (set_book_side s ((p, lvl1) # lm') b) =
      set_book_side s ?lm b"
    using empty lvl1(2) lp lm by (simp add: check_remove_level_def)
  have lrel1: "level_rel m1 s p lvl1 ys" if "ys \<noteq> []"
    using that lvl1 lp prices st ys by (auto simp: level_rel_def level_holds_def same_static_def)
  have srt: "sorted_wrt (side_cmp s) (p # keys_of lm')" using side lm by (simp add: side_rel_def)
  then have "p \<notin> set (keys_of lm')" using side_order.sorted_distinct [OF srt] by simp
  then have here: "slot_rel m1 s p (map_find p ?lm) ys"
    using lrel1 map_find_None_iff [of p lm'] by auto
  have elsewhere: "m1 c = m c" if "q \<noteq> p" "c \<in> set (N s q)" for q c
    using off side_rel_disjoint [OF side that] out [of s q] that by (auto simp: same_off_def)
  have "side_rel m1 s ?lm ((N s)(p := ys))"
    using srt lm here elsewhere by (intro side_rel_update_level [OF side]) auto
  then have "book_rel m1 (set_book_side s ?lm b) (upd_queue s p ys N)"
    by (rule book_rel_update_side [OF rel _ off]) (use fresh in auto)
  then show thesis
    using that [OF run remove _ _ fill sv1 st off] ys by auto
qed

lemma match_against_refines:
  assumes "book_rel m b N" and "\<not> live N i" and "trades_ok ts"
  shows "\<exists>m' b' ts' N' trs.
    match_against s i b m ts = Some (b', m', ts') \<and> book_rel m' b' N' \<and>
    (\<forall>s'. s' \<noteq> s \<longrightarrow> N' s' = N s' \<and> book_side s' b' = book_side s' b) \<and>
    (\<forall>p. set (N' s p) \<subseteq> set (N s p)) \<and>
    spec_fill (\<lambda>p. \<not> side_cmp s (on_price (m i)) p) (on_id (m i)) (on_qty (m i))
      (side_queue m b N s) = (trs, on_qty (m' i), side_queue m' b' N' s) \<and>
    trades_ok ts' \<and> sv_contents ts' = sv_contents ts @ trs \<and> same_static m m' \<and>
    same_off (insert i (\<Union>p. set (N s p))) m m'"
  using assms
proof (induction "book_side s b" arbitrary: b m ts N)
  case Nil
  then have "match_against s i b m ts = Some (b, m, ts)"
    by (simp add: match_against.simps best_level_begin)
  moreover have "side_queue m b N s = []" using Nil by (simp add: side_queue_def)
  ultimately show ?case using Nil by (intro exI conjI) (assumption | simp)+
next
  case (Cons e lm')
  obtain p lvl where e: "e = (p, lvl)" by (cases e)
  let ?ok = "\<lambda>p. \<not> side_cmp s (on_price (m i)) p"
  have lm: "book_side s b = (p, lvl) # lm'" using Cons.hyps(2) e by simp
  have side: "side_rel m s (book_side s b) (N s)" using Cons.prems(1) by (simp add: book_rel_def)
  have lrel: "level_rel m s p lvl (N s p)" using side_rel_level [OF side, of p] lm by simp
  have lp: "lvl_price lvl = p" using lrel unfolding level_rel_def by blast
  have queue: "side_queue m b N s =
      map (view m) (N s p) @ map (view m) (concat (map (N s) (keys_of lm')))"
    by (simp add: side_queue_def lm)
  show ?case
  proof (cases "on_qty (m i) = 0 \<or> \<not> ?ok p")
    case True
    then have "match_against s i b m ts = Some (b, m, ts)"
      by (auto simp: match_against.simps [of s i b m ts] best_level_begin lm lp)
    moreover have "spec_fill ?ok (on_id (m i)) (on_qty (m i)) (side_queue m b N s) =
        ([], on_qty (m i), side_queue m b N s)"
    proof -
      obtain a as where "N s p = a # as" using lrel by (cases "N s p") (auto simp: level_rel_def)
      moreover have "on_price (m a) = p"
        using side_rel_node [OF side, of a p] \<open>N s p = a # as\<close> by simp
      ultimately show ?thesis using True by (auto simp: queue)
    qed
    ultimately show ?thesis using Cons.prems by (intro exI conjI) (assumption | simp)+
  next
    case False
    then have ok: "?ok p" and pos: "on_qty (m i) \<noteq> 0" by auto
    obtain m1 lvl1 ts1 ys trs where
      inner: "match_level i (il_head (lvl_orders lvl))
        \<lparr>ms_mem = m, ms_level = lvl, ms_trades = ts\<rparr> =
        Some \<lparr>ms_mem = m1, ms_level = lvl1, ms_trades = ts1\<rparr>"
      and remove: "check_remove_level lvl1 s (set_book_side s ((p, lvl1) # lm') b) =
        set_book_side s (if ys = [] then lm' else (p, lvl1) # lm') b"
      and rel1: "book_rel m1 (set_book_side s (if ys = [] then lm' else (p, lvl1) # lm') b)
        (upd_queue s p ys N)"
      and sub: "set ys \<subseteq> set (N s p)"
      and fill: "spec_fill ?ok (on_id (m i)) (on_qty (m i)) (map (view m) (N s p)) =
        (trs, on_qty (m1 i), map (view m1) ys)"
      and sv1: "trades_ok ts1" "sv_contents ts1 = sv_contents ts @ trs"
      and st1: "same_static m m1" and off1: "same_off (insert i (set (N s p))) m m1"
      by (rule match_round [OF Cons.prems lm, of ?ok, OF ok]) blast
    let ?b1 = "set_book_side s (if ys = [] then lm' else (p, lvl1) # lm') b"
    have loop: "match_against s i b m ts = match_against s i ?b1 m1 ts1"
      using pos ok
      by (subst match_against.simps)
        (simp add: best_level_begin lm lp inner remove word_gt_0_iff)
    have out: "i \<notin> set (N s' q)" for s' q using Cons.prems(2) by (auto simp: live_def)
    have elsewhere: "m1 c = m c" if "q \<noteq> p" "c \<in> set (N s q)" for q c
      using off1 side_rel_disjoint [OF side that] out [of s q] that by (auto simp: same_off_def)
    have notp: "q \<noteq> p" if "q \<in> set (keys_of lm')" for q
      using side_rel_keys_distinct [OF side] lm that by auto
    have rest: "map (view m1) (concat (map (N s) (keys_of lm'))) =
        map (view m) (concat (map (N s) (keys_of lm')))"
      using elsewhere [OF notp] by (auto simp: view_def)
    have rest': "p \<notin> set (keys_of lm')" using notp by auto
    show ?thesis
    proof (cases "ys = []")
      case True
      have "lm' = book_side s ?b1" using True by simp
      moreover have "\<not> live (upd_queue s p ys N) i"
        using out by (auto simp: live_def True)
      moreover have q1: "side_queue m1 ?b1 (upd_queue s p ys N) s =
          map (view m) (concat (map (N s) (keys_of lm')))"
        using True rest rest' by (simp add: side_queue_def)
      ultimately obtain m' b' ts' N' trs' where
        run: "match_against s i ?b1 m1 ts1 = Some (b', m', ts')" and rel': "book_rel m' b' N'"
        and opp: "\<forall>s'. s' \<noteq> s \<longrightarrow> N' s' = upd_queue s p ys N s' \<and>
          book_side s' b' = book_side s' ?b1"
        and sub': "\<forall>q. set (N' s q) \<subseteq> set (upd_queue s p ys N s q)"
        and fill': "spec_fill (\<lambda>p. \<not> side_cmp s (on_price (m1 i)) p) (on_id (m1 i)) (on_qty (m1 i))
          (map (view m) (concat (map (N s) (keys_of lm')))) =
          (trs', on_qty (m' i), side_queue m' b' N' s)"
        and sv': "trades_ok ts'" "sv_contents ts' = sv_contents ts1 @ trs'"
        and st': "same_static m1 m'"
        and off': "same_off (insert i (\<Union>q. set (upd_queue s p ys N s q))) m1 m'"
        using Cons.hyps(1) [of ?b1 m1 "upd_queue s p ys N" ts1] rel1 sv1(1) by metis
      have "spec_fill ?ok (on_id (m i)) (on_qty (m i)) (side_queue m b N s) =
          (trs @ trs', on_qty (m' i), side_queue m' b' N' s)"
        using fill fill' st1 True by (simp add: queue spec_fill_append same_static_def)
      moreover have "\<forall>s'. s' \<noteq> s \<longrightarrow> N' s' = N s' \<and> book_side s' b' = book_side s' b"
        using opp by simp
      moreover have "\<forall>q. set (N' s q) \<subseteq> set (N s q)"
        using sub' sub by (auto split: if_splits)
      moreover have "same_static m m'" using st1 st' by (rule same_static_trans)
      moreover have "same_off (insert i (\<Union>q. set (N s q))) m m'"
        using off1 off' by (auto simp: same_off_def True split: if_splits)
      moreover have "sv_contents ts' = sv_contents ts @ trs @ trs'"
        using sv1(2) sv'(2) by simp
      ultimately show ?thesis
        using loop run rel' sv'(1) by (intro exI conjI) (assumption | simp)+
    next
      case False
      have done1: "on_qty (m1 i) = 0"
      proof (rule ccontr)
        assume "on_qty (m1 i) \<noteq> 0"
        moreover have "\<forall>r \<in> set (map (view m) (N s p)). ?ok (r_price r)"
          using ok side_rel_node [OF side, of _ p] by auto
        ultimately have "map (view m1) ys = []" using spec_fill_all_ok [OF fill] by blast
        with False show False by simp
      qed
      have q1: "side_queue m1 ?b1 (upd_queue s p ys N) s =
          map (view m1) ys @ map (view m) (concat (map (N s) (keys_of lm')))"
        using False rest rest' by (simp add: side_queue_def)
      have "match_against s i b m ts = Some (?b1, m1, ts1)"
        using loop done1 by simp
      moreover have "spec_fill ?ok (on_id (m i)) (on_qty (m i)) (side_queue m b N s) =
          (trs, on_qty (m1 i), side_queue m1 ?b1 (upd_queue s p ys N) s)"
        unfolding q1 using fill False by (simp add: queue spec_fill_append)
      moreover have "\<forall>q. set (upd_queue s p ys N s q) \<subseteq> set (N s q)" using sub by auto
      moreover have "same_off (insert i (\<Union>q. set (N s q))) m m1"
        using off1 by (auto simp: same_off_def)
      moreover have "\<forall>s'. s' \<noteq> s \<longrightarrow> upd_queue s p ys N s' = N s' \<and>
          book_side s' ?b1 = book_side s' b" by simp
      ultimately show ?thesis
        using rel1 sv1 st1 by (intro exI conjI) assumption+
    qed
  qed
qed

section \<open>Queueing the remainder\<close>

lemma spec_insert_split:
  assumes "\<forall>x \<in> set xs. \<not> side_cmp s (r_price r) (r_price x)"
    and "\<forall>x \<in> set ys. side_cmp s (r_price r) (r_price x)"
  shows "spec_insert s r (xs @ ys) = xs @ r # ys"
proof -
  have "takeWhile (\<lambda>x. \<not> side_cmp s (r_price r) (r_price x)) ys = []" and
    "dropWhile (\<lambda>x. \<not> side_cmp s (r_price r) (r_price x)) ys = ys"
    using assms(2) by (cases ys; simp)+
  with assms(1) show ?thesis
    by (simp add: spec_insert_def takeWhile_append dropWhile_append)
qed

lemma side_rel_keys:
  "side_rel m s lm Q \<Longrightarrow> set (keys_of lm) = {p. Q p \<noteq> []}"
  using side_rel_no_level map_find_None_iff by (metis (mono_tags, lifting) Collect_cong mem_Collect_eq subsetI subset_antisym)

lemma side_queue_insert:
  assumes rel: "book_rel m b N" and fresh: "\<not> live N a"
    and rel': "book_rel m' b' (upd_queue s p (N s p @ [a]) N)"
    and data: "same_data m m'" and p: "on_price (m a) = p"
  shows "side_queue m' b' (upd_queue s p (N s p @ [a]) N) s =
         spec_insert s (view m a) (side_queue m b N s)"
proof -
  let ?N = "upd_queue s p (N s p @ [a]) N"
  let ?ks = "keys_of (book_side s b)" and ?ks' = "keys_of (book_side s b')"
  have side: "side_rel m s (book_side s b) (N s)" and side': "side_rel m' s (book_side s b') (?N s)"
    using rel rel' unfolding book_rel_def by blast+
  have srt: "sorted_wrt (side_cmp s) ?ks" "sorted_wrt (side_cmp s) ?ks'"
    using side side' unfolding side_rel_def by blast+
  have keys: "set ?ks' = insert p (set ?ks)"
    unfolding side_rel_keys [OF side] side_rel_keys [OF side'] by auto
  obtain bf af where pos: "sorted_wrt (side_cmp s) (bf @ p # af)"
    "set (bf @ p # af) = insert p (set ?ks)"
    "?ks = bf @ p # af \<or> (p \<notin> set ?ks \<and> ?ks = bf @ af)"
    and order: "\<forall>x \<in> set bf. side_cmp s x p" "\<forall>x \<in> set af. side_cmp s p x"
    by (rule side_order.key_position [OF srt(1), of p]) blast
  have ks': "?ks' = bf @ p # af"
    using side_order.sorted_unique [OF srt(2) pos(1)] keys pos(2) by simp
  have off: "p \<notin> set bf" "p \<notin> set af" using order by auto
  let ?q = "\<lambda>ks. map (view m) (concat (map (N s) ks))"
  have view: "view m' = view m" using data by (auto simp: fun_eq_iff view_def same_data_def)
  have new: "side_queue m' b' ?N s = (?q bf @ map (view m) (N s p)) @ view m a # ?q af"
    using off by (simp add: side_queue_def ks' view)
  have "N s p = []" if "p \<notin> set ?ks" using that side_rel_keys [OF side] by auto
  with pos(3) have old: "side_queue m b N s = (?q bf @ map (view m) (N s p)) @ ?q af"
    by (auto simp: side_queue_def)
  have price: "r_price x = q" if "x \<in> set (map (view m) (N s q))" for x q
    using that side_rel_node [OF side] by auto
  have "\<forall>x \<in> set (?q bf @ map (view m) (N s p)). \<not> side_cmp s p (r_price x)"
    using order(1) price side_order.asymmetric by fastforce
  moreover have "\<forall>x \<in> set (?q af). side_cmp s p (r_price x)"
    using order(2) price by fastforce
  ultimately show ?thesis
    unfolding new old by (subst spec_insert_split) (simp_all add: p)
qed

section \<open>The refinement\<close>

lemma side_queue_cong:
  assumes "\<forall>p. \<forall>a \<in> set (N s p). m' a = m a" and "book_side s b' = book_side s b"
    and "N' s = N s"
  shows "side_queue m' b' N' s = side_queue m b N s"
  using assms by (auto simp: side_queue_def view_def)

lemma match_dispatch:
  "(if on_side (m i) = Buy then match_buy_order i b m ts else match_sell_order i b m ts) =
     match_against (opposite (on_side (m i))) i b m ts"
  by (cases "on_side (m i)") (simp_all add: match_buy_order_def match_sell_order_def)

lemma acceptable_fun: "(\<lambda>p. \<not> side_cmp (opposite s) l p) = acceptable s l"
  by (simp add: acceptable_def fun_eq_iff)

lemma process_limit_order_spec:
  assumes rel: "book_rel m b N" and fresh: "\<not> live N i" and s: "on_side (m i) = s"
  obtains ts b' m' N' where
    "process_limit_order i (b, m) = Some (ts, b', m')"
    and "book_rel m' b' N'"
    and "spec_submit s (view m i) (side_queue m b N s) (side_queue m b N (opposite s)) =
      (sv_contents ts, side_queue m' b' N' s, side_queue m' b' N' (opposite s))"
    and "fst (snd (spec_fill (acceptable s (on_price (m i))) (on_id (m i)) (on_qty (m i))
      (side_queue m b N (opposite s)))) = on_qty (m' i)"
    and "\<And>a. live N' a \<Longrightarrow> live N a \<or> a = i"
    and "trades_ok ts" and "same_static m m'" and "same_off (insert i {a. live N a}) m m'"
proof -
  let ?o = "opposite s"
  have oppne: "s \<noteq> ?o" by (cases s) auto
  obtain m1 b1 ts N1 trs where
    run: "match_against ?o i b m (sv_new 16) = Some (b1, m1, ts)" and rel1: "book_rel m1 b1 N1"
    and own: "\<forall>s'. s' \<noteq> ?o \<longrightarrow> N1 s' = N s' \<and> book_side s' b1 = book_side s' b"
    and sub: "\<forall>p. set (N1 ?o p) \<subseteq> set (N ?o p)"
    and fill: "spec_fill (\<lambda>p. \<not> side_cmp ?o (on_price (m i)) p) (on_id (m i)) (on_qty (m i))
      (side_queue m b N ?o) = (trs, on_qty (m1 i), side_queue m1 b1 N1 ?o)"
    and sv: "trades_ok ts" "sv_contents ts = sv_contents (sv_new 16) @ trs"
    and st: "same_static m m1" and off: "same_off (insert i (\<Union>p. set (N ?o p))) m m1"
    using match_against_refines [OF rel fresh trades_ok_new, of ?o] by blast
  have out: "i \<notin> set (N s' p)" for s' p using fresh by (auto simp: live_def)
  have own_q: "N1 s = N s" "book_side s b1 = book_side s b" using own oppne by auto
  have same_own: "m1 a = m a" if "a \<in> set (N s p)" for a p
  proof -
    have "a \<noteq> i" using that out by auto
    moreover have "a \<notin> set (N ?o q)" for q
      using book_rel_node [OF rel that] book_rel_node [OF rel, of a ?o q] oppne by auto
    ultimately show ?thesis using off by (auto simp: same_off_def)
  qed
  have q_own: "side_queue m1 b1 N1 s = side_queue m b N s"
    using same_own own_q by (intro side_queue_cong) auto
  have live1: "live N a" if "live N1 a" for a
  proof -
    from that obtain s' p where a: "a \<in> set (N1 s' p)" by (auto simp: live_def)
    then have "a \<in> set (N s' p)" using own sub by (cases "s' = ?o") auto
    then show ?thesis by (auto simp: live_def)
  qed
  have fresh1: "\<not> live N1 i" using live1 fresh by blast
  have off1: "same_off (insert i {a. live N a}) m m1"
    using off by (auto simp: same_off_def live_def)
  have matched: "(if on_side (m i) = Buy then match_buy_order i b m (sv_new 16)
      else match_sell_order i b m (sv_new 16)) = Some (b1, m1, ts)"
    unfolding match_dispatch unfolding s by (rule run)
  have left1: "fst (snd (spec_fill (acceptable s (on_price (m i))) (on_id (m i)) (on_qty (m i))
      (side_queue m b N ?o))) = on_qty (m1 i)"
    using fill by (simp add: acceptable_fun)
  have fill': "spec_fill (acceptable s (r_price (view m i))) (r_id (view m i)) (r_qty (view m i))
      (side_queue m b N ?o) = (sv_contents ts, on_qty (m1 i), side_queue m1 b1 N1 ?o)"
    using fill sv(2) by (simp add: acceptable_fun)
  show thesis
  proof (cases "on_qty (m1 i) = 0")
    case True
    then have "process_limit_order i (b, m) = Some (ts, b1, m1)"
      unfolding process_limit_order_def Let_def prod.case matched by simp
    moreover have "spec_submit s (view m i) (side_queue m b N s) (side_queue m b N ?o) =
        (sv_contents ts, side_queue m1 b1 N1 s, side_queue m1 b1 N1 ?o)"
      unfolding spec_submit_def fill' using True q_own by simp
    ultimately show thesis using rel1 sv(1) live1 st off1 left1 by (intro that) auto
  next
    case False
    have st_i: "on_side (m1 i) = s" "on_price (m1 i) = on_price (m i)" "on_id (m1 i) = on_id (m i)"
      using st s by (simp_all add: same_static_def)
    let ?p = "on_price (m1 i)"
    let ?N = "upd_queue s ?p (N1 s ?p @ [i]) N1"
    obtain b' m' where ins: "insert_order i (b1, m1) = Some (b', m')"
      and rel': "book_rel m' b' ?N" and data: "same_data m1 m'"
      and off': "same_off (insert i (set (N1 s ?p))) m1 m'"
      by (rule insert_order_rel [OF rel1 fresh1 st_i(1)[symmetric] refl]) blast
    have run': "process_limit_order i (b, m) = Some (ts, b', m')"
      unfolding process_limit_order_def Let_def prod.case matched
      using False by (simp add: ins word_gt_0_iff)
    have v: "view m1 i = (view m i)\<lparr>r_qty := on_qty (m1 i)\<rparr>"
      using st_i by (simp add: view_def)
    have q_s: "side_queue m' b' ?N s =
        spec_insert s ((view m i)\<lparr>r_qty := on_qty (m1 i)\<rparr>) (side_queue m b N s)"
      using side_queue_insert [OF rel1 fresh1 rel' data refl] by (simp add: q_own v)
    have "insert_order i (b1, m1) = Some (b', m') \<Longrightarrow> book_side ?o b' = book_side ?o b1"
      using oppne st_i(1) by (auto simp: insert_order_def Let_def split: option.splits)
    then have bo: "book_side ?o b' = book_side ?o b1" using ins by blast
    have "m' a = m1 a" if "a \<in> set (N1 ?o q)" for a q
    proof -
      have "a \<noteq> i" using that fresh1 by (auto simp: live_def)
      moreover have "a \<notin> set (N1 s ?p)"
        using book_rel_node [OF rel1 that] book_rel_node [OF rel1, of a s ?p] oppne by auto
      ultimately show ?thesis using off' by (auto simp: same_off_def)
    qed
    then have q_o: "side_queue m' b' ?N ?o = side_queue m1 b1 N1 ?o"
      using bo oppne by (intro side_queue_cong) auto
    have "spec_submit s (view m i) (side_queue m b N s) (side_queue m b N ?o) =
        (sv_contents ts, side_queue m' b' ?N s, side_queue m' b' ?N ?o)"
      unfolding spec_submit_def fill' using False by (simp only: Let_def prod.case q_s q_o if_False)
    moreover have "live N a \<or> a = i" if "live ?N a" for a
      using that live1 [of a] by (auto simp: live_def split: if_splits)
    moreover have "same_static m m'"
      using st same_data_static [OF data] by (rule same_static_trans)
    moreover have "same_off (insert i {a. live N a}) m m'"
    proof -
      have "same_off (insert i {a. live N a}) m1 m'"
        using off' live1 by (auto simp: same_off_def live_def)
      with off1 show ?thesis by (rule same_off_trans)
    qed
    moreover have "on_qty (m' i) = on_qty (m1 i)" using data by (simp add: same_data_def)
    ultimately show thesis using run' rel' sv(1) left1 by (intro that) auto
  qed
qed

end
