(* ===== verification/Engine_System.thy ===== *)
theory Engine_System
  imports Matching_Engine
begin

text \<open>
  The matching engine as a system: a client submits fresh orders, cancels and reduces
  resting ones, in any order (\<open>engine_step\<close>, one rule per call of \<open>MatchingEngine\<close> and
  \<open>OrderBook\<close>). The invariant of the reachable states, that the book represents queues and
  is uncrossed, and the properties of a single \<open>process_limit_order\<close> call.
\<close>

section \<open>Steps and reachable states\<close>

definition resting_in :: "OrderBook \<times> mem \<Rightarrow> addr \<Rightarrow> bool" where
  "resting_in st a \<longleftrightarrow> (\<exists>N. book_rel (snd st) (fst st) N \<and> live N a)"

datatype engine_event =
    Submitted addr "Trade list"
  | Cancelled addr
  | Reduced addr Quantity

inductive engine_step ::
  "OrderBook \<times> mem \<Rightarrow> engine_event \<Rightarrow> OrderBook \<times> mem \<Rightarrow> bool" where
  submit: "\<lbrakk>\<not> resting_in (b, m) a;
     process_limit_order a (b, m(a := OrderNode_of i p q s)) = Some (ts, b', m')\<rbrakk> \<Longrightarrow>
     engine_step (b, m) (Submitted a (sv_contents ts)) (b', m')"
| cancel: "resting_in (b, m) a \<Longrightarrow>
     engine_step (b, m) (Cancelled a) (engine_cancel_order a (b, m))"
| reduce: "resting_in (b, m) a \<Longrightarrow>
     engine_step (b, m) (Reduced a q) (reduce_order a q (b, m))"

inductive_cases engine_step_submitE: "engine_step st (Submitted a ts) st'"
inductive_cases engine_step_cancelE: "engine_step st (Cancelled a) st'"
inductive_cases engine_step_reduceE: "engine_step st (Reduced a q) st'"

inductive engine_reach :: "OrderBook \<times> mem \<Rightarrow> bool" where
  start: "engine_reach (OrderBook_new, m)"
| step: "engine_reach st \<Longrightarrow> engine_step st e st' \<Longrightarrow> engine_reach st'"

section \<open>The invariant\<close>

definition uncrossed :: "queues \<Rightarrow> bool" where
  "uncrossed N \<longleftrightarrow> (\<forall>p q. N Buy p \<noteq> [] \<longrightarrow> N Sell q \<noteq> [] \<longrightarrow> p < q)"

definition engine_inv :: "OrderBook \<times> mem \<Rightarrow> bool" where
  "engine_inv st \<longleftrightarrow> (\<exists>N. book_rel (snd st) (fst st) N \<and> uncrossed N)"

lemma book_rel_unique:
  assumes "book_rel m b N" and "book_rel m b N'" shows "N = N'"
proof (intro ext)
  fix s p
  have side: "side_rel m s (book_side s b) (N s)" "side_rel m s (book_side s b) (N' s)"
    using assms by (simp_all add: book_rel_def)
  show "N s p = N' s p"
  proof (cases "map_find p (book_side s b)")
    case None
    then show ?thesis using side side_rel_no_level by metis
  next
    case (Some lvl)
    then have "level_rel m s p lvl (N s p)" "level_rel m s p lvl (N' s p)"
      using side side_rel_level by blast+
    then show ?thesis unfolding level_rel_def using il_holds_unique by blast
  qed
qed

lemma resting_in_live: "book_rel m b N \<Longrightarrow> resting_in (b, m) a \<longleftrightarrow> live N a"
  unfolding resting_in_def fst_conv snd_conv by (metis book_rel_unique)

lemma book_rel_write_fresh:
  assumes "book_rel m b N" and "\<not> live N a" shows "book_rel (m(a := x)) b N"
proof -
  have same: "(m(a := x)) c = m c" if "c \<in> set (N s p)" for s p c
    using assms(2) that by (auto simp: live_def)
  have "side_rel (m(a := x)) s (book_side s b) (N s)" for s
  proof (rule side_rel_frame)
    show "side_rel m s (book_side s b) (N s)" using assms(1) by (simp add: book_rel_def)
  qed (rule same)
  then show ?thesis by (simp add: book_rel_def)
qed

lemma side_queue_mem:
  assumes "book_rel m b N"
  shows "r \<in> set (side_queue m b N s) \<longleftrightarrow> (\<exists>p a. a \<in> set (N s p) \<and> r = view m a)"
proof -
  have "side_rel m s (book_side s b) (N s)" using assms by (simp add: book_rel_def)
  from side_rel_keys [OF this]
  have "a \<in> set (concat (map (N s) (keys_of (book_side s b)))) \<longleftrightarrow> (\<exists>p. a \<in> set (N s p))" for a
    by (cases "\<exists>p. a \<in> set (N s p)") (auto simp del: book_side.simps)
  then show ?thesis by (metis (no_types, lifting) image_iff list.set_map side_queue_def)
qed

lemma side_queue_price:
  assumes rel: "book_rel m b N"
  shows "(\<exists>r \<in> set (side_queue m b N s). r_price r = p) \<longleftrightarrow> N s p \<noteq> []"
proof
  assume "\<exists>r \<in> set (side_queue m b N s). r_price r = p"
  then obtain q a where "a \<in> set (N s q)" "on_price (m a) = p"
    using side_queue_mem [OF rel] by auto
  with book_rel_node [OF rel] show "N s p \<noteq> []" by fastforce
next
  assume "N s p \<noteq> []"
  then obtain a where a: "a \<in> set (N s p)" by (cases "N s p") auto
  then have "view m a \<in> set (side_queue m b N s)" using side_queue_mem [OF rel] by blast
  with book_rel_node [OF rel a] show "\<exists>r \<in> set (side_queue m b N s). r_price r = p"
    by (intro bexI [of _ "view m a"]) simp_all
qed

lemma prio_sorted_same_price: "(\<And>r. r \<in> set rs \<Longrightarrow> r_price r = p) \<Longrightarrow> prio_sorted s rs"
  by (induction rs) (auto simp: prio_sorted_def)

lemma side_queue_sorted:
  assumes rel: "book_rel m b N" shows "prio_sorted s (side_queue m b N s)"
proof -
  have side: "side_rel m s (book_side s b) (N s)" using rel by (simp add: book_rel_def)
  have price: "r_price r = p" if "r \<in> set (map (view m) (N s p))" for r p
    using that side_rel_node [OF side] by auto
  have "prio_sorted s (map (view m) (concat (map (N s) ks)))" if "sorted_wrt (side_cmp s) ks" for ks
    using that
  proof (induction ks)
    case (Cons k ks)
    have "prio_sorted s (map (view m) (N s k))"
      by (rule prio_sorted_same_price) (rule price)
    moreover have "\<not> side_cmp s (r_price y) (r_price x)"
      if "x \<in> set (map (view m) (N s k))" "y \<in> set (map (view m) (concat (map (N s) ks)))" for x y
    proof -
      from that(2) obtain q where q: "q \<in> set ks" "y \<in> set (map (view m) (N s q))" by auto
      have "side_cmp s k q" using Cons.prems q(1) by simp
      then show ?thesis using price [OF that(1)] price [OF q(2)] side_order.asymmetric by simp
    qed
    ultimately show ?case using Cons by (simp add: prio_sorted_def sorted_wrt_append)
  qed (simp add: prio_sorted_def)
  then show ?thesis using side by (simp add: side_queue_def side_rel_def)
qed

lemma uncrossed_queue:
  assumes rel: "book_rel m b N"
  shows "uncrossed N \<longleftrightarrow>
    spec_uncrossed s (side_queue m b N s) (side_queue m b N (opposite s))"
proof -
  have buy: "spec_uncrossed Buy (side_queue m b N Buy) (side_queue m b N Sell) \<longleftrightarrow> uncrossed N"
    using side_queue_price [OF rel, of Buy] side_queue_price [OF rel, of Sell]
    unfolding spec_uncrossed_def uncrossed_def acceptable_simps not_le by metis
  show ?thesis
    using buy spec_uncrossed_swap [of Buy "side_queue m b N Sell" "side_queue m b N Buy"]
    by (cases s) simp_all
qed

lemma uncrossed_mono:
  assumes "uncrossed N" and "\<And>s p. N s p = [] \<Longrightarrow> N' s p = []" shows "uncrossed N'"
  using assms unfolding uncrossed_def by metis

lemma submit_inv:
  assumes rel: "book_rel m b N" and unx: "uncrossed N" and fresh: "\<not> live N a"
    and run: "process_limit_order a (b, m) = Some (ts, b', m')"
  shows "engine_inv (b', m')"
proof -
  let ?s = "on_side (m a)"
  obtain ts2 b2 m2 N2 where run2: "process_limit_order a (b, m) = Some (ts2, b2, m2)"
    and rel2: "book_rel m2 b2 N2"
    and spec: "spec_submit ?s (view m a) (side_queue m b N ?s) (side_queue m b N (opposite ?s)) =
      (sv_contents ts2, side_queue m2 b2 N2 ?s, side_queue m2 b2 N2 (opposite ?s))"
    by (rule process_limit_order_spec [OF rel fresh refl]) blast
  have "spec_uncrossed ?s (side_queue m2 b2 N2 ?s) (side_queue m2 b2 N2 (opposite ?s))"
    using uncrossed_queue [OF rel, of ?s] unx
    by (intro spec_submit_uncrossed [OF side_queue_sorted [OF rel] _ spec]) blast
  then have "uncrossed N2" using uncrossed_queue [OF rel2] by blast
  with rel2 run run2 show ?thesis by (auto simp: engine_inv_def)
qed

lemma engine_step_inv: "engine_step st e st' \<Longrightarrow> engine_inv st \<Longrightarrow> engine_inv st'"
proof (induction rule: engine_step.induct)
  case (submit b m a i p q s ts b' m')
  then obtain N where N: "book_rel m b N" "uncrossed N" by (auto simp: engine_inv_def)
  with submit.hyps(1) have fresh: "\<not> live N a" by (simp add: resting_in_live)
  from submit_inv [OF book_rel_write_fresh [OF N(1) fresh] N(2) fresh submit.hyps(2)]
  show ?case .
next
  case (cancel b m a)
  then obtain N where N: "book_rel m b N" "uncrossed N" by (auto simp: engine_inv_def)
  with cancel.hyps have "live N a" by (simp add: resting_in_live)
  then obtain s p where here: "a \<in> set (N s p)" by (auto simp: live_def)
  from book.withdraw_rel [OF N(1) here] obtain b' m' where
    "cancel_order a (b, m) = (b', m')" and
    "book_rel m' b' (upd_queue s p (remove1 a (N s p)) N)" by blast
  moreover have "uncrossed (upd_queue s p (remove1 a (N s p)) N)"
    by (rule uncrossed_mono [OF N(2)]) auto
  ultimately show ?case by (auto simp: engine_cancel_order_def engine_inv_def)
next
  case (reduce b m a q)
  then obtain N where N: "book_rel m b N" "uncrossed N" by (auto simp: engine_inv_def)
  with reduce.hyps have "live N a" by (simp add: resting_in_live)
  then obtain s p where here: "a \<in> set (N s p)" by (auto simp: live_def)
  show ?case
  proof (cases "q < on_qty (m a)")
    case True
    obtain b' where "reduce_order a q (b, m) = (b', set_qty a q m)"
      "book_rel (set_qty a q m) b' N"
      by (rule reduce_order_rel [OF N(1) here True])
    with N(2) show ?thesis by (auto simp: engine_inv_def)
  next
    case False
    with N show ?thesis by (auto simp: engine_inv_def reduce_order_noop)
  qed
qed

lemma engine_reach_inv: "engine_reach st \<Longrightarrow> engine_inv st"
proof (induction rule: engine_reach.induct)
  case (start m)
  have "uncrossed (\<lambda>_ _. [])" by (simp add: uncrossed_def)
  with book_rel_new show ?case by (auto simp: engine_inv_def)
next
  case (step st e st')
  then show ?case by (blast intro: engine_step_inv)
qed

end
