(* ===== verification/Engine_Properties.thy ===== *)
theory Engine_Properties
  imports Engine_System
begin

text \<open>
  The properties of the matching engine over its reachable states and over every book that
  represents queues of orders, with concrete sessions that show each applies.
\<close>

section \<open>Submitting\<close>

lemma reach_rel:
  assumes "engine_reach (b, m)"
  obtains N where "book_rel m b N" and "uncrossed N"
    and "\<And>a. resting_in (b, m) a \<longleftrightarrow> live N a"
proof -
  from engine_reach_inv [OF assms] obtain N where N: "book_rel m b N" "uncrossed N"
    by (auto simp: engine_inv_def)
  then show thesis by (intro that [OF N]) (rule resting_in_live)
qed

text \<open>A session: fresh orders submitted one after the other.\<close>

type_synonym ticket = "addr \<times> OrderId \<times> Price \<times> Quantity \<times> Side"

fun submit_all :: "ticket list \<Rightarrow> OrderBook \<times> mem \<Rightarrow> (OrderBook \<times> mem) option" where
  "submit_all [] st = Some st"
| "submit_all ((a, i, p, q, s) # ts) (b, m) =
     (case process_limit_order a (b, m(a := OrderNode_of i p q s)) of
        None \<Rightarrow> None
      | Some (_, st') \<Rightarrow> submit_all ts st')"

lemma OrderNode_of_sel [simp]:
  "on_id (OrderNode_of i p q s) = i" "on_price (OrderNode_of i p q s) = p"
  "on_qty (OrderNode_of i p q s) = q" "on_side (OrderNode_of i p q s) = s"
  by (simp_all add: OrderNode_of_def)

lemma reach_submit:
  assumes reach: "engine_reach (b, m)" and fresh: "\<not> resting_in (b, m) a"
  obtains ts b' m' where
    "process_limit_order a (b, m(a := OrderNode_of i p q s)) = Some (ts, b', m')"
    and "engine_reach (b', m')" and "\<And>c. resting_in (b', m') c \<Longrightarrow> resting_in (b, m) c \<or> c = a"
proof -
  obtain N where N: "book_rel m b N" "\<And>a. resting_in (b, m) a \<longleftrightarrow> live N a"
    by (rule reach_rel [OF reach]) blast
  from fresh N(2) have new: "\<not> live N a" by simp
  obtain ts b' m' N' where
    run: "process_limit_order a (b, m(a := OrderNode_of i p q s)) = Some (ts, b', m')"
    and rel': "book_rel m' b' N'" and sub: "\<And>c. live N' c \<Longrightarrow> live N c \<or> c = a"
    by (rule process_limit_order_spec [OF book_rel_write_fresh [OF N(1) new] new refl]) blast
  have "engine_reach (b', m')"
    by (rule engine_reach.step [OF reach engine_step.submit [OF fresh run]])
  then show thesis
    using run sub N(2) resting_in_live [OF rel'] by (intro that) auto
qed

lemma submit_all_reach:
  "engine_reach (b, m) \<Longrightarrow> distinct (map fst ts) \<Longrightarrow>
     \<forall>t \<in> set ts. \<not> resting_in (b, m) (fst t) \<Longrightarrow>
     \<exists>b' m'. submit_all ts (b, m) = Some (b', m') \<and> engine_reach (b', m') \<and>
       (\<forall>c. resting_in (b', m') c \<longrightarrow> resting_in (b, m) c \<or> c \<in> fst ` set ts)"
proof (induction ts arbitrary: b m)
  case (Cons t ts)
  obtain a i p q s where t: "t = (a, i, p, q, s)" by (cases t)
  from Cons.prems have "\<not> resting_in (b, m) a" by (simp add: t)
  from reach_submit [OF Cons.prems(1) this] obtain tr b1 m1 where
    one: "process_limit_order a (b, m(a := OrderNode_of i p q s)) = Some (tr, b1, m1)"
      "engine_reach (b1, m1)" "\<And>c. resting_in (b1, m1) c \<Longrightarrow> resting_in (b, m) c \<or> c = a"
    by blast
  have out: "\<forall>u \<in> set ts. \<not> resting_in (b1, m1) (fst u)"
  proof
    fix u assume u: "u \<in> set ts"
    then have "fst u \<noteq> a" using Cons.prems(2) by (auto simp: t)
    with u Cons.prems(3) one(3) [of "fst u"] show "\<not> resting_in (b1, m1) (fst u)" by auto
  qed
  obtain b2 m2 where rest: "submit_all ts (b1, m1) = Some (b2, m2)" "engine_reach (b2, m2)"
    "\<And>c. resting_in (b2, m2) c \<Longrightarrow> resting_in (b1, m1) c \<or> c \<in> fst ` set ts"
    using Cons.IH [OF one(2) _ out] Cons.prems(2) by auto
  have "submit_all (t # ts) (b, m) = Some (b2, m2)" using one(1) rest(1) by (simp add: t)
  moreover have "resting_in (b, m) c \<or> c \<in> fst ` set (t # ts)" if "resting_in (b2, m2) c" for c
    using rest(3) [OF that] one(3) [of c] by (auto simp: t)
  ultimately show ?case using rest(2) by blast
qed auto

lemma resting_in_new: "\<not> resting_in (OrderBook_new, m) a"
  by (simp add: resting_in_live [OF book_rel_new] live_def)

lemma session_reach:
  assumes "distinct (map fst ts)" and "submit_all ts (OrderBook_new, m) = Some st"
  shows "engine_reach st" and "\<And>a. a \<notin> fst ` set ts \<Longrightarrow> \<not> resting_in st a"
  using submit_all_reach [OF engine_reach.start, of ts m] assms resting_in_new by auto

text \<open>The session the witnesses run: three resting sells and one resting buy.\<close>

definition quiet_mem :: mem where
  "quiet_mem = (\<lambda>_. OrderNode_of 0 0 0 Buy)"

definition demo_tickets :: "ticket list" where
  "demo_tickets = [(0, 1, 101, 10, Sell), (1, 2, 101, 4, Sell), (2, 3, 102, 7, Sell),
     (3, 4, 99, 5, Buy)]"

definition demo :: "OrderBook \<times> mem" where
  "demo = the (submit_all demo_tickets (OrderBook_new, quiet_mem))"

lemma demo_run: "submit_all demo_tickets (OrderBook_new, quiet_mem) = Some demo"
proof -
  have "distinct (map fst demo_tickets)" by (simp add: demo_tickets_def)
  from submit_all_reach [OF engine_reach.start this, of quiet_mem] resting_in_new
  show ?thesis by (auto simp: demo_def)
qed

lemma demo_reach: "engine_reach demo"
  and demo_resting: "3 < a \<Longrightarrow> \<not> resting_in demo a"
  using session_reach [OF _ demo_run] by (auto simp: demo_tickets_def)

lemma demo_fresh:
  "engine_reach (fst demo, snd demo)" "\<not> resting_in (fst demo, snd demo) 4"
  using demo_reach demo_resting [of 4] by simp_all

section \<open>Submitting in a reachable state\<close>

text \<open>What the properties below use of one \<open>process_limit_order\<close> call.\<close>

lemma submit_facts:
  assumes reach: "engine_reach (b, m)" and fresh: "\<not> resting_in (b, m) a"
    and run: "process_limit_order a (b, m(a := OrderNode_of i p q s)) = Some (ts, b', m')"
  obtains N N' own opp where "book_rel m b N" and "book_rel m' b' N'"
    and "own = side_queue m b N s" and "opp = side_queue m b N (opposite s)"
    and "prio_sorted (opposite s) opp"
    and "spec_fill (acceptable s p) i q opp =
      (sv_contents ts, on_qty (m' a), side_queue m' b' N' (opposite s))"
    and "side_queue m' b' N' s = (if on_qty (m' a) = 0 then own else spec_insert s
      \<lparr>r_ref = a, r_id = i, r_price = p, r_qty = on_qty (m' a)\<rparr> own)"
    and "trades_ok ts"
proof -
  let ?m = "m(a := OrderNode_of i p q s)"
  obtain N where N: "book_rel m b N" "\<And>a. resting_in (b, m) a \<longleftrightarrow> live N a"
    by (rule reach_rel [OF reach]) blast
  from fresh N(2) have new: "\<not> live N a" by simp
  have rel: "book_rel ?m b N" by (rule book_rel_write_fresh [OF N(1) new])
  have same: "side_queue ?m b N s' = side_queue m b N s'" for s'
    using new by (intro side_queue_cong) (auto simp: live_def)
  have node: "on_side (?m a) = s" by simp
  obtain ts2 b2 m2 N' where run2: "process_limit_order a (b, ?m) = Some (ts2, b2, m2)"
    and rel2: "book_rel m2 b2 N'"
    and spec: "spec_submit s (view ?m a) (side_queue ?m b N s) (side_queue ?m b N (opposite s)) =
      (sv_contents ts2, side_queue m2 b2 N' s, side_queue m2 b2 N' (opposite s))"
    and left2: "fst (snd (spec_fill (acceptable s (on_price (?m a))) (on_id (?m a)) (on_qty (?m a))
      (side_queue ?m b N (opposite s)))) = on_qty (m2 a)"
    and tok: "trades_ok ts2"
    by (rule process_limit_order_spec [OF rel new node]) blast
  have eqs: "ts2 = ts" "b2 = b'" "m2 = m'" using run run2 by auto
  have fill: "spec_fill (acceptable s p) i q (side_queue m b N (opposite s)) =
      (sv_contents ts, on_qty (m' a), side_queue m' b' N' (opposite s))"
    using spec left2 by (auto simp: spec_submit_def same eqs split: prod.splits)
  have own: "side_queue m' b' N' s = (if on_qty (m' a) = 0 then side_queue m b N s else spec_insert s
      \<lparr>r_ref = a, r_id = i, r_price = p, r_qty = on_qty (m' a)\<rparr> (side_queue m b N s))"
    using spec fill
    by (cases "on_qty (m' a) = 0") (simp_all add: spec_submit_def same eqs view_def)
  show thesis
    by (rule that [OF N(1) rel2 [unfolded eqs] refl refl side_queue_sorted [OF N(1)] fill own
          tok [unfolded eqs]])
qed

lemma best_level_head:
  assumes rel: "book_rel m b N" and best: "best_level s b = Some l"
  obtains a as where "side_queue m b N s = view m a # as" and "a \<in> set (N s (lvl_price l))"
    and "il_head (lvl_orders l) = Some a" and "on_price (m a) = lvl_price l"
proof -
  obtain k lm where lm: "book_side s b = (k, l) # lm"
    using best by (cases "book_side s b") (auto simp: best_level_begin)
  have side: "side_rel m s (book_side s b) (N s)" using rel by (simp add: book_rel_def)
  have "level_rel m s k l (N s k)" using side_rel_level [OF side, of k] lm by simp
  then have k: "lvl_price l = k" "N s k \<noteq> []" "il_holds m (lvl_orders l) (N s k)"
    unfolding level_rel_def by blast+
  then obtain c cs where c: "N s k = c # cs" by (cases "N s k") auto
  then have "on_price (m c) = k" using side_rel_node [OF side, of c k] by simp
  then show thesis
    using that [of c] k(1,3) il_holds_head by (simp add: side_queue_def lm c)
qed

lemma best_level_queue:
  assumes rel: "book_rel m b N" and best: "best_level s b = Some l"
  obtains r rs where "side_queue m b N s = r # rs" and "r_price r = lvl_price l"
  by (rule best_level_head [OF assms]) (auto intro: that)

lemma best_level_None:
  assumes rel: "book_rel m b N" and best: "best_level s b = None"
  shows "side_queue m b N s = []"
  using best by (simp add: best_level_begin side_queue_def)

section \<open>Properties\<close>

text \<open>
  (C1) \<open>process_limit_order\<close> implements the specification: from every book that represents
  queues and for every node outside it, the call returns, the new book represents queues
  again, and the trades and both sides' orders are those of \<open>spec_submit\<close>.
\<close>

theorem process_limit_order_refines:
  assumes "book_rel m b N" and "\<not> live N i"
  shows "\<exists>ts b' m' N'. process_limit_order i (b, m) = Some (ts, b', m') \<and> book_rel m' b' N' \<and>
    spec_submit (on_side (m i)) (view m i) (side_queue m b N (on_side (m i)))
        (side_queue m b N (opposite (on_side (m i)))) =
      (sv_contents ts, side_queue m' b' N' (on_side (m i)),
        side_queue m' b' N' (opposite (on_side (m i))))"
  by (rule process_limit_order_spec [OF assms refl]) blast

theorem process_limit_order_refines_witness:
  "\<exists>ts b' m' N'. process_limit_order 0 (OrderBook_new, quiet_mem) = Some (ts, b', m') \<and>
     book_rel m' b' N'"
  using process_limit_order_refines [OF book_rel_new, of 0 quiet_mem] by (auto simp: live_def)

text \<open>
  (C5) In every reachable state, submitting a fresh order terminates without a null
  dereference, whatever its side, price and quantity.
\<close>

theorem engine_submit_returns:
  assumes "engine_reach (b, m)" and "\<not> resting_in (b, m) a"
  shows "\<exists>ts st'. process_limit_order a (b, m(a := OrderNode_of i p q s)) = Some (ts, st')"
  using reach_submit [OF assms, of i p q s] by blast

theorem engine_submit_returns_witness:
  "\<exists>ts st'. process_limit_order 4 (fst demo, (snd demo)(4 := OrderNode_of 5 101 12 Buy)) =
     Some (ts, st')"
  using engine_submit_returns [of "fst demo" "snd demo" 4] demo_reach demo_resting [of 4] by simp

lemma reach_uncrossed:
  assumes "engine_reach st" and "get_best_bid (fst st) = Some bid"
    and "get_best_ask (fst st) = Some ask"
  shows "lvl_price bid < lvl_price ask"
proof -
  obtain b m where st: "st = (b, m)" by (cases st)
  obtain N where N: "book_rel m b N" "uncrossed N"
    using assms(1) unfolding st by (rule reach_rel) blast
  obtain x xs where x: "side_queue m b N Buy = x # xs" "r_price x = lvl_price bid"
    using best_level_queue [OF N(1), of Buy bid] assms(2) st by auto
  obtain y ys where y: "side_queue m b N Sell = y # ys" "r_price y = lvl_price ask"
    using best_level_queue [OF N(1), of Sell ask] assms(3) st by auto
  have "spec_uncrossed Buy (side_queue m b N Buy) (side_queue m b N Sell)"
    using uncrossed_queue [OF N(1), of Buy] N(2) by simp
  with x y show ?thesis by (simp add: spec_uncrossed_def not_le)
qed

text \<open>
  (C2) The book is never crossed: in every reachable state with orders on both sides, the
  best bid is strictly below the best ask.
\<close>

theorem engine_never_crossed:
  assumes "engine_reach st" and "get_best_bid (fst st) = Some bid"
    and "get_best_ask (fst st) = Some ask"
  shows "lvl_price bid < lvl_price ask"
  by (rule reach_uncrossed [OF assms])

theorem engine_never_crossed_witness:
  "\<exists>bid ask. get_best_bid (fst demo) = Some bid \<and> get_best_ask (fst demo) = Some ask \<and>
     lvl_price bid < lvl_price ask"
proof -
  have "get_best_bid (fst demo) \<noteq> None \<and> get_best_ask (fst demo) \<noteq> None" by code_simp
  then obtain bid ask where "get_best_bid (fst demo) = Some bid" "get_best_ask (fst demo) = Some ask"
    by auto
  with engine_never_crossed [OF demo_reach this] show ?thesis by blast
qed

text \<open>
  (C9) Every level of a reachable book is consistent: it is filed under its own price, is
  not empty, its linked list is well formed in both directions without repetition, its
  orders carry its price and side, and its cached volume is the sum of their quantities.
\<close>

theorem engine_levels_consistent:
  assumes "engine_reach (b, m)" and "map_find p (book_side s b) = Some lvl"
  shows "\<exists>xs. xs \<noteq> [] \<and> il_holds m (lvl_orders lvl) xs \<and> lvl_price lvl = p \<and>
    (\<forall>a \<in> set xs. on_price (m a) = p \<and> on_side (m a) = s) \<and>
    total_volume lvl = sum_list (map (\<lambda>a. on_qty (m a)) xs)"
proof -
  obtain N where "book_rel m b N" by (rule reach_rel [OF assms(1)]) blast
  then have "side_rel m s (book_side s b) (N s)" by (simp add: book_rel_def)
  from side_rel_level [OF this assms(2)] show ?thesis unfolding level_rel_def by blast
qed

theorem engine_levels_consistent_witness:
  "\<exists>lvl xs. map_find 101 (asks (fst demo)) = Some lvl \<and> il_holds (snd demo) (lvl_orders lvl) xs \<and>
     total_volume lvl = sum_list (map (\<lambda>a. on_qty (snd demo a)) xs)"
proof -
  have "map_find 101 (book_side Sell (fst demo)) \<noteq> None" by code_simp
  then obtain lvl where lvl: "map_find 101 (book_side Sell (fst demo)) = Some lvl" by auto
  moreover have "engine_reach (fst demo, snd demo)" using demo_reach by simp
  ultimately show ?thesis using engine_levels_consistent [OF _ lvl, of "snd demo"] by auto
qed

text \<open>
  (C3) Price-time priority: the opposite queue is in priority order, the makers of the
  trades are its first orders, one trade each and in that order, at their own prices; every
  maker but possibly the last is filled completely, and a last one filled in part stays at
  the front of the queue with what is left of it.
\<close>

theorem submit_price_time_priority:
  assumes "engine_reach (b, m)" and "\<not> resting_in (b, m) a"
    and "process_limit_order a (b, m(a := OrderNode_of i p q s)) = Some (ts, b', m')"
  shows "\<exists>N N' opp opp'. book_rel m b N \<and> book_rel m' b' N' \<and>
    opp = side_queue m b N (opposite s) \<and> opp' = side_queue m' b' N' (opposite s) \<and>
    prio_sorted (opposite s) opp \<and>
    map (\<lambda>x. (maker_order_id x, trade_price x)) (sv_contents ts) =
      map (\<lambda>r. (r_id r, r_price r)) (take (length (sv_contents ts)) opp) \<and>
    ((\<exists>filled. opp = filled @ opp' \<and> map trade_qty (sv_contents ts) = map r_qty filled) \<or>
     (\<exists>filled r rest k. opp = filled @ r # rest \<and> opp' = r\<lparr>r_qty := r_qty r - k\<rparr> # rest \<and>
        map trade_qty (sv_contents ts) = map r_qty filled @ [k] \<and> 0 < k \<and> k < r_qty r))"
proof -
  obtain N N' own opp where rel: "book_rel m b N" "book_rel m' b' N'"
    and opp: "opp = side_queue m b N (opposite s)" and srt: "prio_sorted (opposite s) opp"
    and fill: "spec_fill (acceptable s p) i q opp =
      (sv_contents ts, on_qty (m' a), side_queue m' b' N' (opposite s))"
    by (rule submit_facts [OF assms]) blast
  from spec_fill_makers [OF fill] spec_fill_shape [OF fill] rel srt opp show ?thesis by blast
qed

theorem submit_price_time_priority_witness:
  "\<exists>ts b' m'. process_limit_order 4 (fst demo, (snd demo)(4 := OrderNode_of 5 101 12 Buy)) =
       Some (ts, b', m') \<and>
     (\<exists>N opp. book_rel (snd demo) (fst demo) N \<and> opp = side_queue (snd demo) (fst demo) N Sell \<and>
       map maker_order_id (sv_contents ts) = map r_id (take (length (sv_contents ts)) opp))"
proof -
  obtain ts b' m' where
    run: "process_limit_order 4 (fst demo, (snd demo)(4 := OrderNode_of 5 101 12 Buy)) =
       Some (ts, b', m')"
    by (rule reach_submit [OF demo_fresh])
  from submit_price_time_priority [OF demo_fresh run] obtain N opp where
    "book_rel (snd demo) (fst demo) N" "opp = side_queue (snd demo) (fst demo) N Sell"
    "map (\<lambda>x. (maker_order_id x, trade_price x)) (sv_contents ts) =
      map (\<lambda>r. (r_id r, r_price r)) (take (length (sv_contents ts)) opp)" by auto
  moreover from arg_cong [OF this(3), of "map fst"]
  have "map maker_order_id (sv_contents ts) = map r_id (take (length (sv_contents ts)) opp)"
    by (simp add: comp_def)
  ultimately show ?thesis using run by blast
qed

text \<open>
  (C6) Quantity is conserved without wrap-around: the traded quantities and what the
  incoming order has left add up to its quantity as natural numbers.
\<close>

theorem submit_conserves_quantity:
  assumes "engine_reach (b, m)" and "\<not> resting_in (b, m) a"
    and "process_limit_order a (b, m(a := OrderNode_of i p q s)) = Some (ts, b', m')"
  shows "sum_list (map (\<lambda>x. unat (trade_qty x)) (sv_contents ts)) + unat (on_qty (m' a)) = unat q"
  by (rule submit_facts [OF assms]) (rule spec_fill_quantity)

theorem submit_conserves_quantity_witness:
  "\<exists>ts b' m'. process_limit_order 4 (fst demo, (snd demo)(4 := OrderNode_of 5 101 20 Buy)) =
       Some (ts, b', m') \<and>
     sum_list (map (\<lambda>x. unat (trade_qty x)) (sv_contents ts)) + unat (on_qty (m' 4)) = 20"
proof -
  obtain ts b' m' where
    run: "process_limit_order 4 (fst demo, (snd demo)(4 := OrderNode_of 5 101 20 Buy)) =
       Some (ts, b', m')"
    by (rule reach_submit [OF demo_fresh])
  from submit_conserves_quantity [OF demo_fresh run] run show ?thesis by auto
qed

text \<open>
  (C40) A trade never violates the taker's limit, carries the taker's identifier, and an order
  with quantity left faces no level it could still trade with.
\<close>

theorem submit_respects_limit:
  assumes "engine_reach (b, m)" and "\<not> resting_in (b, m) a"
    and "process_limit_order a (b, m(a := OrderNode_of i p q s)) = Some (ts, b', m')"
  shows "(\<forall>x \<in> set (sv_contents ts). taker_order_id x = i \<and> acceptable s p (trade_price x)) \<and>
    (\<forall>l. on_qty (m' a) \<noteq> 0 \<longrightarrow> best_level (opposite s) b' = Some l \<longrightarrow>
      \<not> acceptable s p (lvl_price l))"
proof -
  obtain N N' opp where rel': "book_rel m' b' N'"
    and fill: "spec_fill (acceptable s p) i q opp =
      (sv_contents ts, on_qty (m' a), side_queue m' b' N' (opposite s))"
    by (rule submit_facts [OF assms]) blast
  have "\<not> acceptable s p (lvl_price l)"
    if "on_qty (m' a) \<noteq> 0" "best_level (opposite s) b' = Some l" for l
    using best_level_queue [OF rel' that(2)] spec_fill_remainder [OF fill that(1)]
    by (metis list.distinct(1) list.sel(1))
  with spec_fill_makers [OF fill] show ?thesis by blast
qed

theorem submit_respects_limit_witness:
  "\<exists>ts b' m'. process_limit_order 4 (fst demo, (snd demo)(4 := OrderNode_of 5 101 20 Buy)) =
       Some (ts, b', m') \<and> (\<forall>x \<in> set (sv_contents ts). trade_price x \<le> 101)"
proof -
  obtain ts b' m' where
    run: "process_limit_order 4 (fst demo, (snd demo)(4 := OrderNode_of 5 101 20 Buy)) =
       Some (ts, b', m')"
    by (rule reach_submit [OF demo_fresh])
  from submit_respects_limit [OF demo_fresh run] run show ?thesis by auto
qed

text \<open>
  Matching allocates for its trades only when it must: the returned trade buffer is on
  the heap exactly when the call made more than 16 trades.
\<close>

lemma submit_heap_iff_many_trades:
  assumes "engine_reach (b, m)" and "\<not> resting_in (b, m) a"
    and "process_limit_order a (b, m(a := OrderNode_of i p q s)) = Some (ts, b', m')"
  shows "sv_is_heap ts \<longleftrightarrow> 16 < length (sv_contents ts)"
  by (rule submit_facts [OF assms]) (simp add: trades_ok_def)

theorem submit_heap_iff_many_trades_witness:
  "\<exists>ts st'. process_limit_order 4 (fst demo, (snd demo)(4 := OrderNode_of 5 101 20 Buy)) =
       Some (ts, st') \<and> (sv_is_heap ts \<longleftrightarrow> 16 < length (sv_contents ts))"
proof -
  obtain ts b' m' where
    run: "process_limit_order 4 (fst demo, (snd demo)(4 := OrderNode_of 5 101 20 Buy)) =
       Some (ts, b', m')"
    by (rule reach_submit [OF demo_fresh])
  from submit_heap_iff_many_trades [OF demo_fresh run] run show ?thesis by blast
qed

section \<open>Volumes\<close>

text \<open>The sum of the cached level volumes of a side, in the code's 64-bit arithmetic.\<close>

definition side_volume :: "levels \<Rightarrow> Quantity" where
  "side_volume lm = sum_list (map (\<lambda>(_, lvl). total_volume lvl) lm)"

lemma side_volume_queue:
  assumes rel: "book_rel m b N"
  shows "side_volume (book_side s b) = sum_list (map r_qty (side_queue m b N s))"
proof -
  have side: "side_rel m s (book_side s b) (N s)" using rel by (simp add: book_rel_def)
  have "sum_list (map (\<lambda>(_, lvl). total_volume lvl) lm) =
      sum_list (map (\<lambda>a. on_qty (m a)) (concat (map (N s) (keys_of lm))))"
    if "set lm \<subseteq> set (book_side s b)" for lm
    using that
  proof (induction lm)
    case (Cons e lm)
    obtain k l where e: "e = (k, l)" by (cases e)
    have "map_find k (book_side s b) = Some l"
      using Cons.prems side_rel_keys_distinct [OF side] by (intro find_entry) (auto simp: e)
    from side_rel_level [OF side this] Cons show ?case by (simp add: e level_rel_def)
  qed simp
  from this [OF subset_refl] show ?thesis
    by (simp add: side_volume_def side_queue_def comp_def)
qed

lemma spec_fill_volume:
  "spec_fill ok t q rs = (ts, q', rs') \<Longrightarrow>
     sum_list (map trade_qty ts) + sum_list (map r_qty rs') = sum_list (map r_qty rs)"
proof (induction rs arbitrary: q ts)
  case (Cons r rs)
  then show ?case by (fastforce simp: algebra_simps split: if_splits prod.splits)
qed simp

lemma spec_insert_volume:
  "sum_list (map r_qty (spec_insert s r rs)) = r_qty r + sum_list (map r_qty rs)"
proof -
  let ?P = "\<lambda>x. \<not> side_cmp s (r_price r) (r_price x)"
  have "sum_list (map r_qty rs) =
      sum_list (map r_qty (takeWhile ?P rs)) + sum_list (map r_qty (dropWhile ?P rs))"
    by (metis map_append sum_list_append takeWhile_dropWhile_id)
  then show ?thesis by (simp add: spec_insert_def)
qed

lemma spec_fill_quantity_word:
  "spec_fill ok t q rs = (ts, q', rs') \<Longrightarrow> sum_list (map trade_qty ts) + q' = q"
proof (induction rs arbitrary: q ts)
  case (Cons r rs)
  then show ?case by (fastforce simp: algebra_simps split: if_splits prod.splits)
qed simp

lemma submit_quantity_word:
  assumes "engine_reach (b, m)" and "\<not> resting_in (b, m) a"
    and "process_limit_order a (b, m(a := OrderNode_of i p q s)) = Some (ts, b', m')"
  shows "sum_list (map trade_qty (sv_contents ts)) + on_qty (m' a) = q"
  by (rule submit_facts [OF assms]) (rule spec_fill_quantity_word)

lemma submit_volume:
  assumes "engine_reach (b, m)" and "\<not> resting_in (b, m) a"
    and "process_limit_order a (b, m(a := OrderNode_of i p q s)) = Some (ts, b', m')"
  shows "side_volume (book_side (opposite s) b) =
      side_volume (book_side (opposite s) b') + sum_list (map trade_qty (sv_contents ts)) \<and>
    side_volume (book_side s b') = side_volume (book_side s b) + on_qty (m' a)"
proof -
  obtain N N' own opp where rel: "book_rel m b N" "book_rel m' b' N'"
    and q: "own = side_queue m b N s" "opp = side_queue m b N (opposite s)"
    and fill: "spec_fill (acceptable s p) i q opp =
      (sv_contents ts, on_qty (m' a), side_queue m' b' N' (opposite s))"
    and own': "side_queue m' b' N' s = (if on_qty (m' a) = 0 then own else spec_insert s
      \<lparr>r_ref = a, r_id = i, r_price = p, r_qty = on_qty (m' a)\<rparr> own)"
    by (rule submit_facts [OF assms]) blast
  show ?thesis
    unfolding side_volume_queue [OF rel(1)] side_volume_queue [OF rel(2)]
    using spec_fill_volume [OF fill] own'
    by (cases "on_qty (m' a) = 0") (simp_all add: q spec_insert_volume add.commute)
qed

text \<open>
  The cached volumes account for every submission: the opposite side's volume drops by
  exactly the traded quantity, and the order's own side gains exactly what it has left.
\<close>

lemma submit_conserves_volume:
  assumes "engine_reach (b, m)" and "\<not> resting_in (b, m) a"
    and "process_limit_order a (b, m(a := OrderNode_of i p q s)) = Some (ts, b', m')"
  shows "side_volume (book_side (opposite s) b) =
      side_volume (book_side (opposite s) b') + sum_list (map trade_qty (sv_contents ts)) \<and>
    side_volume (book_side s b') = side_volume (book_side s b) + on_qty (m' a)"
  by (rule submit_volume [OF assms])

theorem submit_conserves_volume_witness:
  "\<exists>ts b' m'. process_limit_order 4 (fst demo, (snd demo)(4 := OrderNode_of 5 101 12 Buy)) =
       Some (ts, b', m') \<and>
     21 = side_volume (asks b') + sum_list (map trade_qty (sv_contents ts))"
proof -
  obtain ts b' m' where
    run: "process_limit_order 4 (fst demo, (snd demo)(4 := OrderNode_of 5 101 12 Buy)) =
       Some (ts, b', m')"
    by (rule reach_submit [OF demo_fresh])
  have "side_volume (asks (fst demo)) = 21" by code_simp
  with submit_conserves_volume [OF demo_fresh run] run show ?thesis by auto
qed

section \<open>Cancelling and reducing\<close>

lemma resting_head:
  assumes "engine_reach (b, m)" and "map_find p (book_side s b) = Some lvl"
    and "il_head (lvl_orders lvl) = Some a"
  shows "resting_in (b, m) a"
proof -
  obtain N where N: "book_rel m b N" "\<And>a. resting_in (b, m) a \<longleftrightarrow> live N a"
    by (rule reach_rel [OF assms(1)]) blast
  then have "side_rel m s (book_side s b) (N s)" by (simp add: book_rel_def)
  from side_rel_level [OF this assms(2)] have "a \<in> set (N s p)"
    using assms(3) by (cases "N s p") (auto simp: level_rel_def il_holds_def)
  then show ?thesis using N(2) by (auto simp: live_def)
qed

lemma demo_resting_0: "resting_in demo 0"
proof -
  have "map_option (\<lambda>l. il_head (lvl_orders l)) (map_find 101 (book_side Sell (fst demo))) =
      Some (Some 0)" by code_simp
  then obtain l where "map_find 101 (book_side Sell (fst demo)) = Some l"
    "il_head (lvl_orders l) = Some 0" by auto
  from resting_head [OF demo_fresh(1) this] show ?thesis by simp
qed

text \<open>
  (C37) Cancelling a resting order through the engine removes exactly that order: it is no
  longer in the book, every other resting order still is.
\<close>

theorem engine_cancel_removes:
  assumes "engine_reach (b, m)" and "resting_in (b, m) a"
  shows "resting_in (engine_cancel_order a (b, m)) c \<longleftrightarrow> resting_in (b, m) c \<and> c \<noteq> a"
proof -
  obtain N where N: "book_rel m b N" "\<And>a. resting_in (b, m) a \<longleftrightarrow> live N a"
    by (rule reach_rel [OF assms(1)]) blast
  from assms(2) N(2) obtain s p where here: "a \<in> set (N s p)" by (auto simp: live_def)
  obtain b' m' where run: "cancel_order a (b, m) = (b', m')"
    and rel': "book_rel m' b' (upd_queue s p (remove1 a (N s p)) N)"
    by (rule cancel_order_rel [OF N(1) here]) blast
  have "a \<in> set (N s' p') \<longleftrightarrow> s' = s \<and> p' = p" for s' p'
    using book_rel_node [OF N(1)] here by metis
  then have "c \<in> set (upd_queue s p (remove1 a (N s p)) N s' p') \<longleftrightarrow> c \<in> set (N s' p') \<and> c \<noteq> a"
    for s' p'
    using book_rel_distinct [OF N(1), of s p] by auto
  then have "live (upd_queue s p (remove1 a (N s p)) N) c \<longleftrightarrow> live N c \<and> c \<noteq> a"
    unfolding live_def by blast
  with run resting_in_live [OF rel'] N(2) show ?thesis by (simp add: engine_cancel_order_def)
qed

theorem engine_cancel_removes_witness:
  "resting_in demo 0 \<and> \<not> resting_in (engine_cancel_order 0 demo) 0"
  using engine_cancel_removes [OF demo_fresh(1), of 0 0] demo_resting_0 by simp

text \<open>
  Reducing a resting order to a smaller quantity keeps its place: every queue is as
  before, the order has the new quantity and its level's volume is consistent with it; a
  reduction to the same or a larger quantity changes nothing.
\<close>

lemma reduce_keeps_priority:
  assumes "book_rel m b N" and "a \<in> set (N s p)"
  shows "reduce_order a q (b, m) = (b', m') \<Longrightarrow>
    book_rel m' b' N \<and> on_qty (m' a) = min q (on_qty (m a)) \<and> same_off {a} m m'"
proof (cases "q < on_qty (m a)")
  case True
  assume run: "reduce_order a q (b, m) = (b', m')"
  obtain b2 where "reduce_order a q (b, m) = (b2, set_qty a q m)" "book_rel (set_qty a q m) b2 N"
    by (rule reduce_order_rel [OF assms True])
  moreover have "same_off {a} m (set_qty a q m)" by (simp add: same_off_def set_qty_def)
  ultimately show ?thesis using run True by (simp add: min_absorb1)
next
  case False
  assume "reduce_order a q (b, m) = (b', m')"
  with False assms(1) show ?thesis by (simp add: reduce_order_noop not_less min_absorb2)
qed

theorem reduce_keeps_priority_witness:
  "\<exists>N s p. 0 \<in> set (N s p) \<and> (\<forall>b' m'. reduce_order 0 3 demo = (b', m') \<longrightarrow>
     book_rel m' b' N \<and> on_qty (m' 0) = min 3 (on_qty (snd demo 0)))"
proof -
  obtain N where "book_rel (snd demo) (fst demo) N" "live N 0"
    using demo_resting_0 by (auto simp: resting_in_def)
  moreover from this obtain s p where "0 \<in> set (N s p)" by (auto simp: live_def)
  ultimately show ?thesis using reduce_keeps_priority [of "snd demo" "fst demo" N 0 s p 3]
    by (metis prod.collapse)
qed

text \<open>
  Reducing the first order of the queue to quantity zero leaves it in the book, and the
  next order that would trade with it reports a trade of quantity zero with it.
\<close>

lemma reduce_to_zero_trades_nothing:
  assumes "book_rel m b N" and "a \<in> set (N s p)" and "side_queue m b N s = view m a # rs"
    and "on_qty (m a) \<noteq> 0" and "\<not> live N i" and "on_side (m i) = opposite s"
    and "acceptable (opposite s) (on_price (m i)) p" and "on_qty (m i) \<noteq> 0"
  shows "\<exists>ts st' rest. process_limit_order i (reduce_order a 0 (b, m)) = Some (ts, st') \<and>
    sv_contents ts = Trade_of (on_id (m a)) (on_id (m i)) p 0 # rest"
proof -
  have "0 < on_qty (m a)" using assms(4) by (simp add: word_gt_0_iff)
  then obtain b1 where run: "reduce_order a 0 (b, m) = (b1, set_qty a 0 m)"
    and rel1: "book_rel (set_qty a 0 m) b1 N"
    by (rule reduce_order_rel [OF assms(1,2)])
  let ?m = "set_qty a 0 m"
  have ai: "a \<noteq> i" using assms(2,5) by (auto simp: live_def)
  have price: "on_price (m a) = p" using book_rel_node [OF assms(1,2)] by simp
  have opp: "opposite (opposite s) = s" by (cases s) auto
  have node: "on_side (?m i) = opposite s" using assms(6) by simp
  have "keys_of (book_side s b1) = keys_of (book_side s b)"
    using run assms(4) by (cases s; cases "on_side (m a)")
      (auto simp: reduce_order_def Let_def split: if_splits option.splits)
  then have "map r_ref (side_queue ?m b1 N s) = map r_ref (side_queue m b N s)"
    by (simp add: side_queue_def comp_def)
  with assms(3) obtain rs' where queue: "side_queue ?m b1 N s = view ?m a # rs'"
    by (cases "side_queue ?m b1 N s") (auto simp: side_queue_def)
  obtain ts b' m' N' where "process_limit_order i (b1, ?m) = Some (ts, b', m')"
    and spec: "spec_submit (opposite s) (view ?m i) (side_queue ?m b1 N (opposite s))
        (side_queue ?m b1 N (opposite (opposite s))) =
      (sv_contents ts, side_queue m' b' N' (opposite s), side_queue m' b' N' (opposite (opposite s)))"
    by (rule process_limit_order_spec [OF rel1 assms(5) node]) blast
  moreover have "\<exists>rest. sv_contents ts = Trade_of (on_id (m a)) (on_id (m i)) p 0 # rest"
    using spec assms(7,8) ai price
    by (clarsimp simp: spec_submit_def opp queue Let_def split: prod.splits if_splits)
      (metis)+
  ultimately show ?thesis using run by auto
qed

theorem reduce_to_zero_trades_nothing_witness:
  "\<exists>ts st' rest. process_limit_order 4
       (reduce_order 0 0 (fst demo, (snd demo)(4 := OrderNode_of 5 101 12 Buy))) = Some (ts, st') \<and>
     sv_contents ts = Trade_of 1 5 101 0 # rest"
proof -
  let ?m = "(snd demo)(4 := OrderNode_of 5 101 12 Buy)"
  obtain N where N: "book_rel (snd demo) (fst demo) N"
    "\<And>a. resting_in (fst demo, snd demo) a \<longleftrightarrow> live N a"
    by (rule reach_rel [OF demo_fresh(1)]) blast
  then have new: "\<not> live N 4" using demo_fresh(2) by simp
  have rel: "book_rel ?m (fst demo) N" by (rule book_rel_write_fresh [OF N(1) new])
  have facts: "map_option (\<lambda>l. (lvl_price l, il_head (lvl_orders l))) (best_level Sell (fst demo)) =
      Some (101, Some 0)" "on_qty (snd demo 0) = 10" "on_id (snd demo 0) = 1"
    by code_simp+
  then obtain l where "best_level Sell (fst demo) = Some l" "lvl_price l = 101"
    "il_head (lvl_orders l) = Some 0" by auto
  then obtain as where "side_queue ?m (fst demo) N Sell = view ?m 0 # as" "0 \<in> set (N Sell 101)"
    using best_level_head [OF rel, of Sell l] by (metis option.inject)
  from reduce_to_zero_trades_nothing [OF rel this(2,1) _ new] facts(2,3) show ?thesis by simp
qed

section \<open>Positive quantities\<close>

lemma spec_fill_positive:
  "spec_fill ok t q rs = (ts, q', rs') \<Longrightarrow> \<forall>r \<in> set rs. r_qty r \<noteq> 0 \<Longrightarrow>
     (\<forall>x \<in> set ts. trade_qty x \<noteq> 0) \<and> (\<forall>r \<in> set rs'. r_qty r \<noteq> 0)"
proof (induction rs arbitrary: q ts)
  case (Cons r rs)
  then show ?case by (fastforce split: if_splits prod.splits)
qed simp

text \<open>
  As long as no resting order was reduced to zero, every trade has a positive quantity,
  and no order of quantity zero comes to rest.
\<close>

lemma submit_trades_positive:
  assumes "engine_reach (b, m)" and "\<not> resting_in (b, m) a"
    and "process_limit_order a (b, m(a := OrderNode_of i p q s)) = Some (ts, b', m')"
    and "\<forall>c. resting_in (b, m) c \<longrightarrow> on_qty (m c) \<noteq> 0"
  shows "(\<forall>x \<in> set (sv_contents ts). trade_qty x \<noteq> 0) \<and>
    (\<forall>c. resting_in (b', m') c \<longrightarrow> on_qty (m' c) \<noteq> 0)"
proof -
  obtain N N' own opp where rel: "book_rel m b N" "book_rel m' b' N'"
    and q: "own = side_queue m b N s" "opp = side_queue m b N (opposite s)"
    and fill: "spec_fill (acceptable s p) i q opp =
      (sv_contents ts, on_qty (m' a), side_queue m' b' N' (opposite s))"
    and own': "side_queue m' b' N' s = (if on_qty (m' a) = 0 then own else spec_insert s
      \<lparr>r_ref = a, r_id = i, r_price = p, r_qty = on_qty (m' a)\<rparr> own)"
    by (rule submit_facts [OF assms(1-3)]) blast
  have old: "\<forall>r \<in> set (side_queue m b N s'). r_qty r \<noteq> 0" for s'
    using assms(4) side_queue_mem [OF rel(1)] resting_in_live [OF rel(1)]
    by (fastforce simp: live_def)
  have new: "\<forall>r \<in> set (side_queue m' b' N' s'). r_qty r \<noteq> 0" for s'
  proof (cases "s' = s")
    case True
    then show ?thesis
      using old [of s] q(1) own' by (cases "on_qty (m' a) = 0") (simp_all add: set_spec_insert)
  next
    case False
    then have "s' = opposite s" by (cases s; cases s') simp_all
    then show ?thesis using spec_fill_positive [OF fill] old q(2) by blast
  qed
  have "on_qty (m' c) \<noteq> 0" if "resting_in (b', m') c" for c
  proof -
    from that obtain s' p' where "c \<in> set (N' s' p')"
      using resting_in_live [OF rel(2)] by (auto simp: live_def)
    then have "view m' c \<in> set (side_queue m' b' N' s')" using side_queue_mem [OF rel(2)] by blast
    with new show ?thesis by fastforce
  qed
  with spec_fill_positive [OF fill] old q(2) show ?thesis by blast
qed

theorem submit_trades_positive_witness:
  "\<exists>ts b' m'. process_limit_order 0 (OrderBook_new, quiet_mem(0 := OrderNode_of 1 100 10 Buy)) =
       Some (ts, b', m') \<and> (\<forall>c. resting_in (b', m') c \<longrightarrow> on_qty (m' c) \<noteq> 0)"
proof -
  obtain ts b' m' where
    run: "process_limit_order 0 (OrderBook_new, quiet_mem(0 := OrderNode_of 1 100 10 Buy)) =
       Some (ts, b', m')"
    by (rule reach_submit [OF engine_reach.start resting_in_new])
  from submit_trades_positive [OF engine_reach.start resting_in_new run] resting_in_new run
  show ?thesis by blast
qed

text \<open>
  An order with positive quantity that no opposite level accepts makes no trade: the
  call is exactly \<open>insert_order\<close>, with an empty trade buffer.
\<close>

lemma submit_without_match_inserts:
  assumes "engine_reach (b, m)" and "\<not> resting_in (b, m) a" and "q \<noteq> 0"
    and "\<forall>l. best_level (opposite s) b = Some l \<longrightarrow> \<not> acceptable s p (lvl_price l)"
  shows "\<exists>st'. insert_order a (b, m(a := OrderNode_of i p q s)) = Some st' \<and>
    process_limit_order a (b, m(a := OrderNode_of i p q s)) = Some (sv_new 16, st')"
proof -
  let ?m = "m(a := OrderNode_of i p q s)"
  have "match_against (opposite s) a b ?m (sv_new 16) = Some (b, ?m, sv_new 16)"
    using assms(4) by (subst match_against.simps) (auto simp: acceptable_def split: option.splits)
  moreover obtain ts st' where "process_limit_order a (b, ?m) = Some (ts, st')"
    by (rule reach_submit [OF assms(1,2)]) blast
  ultimately show ?thesis using assms(3)
    by (auto simp: process_limit_order_def match_dispatch [of ?m a, simplified] word_gt_0_iff
        split: option.splits)
qed

lemma submit_without_match_inserts_witness:
  "\<exists>st'. process_limit_order 0 (OrderBook_new, quiet_mem(0 := OrderNode_of 1 100 10 Buy)) =
     Some (sv_new 16, st')"
  using submit_without_match_inserts [OF engine_reach.start resting_in_new, of 10 Buy]
  by (fastforce simp: OrderBook_new_def get_best_ask_def)

end
