(* ===== verification/Slot_Allocator.thy ===== *)
theory Slot_Allocator
  imports Nexus_Prelude
begin

text \<open>
  The interface of the engine's two free-list allocators: \<open>take1\<close> hands out the slot at the
  head of the free list or reports that none is left, \<open>give\<close> puts a slot back at the head.
  \<open>holds st fs\<close> says that the free list of \<open>st\<close> is \<open>fs\<close>. The lemmas, about a client that
  gives back only slots it was handed, are proved once here; \<^verbatim>\<open>Memory_Pool\<close> and
  \<^verbatim>\<open>Pool_Allocator\<close> interpret the locale on the code's models.
\<close>

section \<open>A client\<close>

datatype slot_op = Take | Give nat

text \<open>
  The client's slots and the allocator's state after a sequence of operations; \<open>None\<close> is an
  operation of the allocator that fails (a failed assertion or a bad dereference).
\<close>

fun client_run ::
  "('s \<Rightarrow> (nat option \<times> 's) option) \<Rightarrow> (nat \<Rightarrow> 's \<Rightarrow> 's option) \<Rightarrow> slot_op list \<Rightarrow>
     nat list \<times> 's \<Rightarrow> (nat list \<times> 's) option" where
  "client_run tk gv [] (own, st) = Some (own, st)"
| "client_run tk gv (Take # ops) (own, st) =
     (case tk st of
        None \<Rightarrow> None
      | Some (None, st') \<Rightarrow> client_run tk gv ops (own, st')
      | Some (Some a, st') \<Rightarrow> client_run tk gv ops (a # own, st'))"
| "client_run tk gv (Give a # ops) (own, st) =
     (if a \<in> set own
      then (case gv a st of
              None \<Rightarrow> None
            | Some st' \<Rightarrow> client_run tk gv ops (remove1 a own, st'))
      else client_run tk gv ops (own, st))"

section \<open>The interface\<close>

locale slot_allocator =
  fixes slots :: "nat set"
    and holds :: "'s \<Rightarrow> nat list \<Rightarrow> bool"
    and take1 :: "'s \<Rightarrow> (nat option \<times> 's) option"
    and give :: "nat \<Rightarrow> 's \<Rightarrow> 's option"
  assumes take_none: "holds st [] \<Longrightarrow> take1 st = Some (None, st)"
    and take_some: "holds st (f # fs) \<Longrightarrow> \<exists>st'. take1 st = Some (Some f, st') \<and> holds st' fs"
    and give_holds: "holds st fs \<Longrightarrow> a \<in> slots \<Longrightarrow> a \<notin> set fs \<Longrightarrow>
      \<exists>st'. give a st = Some st' \<and> holds st' (a # fs)"
begin

text \<open>Client and free list together always own every slot exactly once.\<close>

definition split_slots :: "nat list \<Rightarrow> nat list \<Rightarrow> bool" where
  "split_slots own fs \<longleftrightarrow> distinct (own @ fs) \<and> set (own @ fs) = slots"

lemma client_ownership:
  "holds st fs \<Longrightarrow> split_slots own fs \<Longrightarrow>
     \<exists>own' st' fs'. client_run take1 give ops (own, st) = Some (own', st') \<and> holds st' fs' \<and>
       split_slots own' fs'"
proof (induction ops arbitrary: own st fs)
  case Nil
  then show ?case by auto
next
  case (Cons op ops)
  show ?case
  proof (cases op)
    case Take
    show ?thesis
    proof (cases fs)
      case Nil
      with Cons Take take_none show ?thesis by simp
    next
      case (Cons f fs')
      with Cons.prems take_some obtain st' where
        st': "take1 st = Some (Some f, st')" "holds st' fs'" by blast
      moreover have "split_slots (f # own) fs'"
        using Cons.prems(2) Cons by (auto simp: split_slots_def)
      ultimately show ?thesis using Cons.IH [of st' fs' "f # own"] Take by simp
    qed
  next
    case (Give a)
    show ?thesis
    proof (cases "a \<in> set own")
      case True
      with Cons.prems(2) have a: "a \<in> slots" "a \<notin> set fs" by (auto simp: split_slots_def)
      from give_holds [OF Cons.prems(1) a] obtain st' where
        st': "give a st = Some st'" "holds st' (a # fs)" by blast
      have "split_slots (remove1 a own) (a # fs)"
        using Cons.prems(2) True by (auto simp: split_slots_def)
      from Cons.IH [OF st'(2) this] st'(1) Give True show ?thesis by simp
    next
      case False
      with Cons Give show ?thesis by simp
    qed
  qed
qed

lemma take_all:
  "holds st fs \<Longrightarrow> \<exists>st'. client_run take1 give (replicate (length fs) Take) (own, st) =
     Some (rev fs @ own, st') \<and> holds st' []"
proof (induction fs arbitrary: st own)
  case (Cons f fs)
  from take_some [OF Cons.prems] obtain st' where
    "take1 st = Some (Some f, st')" "holds st' fs" by blast
  with Cons.IH [of st' "f # own"] show ?case by simp
qed simp

lemma give_take:
  assumes "holds st fs" and "a \<in> slots" and "a \<notin> set fs"
  shows "\<exists>st1 st2. give a st = Some st1 \<and> take1 st1 = Some (Some a, st2) \<and> holds st2 fs"
  using give_holds [OF assms] take_some by blast

end

end
