(* ===== verification/Memory_Pool.thy ===== *)
theory Memory_Pool
  imports Slot_Allocator
begin

text \<open>
  \<^verbatim>\<open>include/nexus/core/memory_pool.hpp\<close>: the slab of order nodes with its intrusive free
  list. A pointer into the slab is the index of its slot; the free list lives in the slots
  themselves, so a slot is raw memory, a \<open>FreeNode\<close> or a constructed object. \<open>None\<close> is a
  failed assertion or the read of a free-list pointer from memory that holds none.
\<close>

section \<open>The pool and its operations\<close>

datatype 'a cell = Raw | FreeNode "nat option" | Object 'a

record 'a memory_pool =
  mp_capacity :: u64
  mp_slab :: "nat \<Rightarrow> 'a cell"
  mp_freelist_head :: "nat option"
  mp_allocated :: u64

definition mp_push_free :: "nat \<Rightarrow> 'a memory_pool \<Rightarrow> 'a memory_pool" where
  "mp_push_free slot st =
     st\<lparr>mp_slab := (mp_slab st)(slot := FreeNode (mp_freelist_head st)),
        mp_freelist_head := Some slot\<rparr>"

definition mp_pop_free :: "'a memory_pool \<Rightarrow> (nat \<times> 'a memory_pool) option" where
  "mp_pop_free st =
     (case mp_freelist_head st of
        None \<Rightarrow> None
      | Some node \<Rightarrow>
          (case mp_slab st node of
             FreeNode nx \<Rightarrow> Some (node, st\<lparr>mp_freelist_head := nx\<rparr>)
           | _ \<Rightarrow> None))"

text \<open>The constructor's loop \<open>for (i = capacity_; i-- > 0; )\<close>, on the value of \<open>i\<close>.\<close>

fun mp_init_loop :: "nat \<Rightarrow> 'a memory_pool \<Rightarrow> 'a memory_pool" where
  "mp_init_loop 0 st = st"
| "mp_init_loop (Suc i) st = mp_init_loop i (mp_push_free i st)"

text \<open>
  The bytes the constructor asks \<^verbatim>\<open>operator new\<close> for are computed in \<open>size_t\<close>; \<open>mp_new\<close> is the
  constructor when the product does not wrap and the slab holds every slot (\<open>slab_holds_slots\<close>).
\<close>

definition mp_slab_bytes :: "u64 \<Rightarrow> u64 \<Rightarrow> u64" where
  "mp_slab_bytes sizeof_T capacity = capacity * sizeof_T"

definition mp_new :: "u64 \<Rightarrow> 'a memory_pool" where
  "mp_new capacity = mp_init_loop (unat capacity)
     \<lparr>mp_capacity = capacity, mp_slab = (\<lambda>_. Raw), mp_freelist_head = None, mp_allocated = 0\<rparr>"

definition mp_allocate :: "'a \<Rightarrow> 'a memory_pool \<Rightarrow> (nat option \<times> 'a memory_pool) option" where
  "mp_allocate x st =
     (if mp_freelist_head st = None then Some (None, st)
      else (case mp_pop_free st of
              None \<Rightarrow> None
            | Some (slot, st1) \<Rightarrow>
                Some (Some slot, st1\<lparr>mp_slab := (mp_slab st1)(slot := Object x),
                                     mp_allocated := mp_allocated st1 + 1\<rparr>)))"

definition mp_owns :: "nat \<Rightarrow> 'a memory_pool \<Rightarrow> bool" where
  "mp_owns ptr st \<longleftrightarrow> ptr < unat (mp_capacity st)"

definition mp_deallocate :: "nat option \<Rightarrow> 'a memory_pool \<Rightarrow> 'a memory_pool option" where
  "mp_deallocate p st =
     (case p of
        None \<Rightarrow> Some st
      | Some ptr \<Rightarrow>
          if mp_owns ptr st
          then (let destroyed = st\<lparr>mp_slab := (mp_slab st)(ptr := Raw)\<rparr>;
                    freed = mp_push_free ptr destroyed
                in Some (freed\<lparr>mp_allocated := mp_allocated freed - 1\<rparr>))
          else None)"

definition mp_available :: "'a memory_pool \<Rightarrow> u64" where
  "mp_available st = mp_capacity st - mp_allocated st"

section \<open>The free list\<close>

fun free_chain :: "(nat \<Rightarrow> 'a cell) \<Rightarrow> nat option \<Rightarrow> nat list \<Rightarrow> bool" where
  "free_chain slab h [] \<longleftrightarrow> h = None"
| "free_chain slab h (f # fs) \<longleftrightarrow>
     h = Some f \<and> (\<exists>nx. slab f = FreeNode nx \<and> free_chain slab nx fs)"

lemma free_chain_cong:
  "(\<And>a. a \<in> set fs \<Longrightarrow> slab' a = slab a) \<Longrightarrow> free_chain slab' h fs = free_chain slab h fs"
  by (induction fs arbitrary: h) auto

lemma free_chain_upd [simp]:
  "a \<notin> set fs \<Longrightarrow> free_chain (slab(a := v)) h fs = free_chain slab h fs"
  by (rule free_chain_cong) auto

text \<open>
  The state of a pool of capacity \<open>c\<close> with free list \<open>fs\<close>: its slots are distinct and in the
  slab, and the counter accounts for the slots that are not free.
\<close>

definition pool_holds :: "u64 \<Rightarrow> 'a memory_pool \<Rightarrow> nat list \<Rightarrow> bool" where
  "pool_holds c st fs \<longleftrightarrow> mp_capacity st = c \<and>
     free_chain (mp_slab st) (mp_freelist_head st) fs \<and>
     distinct fs \<and> set fs \<subseteq> {..<unat c} \<and> unat (mp_allocated st) + length fs = unat c"

lemma free_slots_length:
  "distinct fs \<Longrightarrow> set fs \<subseteq> {..<n} \<Longrightarrow> a < n \<Longrightarrow> a \<notin> set fs \<Longrightarrow> length fs < n"
proof -
  assume fs: "distinct fs" "set fs \<subseteq> {..<n}" "a < n" "a \<notin> set fs"
  then have "card (insert a (set fs)) \<le> card {..<n}" by (intro card_mono) auto
  with fs show "length fs < n" by (simp add: distinct_card)
qed

lemma mp_init_loop_holds:
  "free_chain (mp_slab st) (mp_freelist_head st) fs \<Longrightarrow> set fs \<subseteq> {n..} \<Longrightarrow>
     free_chain (mp_slab (mp_init_loop n st)) (mp_freelist_head (mp_init_loop n st)) ([0..<n] @ fs) \<and>
     mp_capacity (mp_init_loop n st) = mp_capacity st \<and>
     mp_allocated (mp_init_loop n st) = mp_allocated st"
proof (induction n arbitrary: st fs)
  case (Suc n)
  have "n \<notin> set fs" using Suc.prems(2) by auto
  then have "free_chain (mp_slab (mp_push_free n st)) (mp_freelist_head (mp_push_free n st)) (n # fs)"
    using Suc.prems(1) by (simp add: mp_push_free_def)
  moreover have "set (n # fs) \<subseteq> {n..}" using Suc.prems(2) by (auto dest: subsetD)
  ultimately have "free_chain (mp_slab (mp_init_loop n (mp_push_free n st)))
      (mp_freelist_head (mp_init_loop n (mp_push_free n st))) ([0..<n] @ n # fs) \<and>
    mp_capacity (mp_init_loop n (mp_push_free n st)) = mp_capacity (mp_push_free n st) \<and>
    mp_allocated (mp_init_loop n (mp_push_free n st)) = mp_allocated (mp_push_free n st)"
    by (rule Suc.IH)
  then show ?case by (simp add: mp_push_free_def)
qed simp

lemma mp_new_holds: "pool_holds c (mp_new c) [0..<unat c]"
  using mp_init_loop_holds [of "\<lparr>mp_capacity = c, mp_slab = (\<lambda>_. Raw), mp_freelist_head = None,
    mp_allocated = 0\<rparr>" "[]" "unat c"]
  by (auto simp: pool_holds_def mp_new_def)

lemma mp_allocate_empty: "pool_holds c st [] \<Longrightarrow> mp_allocate x st = Some (None, st)"
  by (simp add: pool_holds_def mp_allocate_def)

lemma mp_allocate_holds:
  assumes "pool_holds c st (f # fs)"
  obtains st' where "mp_allocate x st = Some (Some f, st')" and "pool_holds c st' fs"
    and "mp_slab st' = (mp_slab st)(f := Object x)"
proof -
  from assms obtain nx where f: "mp_freelist_head st = Some f" "mp_slab st f = FreeNode nx"
    "free_chain (mp_slab st) nx fs" by (auto simp: pool_holds_def)
  have out: "f \<notin> set fs" using assms by (simp add: pool_holds_def)
  let ?st = "st\<lparr>mp_freelist_head := nx, mp_slab := (mp_slab st)(f := Object x),
    mp_allocated := mp_allocated st + 1\<rparr>"
  have run: "mp_allocate x st = Some (Some f, ?st)"
    by (simp add: mp_allocate_def mp_pop_free_def f)
  have "free_chain ((mp_slab st)(f := Object x)) nx fs"
    using f(3) out by simp
  moreover have "unat (mp_allocated st + 1) = Suc (unat (mp_allocated st))"
    using assms by (intro unat_Suc_less [of _ c]) (auto simp: pool_holds_def)
  ultimately have "pool_holds c ?st fs" using assms by (simp add: pool_holds_def)
  with run show thesis by (rule that) simp
qed

lemma mp_deallocate_holds:
  assumes "pool_holds c st fs" and "a < unat c" and "a \<notin> set fs"
  obtains st' where "mp_deallocate (Some a) st = Some st'" and "pool_holds c st' (a # fs)"
    and "\<And>d. d \<noteq> a \<Longrightarrow> mp_slab st' d = mp_slab st d"
proof -
  let ?slab = "(mp_slab st)(a := FreeNode (mp_freelist_head st))"
  let ?st = "st\<lparr>mp_slab := ?slab, mp_freelist_head := Some a, mp_allocated := mp_allocated st - 1\<rparr>"
  have run: "mp_deallocate (Some a) st = Some ?st"
    using assms by (simp add: mp_deallocate_def mp_owns_def mp_push_free_def pool_holds_def)
  have len: "length fs < unat c"
    using assms by (intro free_slots_length [of fs _ a]) (auto simp: pool_holds_def)
  have "free_chain ?slab (mp_freelist_head st) fs"
    using assms by (simp add: pool_holds_def)
  moreover have "unat (mp_allocated st - 1) + 1 = unat (mp_allocated st)"
    using assms(1) len by (subst unat_diff) (auto simp: pool_holds_def word_le_nat_alt)
  ultimately have "pool_holds c ?st (a # fs)"
    using assms by (simp add: pool_holds_def)
  with run show thesis by (rule that) simp
qed

interpretation pool: slot_allocator "{..<unat c}" "pool_holds c" "mp_allocate x"
  "\<lambda>a. mp_deallocate (Some a)" for c x
proof
  fix st :: "'a memory_pool" and f fs
  assume "pool_holds c st (f # fs)"
  then show "\<exists>st'. mp_allocate x st = Some (Some f, st') \<and> pool_holds c st' fs"
    by (rule mp_allocate_holds) blast
next
  fix st :: "'a memory_pool" and fs a
  assume "pool_holds c st fs" "a \<in> {..<unat c}" "a \<notin> set fs"
  then show "\<exists>st'. mp_deallocate (Some a) st = Some st' \<and> pool_holds c st' (a # fs)"
    by (auto elim: mp_deallocate_holds)
qed (rule mp_allocate_empty)

section \<open>Properties\<close>

text \<open>
  (C17) No slot is handed out twice: whatever sequence of allocations and deallocations of its
  own slots a client of a fresh pool makes, no operation fails, the slots it holds are
  distinct and inside the slab, and \<open>available\<close> counts exactly the others.
\<close>

theorem memory_pool_never_aliases:
  "\<exists>own st. client_run (mp_allocate x) (\<lambda>a. mp_deallocate (Some a)) ops ([], mp_new c) = Some (own, st) \<and>
     distinct own \<and> set own \<subseteq> {..<unat c} \<and> unat (mp_available st) + length own = unat c"
proof -
  have "pool.split_slots c [] [0..<unat c]" by (auto simp: pool.split_slots_def)
  from pool.client_ownership [OF mp_new_holds this, of x ops] obtain own st fs where
    run: "client_run (mp_allocate x) (\<lambda>a. mp_deallocate (Some a)) ops ([], mp_new c) = Some (own, st)"
    and holds: "pool_holds c st fs" and split: "pool.split_slots c own fs" by blast
  have "unat (mp_available st) = length fs"
    using holds unat_diff [of "mp_allocated st" c]
    by (auto simp: pool_holds_def mp_available_def word_le_nat_alt)
  moreover have "length own + length fs = unat c"
    using split distinct_card [of "own @ fs"] by (simp add: pool.split_slots_def)
  ultimately show ?thesis using run split by (auto simp: pool.split_slots_def)
qed

text \<open>
  A fresh pool serves exactly its capacity: the allocations return slots 0, 1, 2 and so
  on, and the next one after the last slot returns the null pointer and changes nothing.
\<close>

lemma memory_pool_exhaustion:
  "\<exists>st. client_run (mp_allocate x) (\<lambda>a. mp_deallocate (Some a)) (replicate (unat c) Take) ([], mp_new c) =
     Some (rev [0..<unat c], st) \<and> mp_allocate y st = Some (None, st)"
  using pool.take_all [OF mp_new_holds [of c], of x "[]"] mp_allocate_empty [of c _ y]
  by (fastforce simp: length_upt)

text \<open>
  Allocating constructs the object in the slot it returns and deallocating frees only
  its slot: the objects in the other slots are untouched, and the slot deallocated last is
  the next to be reused.
\<close>

lemma memory_pool_lifo_frame:
  assumes "pool_holds c st fs" and "a < unat c" and "a \<notin> set fs"
  shows "\<exists>st1 st2. mp_deallocate (Some a) st = Some st1 \<and> mp_allocate x st1 = Some (Some a, st2) \<and>
     mp_slab st2 = (mp_slab st)(a := Object x) \<and> pool_holds c st2 fs"
proof -
  obtain st1 where one: "mp_deallocate (Some a) st = Some st1" "pool_holds c st1 (a # fs)"
    "\<And>d. d \<noteq> a \<Longrightarrow> mp_slab st1 d = mp_slab st d"
    by (rule mp_deallocate_holds [OF assms]) blast
  obtain st2 where "mp_allocate x st1 = Some (Some a, st2)" "pool_holds c st2 fs"
    "mp_slab st2 = (mp_slab st1)(a := Object x)"
    by (rule mp_allocate_holds [OF one(2)]) blast
  with one show ?thesis by (auto simp: fun_eq_iff)
qed

lemma memory_pool_lifo_frame_witness:
  "\<exists>st st1 st2. mp_allocate True (mp_new 2) = Some (Some 0, st) \<and>
     mp_deallocate (Some 0) st = Some st1 \<and> mp_allocate False st1 = Some (Some 0, st2)"
proof -
  have "pool_holds 2 (mp_new 2 :: bool memory_pool) (0 # [1])"
    using mp_new_holds [of 2] by (simp add: upt_rec)
  then obtain st where st: "mp_allocate True (mp_new 2) = Some (Some 0, st)" "pool_holds 2 st [1]"
    by (rule mp_allocate_holds)
  with memory_pool_lifo_frame [OF st(2), of 0 False] show ?thesis by auto
qed

text \<open>
  A double free is not detected and breaks the pool: the slot it freed twice is handed
  out and is at the same time still the head of the free list, so the following allocation
  reads the live object as a free-list link.
\<close>

lemma memory_pool_double_free:
  assumes "mp_owns a st"
  shows "\<exists>st1 st2 st3. mp_deallocate (Some a) st = Some st1 \<and> mp_deallocate (Some a) st1 = Some st2 \<and>
     mp_allocate x st2 = Some (Some a, st3) \<and> mp_slab st3 a = Object x \<and>
     mp_freelist_head st3 = Some a \<and> mp_allocate y st3 = None"
  using assms by (simp add: mp_deallocate_def mp_owns_def mp_push_free_def mp_allocate_def mp_pop_free_def)

theorem memory_pool_double_free_witness:
  "\<exists>st1 st2 st3. mp_deallocate (Some 1) (mp_new 2) = Some st1 \<and>
     mp_deallocate (Some 1) st1 = Some st2 \<and> mp_allocate True st2 = Some (Some 1, st3) \<and>
     mp_allocate False st3 = None"
proof -
  have "mp_owns 1 (mp_new 2 :: bool memory_pool)"
    using mp_new_holds [of 2, where 'a = bool] unfolding mp_owns_def pool_holds_def by simp
  from memory_pool_double_free [OF this, of True False] show ?thesis by blast
qed

section \<open>The slab\<close>

text \<open>
  Without wrap-around every slot lies in the slab. Nothing checks it: for a capacity of \<open>2 ^ 58\<close>
  nodes of 64 bytes the slab asked for is empty, and the constructor writes all its links past it.
\<close>

lemma slab_holds_slots:
  assumes "unat capacity * unat sizeof_T < 2 ^ 64" and "slot < unat capacity"
  shows "(slot + 1) * unat sizeof_T \<le> unat (mp_slab_bytes sizeof_T capacity)"
proof -
  have "(slot + 1) * unat sizeof_T \<le> unat capacity * unat sizeof_T"
    using assms(2) by (intro mult_le_mono1) simp
  then show ?thesis using unat_mult_exact [of capacity sizeof_T] assms(1) by (simp add: mp_slab_bytes_def)
qed

lemma slab_size_wraps: "mp_slab_bytes 64 (2 ^ 58) = 0"
  by (simp add: mp_slab_bytes_def)

end
