(* ===== verification/Exchange.thy ===== *)
theory Exchange
  imports Engine_Properties Memory_Pool
begin

text \<open>
  The command loop of \<^verbatim>\<open>src/main.cpp\<close> over the engine and the node pool, from the point where
  a line has been parsed: \<open>CLEAR\<close>, or an order with its side, its price in cents and its
  quantity. A node lives in the slot of the pool that holds it, so the node heap is indexed
  by slots; \<open>Object ()\<close> marks a slot whose node is in use. \<open>None\<close> is a failing operation of
  the pool or the engine.
\<close>

section \<open>The loop\<close>

datatype command = Clear | Order Side Price Quantity

datatype reply =
    BookLine "(Price \<times> Quantity) list" "(Price \<times> Quantity) list"
  | TradeLine Price Quantity
  | ClearAck
  | ErrPoolExhausted

record exchange =
  xc_pool :: "unit memory_pool"
  xc_book :: OrderBook
  xc_mem :: mem
  xc_next_id :: OrderId

definition POOL_CAPACITY :: u64 where
  "POOL_CAPACITY = 1000000"

text \<open>The pool of \<open>main\<close> fits: its slab has room for every node of 64 bytes.\<close>

lemma main_slab:
  "slot < unat POOL_CAPACITY \<Longrightarrow> (slot + 1) * 64 \<le> unat (mp_slab_bytes 64 POOL_CAPACITY)"
  using slab_holds_slots [of POOL_CAPACITY 64 slot] by (simp add: POOL_CAPACITY_def)

text \<open>The start of \<open>main\<close>, and \<open>CLEAR\<close>: what was in the old slab does not matter.\<close>

definition exchange_new :: "u64 \<Rightarrow> mem \<Rightarrow> exchange" where
  "exchange_new capacity m =
     \<lparr>xc_pool = mp_new capacity, xc_book = OrderBook_new, xc_mem = m, xc_next_id = 1\<rparr>"

definition book_line :: "levels \<Rightarrow> (Price \<times> Quantity) list" where
  "book_line lm = map (\<lambda>(price, lvl). (price, total_volume lvl)) (take 10 lm)"

definition print_book :: "OrderBook \<Rightarrow> reply" where
  "print_book b = BookLine (book_line (bids b)) (book_line (asks b))"

fun exchange_step :: "u64 \<Rightarrow> command \<Rightarrow> exchange \<Rightarrow> (reply list \<times> exchange) option" where
  "exchange_step capacity Clear x =
     (let x' = exchange_new capacity (xc_mem x)
      in Some ([print_book (xc_book x'), ClearAck], x'))"
| "exchange_step capacity (Order side price qty) x =
     (case mp_allocate () (xc_pool x) of
        None \<Rightarrow> None
      | Some (None, pool') \<Rightarrow> Some ([ErrPoolExhausted], x\<lparr>xc_pool := pool'\<rparr>)
      | Some (Some order, pool') \<Rightarrow>
          (let m = (xc_mem x)(order := OrderNode_of (xc_next_id x) price qty side)
           in (case process_limit_order order (xc_book x, m) of
                 None \<Rightarrow> None
               | Some (trades, b', m') \<Rightarrow>
                   Some (map (\<lambda>t. TradeLine (trade_price t) (trade_qty t)) (sv_contents trades) @
                           [print_book b'],
                         \<lparr>xc_pool = pool', xc_book = b', xc_mem = m',
                          xc_next_id = xc_next_id x + 1\<rparr>))))"

declare exchange_step.simps(2) [simp del]

fun exchange_run :: "u64 \<Rightarrow> command list \<Rightarrow> exchange \<Rightarrow> (reply list \<times> exchange) option" where
  "exchange_run capacity [] x = Some ([], x)"
| "exchange_run capacity (c # cs) x =
     (case exchange_step capacity c x of
        None \<Rightarrow> None
      | Some (out, x1) \<Rightarrow>
          map_option (\<lambda>(outs, x2). (out @ outs, x2)) (exchange_run capacity cs x1))"

section \<open>The invariant\<close>

text \<open>The engine's state is reachable, and no free slot of the pool holds a resting order.\<close>

definition exchange_inv :: "u64 \<Rightarrow> nat list \<Rightarrow> exchange \<Rightarrow> bool" where
  "exchange_inv c fs x \<longleftrightarrow> engine_reach (xc_book x, xc_mem x) \<and> pool_holds c (xc_pool x) fs \<and>
     (\<forall>a \<in> set fs. \<not> resting_in (xc_book x, xc_mem x) a)"

lemma exchange_inv_new: "exchange_inv c [0..<unat c] (exchange_new c m)"
  by (simp add: exchange_inv_def exchange_new_def engine_reach.start mp_new_holds resting_in_new)

lemma order_step_empty:
  assumes "exchange_inv c [] x"
  shows "exchange_step c (Order s p q) x = Some ([ErrPoolExhausted], x)"
  using assms mp_allocate_empty [of c "xc_pool x" "()"]
  by (simp add: exchange_inv_def exchange_step.simps(2))

lemma order_step_free:
  assumes inv: "exchange_inv c (f # fs) x"
  obtains ts b' m' x' where
    "process_limit_order f (xc_book x, (xc_mem x)(f := OrderNode_of (xc_next_id x) p q s)) =
       Some (ts, b', m')"
    and "exchange_step c (Order s p q) x =
      Some (map (\<lambda>t. TradeLine (trade_price t) (trade_qty t)) (sv_contents ts) @ [print_book b'], x')"
    and "exchange_inv c fs x'" and "xc_book x' = b'" and "xc_mem x' = m'"
    and "xc_next_id x' = xc_next_id x + 1"
proof -
  have pool: "pool_holds c (xc_pool x) (f # fs)" and reach: "engine_reach (xc_book x, xc_mem x)"
    and fresh: "\<not> resting_in (xc_book x, xc_mem x) f"
    and others: "\<forall>a \<in> set fs. \<not> resting_in (xc_book x, xc_mem x) a"
    using inv by (simp_all add: exchange_inv_def)
  obtain pool' where alloc: "mp_allocate () (xc_pool x) = Some (Some f, pool')" "pool_holds c pool' fs"
    by (rule mp_allocate_holds [OF pool]) blast
  obtain ts b' m' where
    run: "process_limit_order f (xc_book x, (xc_mem x)(f := OrderNode_of (xc_next_id x) p q s)) =
       Some (ts, b', m')"
    and reach': "engine_reach (b', m')"
    and sub: "\<And>a. resting_in (b', m') a \<Longrightarrow> resting_in (xc_book x, xc_mem x) a \<or> a = f"
    by (rule reach_submit [OF reach fresh]) blast
  let ?x = "\<lparr>xc_pool = pool', xc_book = b', xc_mem = m', xc_next_id = xc_next_id x + 1\<rparr>"
  have "f \<notin> set fs" using pool by (simp add: pool_holds_def)
  then have inv': "exchange_inv c fs ?x"
    using reach' alloc(2) sub others by (auto simp: exchange_inv_def)
  have step: "exchange_step c (Order s p q) x =
      Some (map (\<lambda>t. TradeLine (trade_price t) (trade_qty t)) (sv_contents ts) @ [print_book b'], ?x)"
    using alloc(1) run by (simp add: exchange_step.simps(2))
  show thesis by (rule that [OF run step inv']) simp_all
qed

lemma exchange_step_inv:
  assumes inv: "exchange_inv c fs x"
  obtains out x' fs' where "exchange_step c cmd x = Some (out, x')" and "exchange_inv c fs' x'"
    and "print_book (xc_book x') \<in> set out \<or> x' = x"
    and "\<And>bs as. BookLine bs as \<in> set out \<Longrightarrow> BookLine bs as = print_book (xc_book x')"
proof (cases cmd)
  case Clear
  then show thesis
    using exchange_inv_new [of c "xc_mem x"]
    by (intro that [of "[print_book (xc_book (exchange_new c (xc_mem x))), ClearAck]"
          "exchange_new c (xc_mem x)" "[0..<unat c]"]) (auto simp: Let_def)
next
  case (Order s p q)
  show thesis
  proof (cases fs)
    case Nil
    with order_step_empty inv Order show thesis
      by (intro that [of "[ErrPoolExhausted]" x "[]"]) auto
  next
    case (Cons f fs')
    with inv have "exchange_inv c (f # fs') x" by simp
    then show thesis
    proof (rule order_step_free [of c f fs' x p q s])
      fix ts b' m' x'
      assume "exchange_step c (Order s p q) x =
          Some (map (\<lambda>t. TradeLine (trade_price t) (trade_qty t)) (sv_contents ts) @ [print_book b'], x')"
        "exchange_inv c fs' x'" "xc_book x' = b'"
      with Order show thesis
        by (intro that [of "map (\<lambda>t. TradeLine (trade_price t) (trade_qty t)) (sv_contents ts) @
              [print_book b']" x' fs']) auto
    qed
  qed
qed

lemma exchange_run_inv:
  "exchange_inv c fs x \<Longrightarrow> \<exists>outs x' fs'. exchange_run c cmds x = Some (outs, x') \<and>
     exchange_inv c fs' x' \<and>
     (\<forall>bs as. BookLine bs as \<in> set outs \<longrightarrow>
        (\<exists>b m. engine_reach (b, m) \<and> BookLine bs as = print_book b))"
proof (induction cmds arbitrary: x fs)
  case (Cons cmd cmds)
  obtain out x1 fs1 where one: "exchange_step c cmd x = Some (out, x1)" "exchange_inv c fs1 x1"
    "\<And>bs as. BookLine bs as \<in> set out \<Longrightarrow> BookLine bs as = print_book (xc_book x1)"
    by (rule exchange_step_inv [OF Cons.prems]) blast
  obtain outs x2 fs2 where rest: "exchange_run c cmds x1 = Some (outs, x2)" "exchange_inv c fs2 x2"
    "\<forall>bs as. BookLine bs as \<in> set outs \<longrightarrow>
        (\<exists>b m. engine_reach (b, m) \<and> BookLine bs as = print_book b)"
    using Cons.IH [OF one(2)] by blast
  have "engine_reach (xc_book x1, xc_mem x1)" using one(2) by (simp add: exchange_inv_def)
  then have "\<exists>b m. engine_reach (b, m) \<and> BookLine bs as = print_book b"
    if "BookLine bs as \<in> set (out @ outs)" for bs as
    using that one(3) rest(3) by fastforce
  moreover have "exchange_run c (cmd # cmds) x = Some (out @ outs, x2)"
    using one(1) rest(1) by simp
  ultimately show ?case using rest(2) by blast
qed auto

lemma print_book_ok:
  assumes reach: "engine_reach (b, m)" and pr: "BookLine bs as = print_book b"
  shows "length bs \<le> 10 \<and> length as \<le> 10 \<and> sorted_wrt (\<lambda>x y. fst y < fst x) bs \<and>
    sorted_wrt (\<lambda>x y. fst x < fst y) as \<and>
    (bs \<noteq> [] \<longrightarrow> as \<noteq> [] \<longrightarrow> fst (hd bs) < fst (hd as))"
proof -
  have bs: "bs = book_line (book_side Buy b)" and as: "as = book_line (book_side Sell b)"
    using pr by (simp_all add: print_book_def)
  obtain N where rel: "book_rel m b N" by (rule reach_rel [OF reach]) blast
  then have side: "side_rel m s (book_side s b) (N s)" for s by (simp add: book_rel_def)
  have "sorted_wrt (\<lambda>x y. side_cmp s (fst x) (fst y)) (book_line (book_side s b))" for s
  proof -
    have "sorted_wrt (\<lambda>x y. side_cmp s (fst x) (fst y)) (book_side s b)"
      using side [of s] by (simp add: side_rel_def keys_of_def sorted_wrt_map)
    then have "sorted_wrt (\<lambda>x y. side_cmp s (fst x) (fst y)) (take 10 (book_side s b))"
      by (rule sorted_wrt_take)
    then show ?thesis by (simp add: book_line_def sorted_wrt_map case_prod_unfold)
  qed
  from this [of Buy] this [of Sell]
  have srt: "sorted_wrt (\<lambda>x y. fst y < fst x) bs" "sorted_wrt (\<lambda>x y. fst x < fst y) as"
    by (simp_all add: bs as)
  have best: "\<exists>l. best_level s b = Some l \<and> fst (hd (book_line (book_side s b))) = lvl_price l"
    if ne: "book_line (book_side s b) \<noteq> []" for s
  proof -
    obtain k l lm where lm: "book_side s b = (k, l) # lm"
      using ne by (cases "book_side s b") (auto simp: book_line_def)
    then have "level_rel m s k l (N s k)" using side_rel_level [OF side [of s], of k l] by simp
    then have "lvl_price l = k" unfolding level_rel_def by blast
    with lm show ?thesis by (simp add: best_level_begin book_line_def)
  qed
  have "fst (hd bs) < fst (hd as)" if ne: "bs \<noteq> []" "as \<noteq> []"
  proof -
    obtain bid where bid: "best_level Buy b = Some bid" "fst (hd bs) = lvl_price bid"
      using best [of Buy] ne(1) unfolding bs by blast
    obtain ask where ask: "best_level Sell b = Some ask" "fst (hd as) = lvl_price ask"
      using best [of Sell] ne(2) unfolding as by blast
    show ?thesis using reach_uncrossed [OF reach, of bid ask] bid ask by simp
  qed
  with srt show ?thesis by (simp add: bs as book_line_def)
qed

section \<open>Properties\<close>

text \<open>
  (C4) The command loop never fails: whatever commands arrive, every pool operation and every
  engine call of the session succeeds, and the state it leaves is again a reachable engine
  state whose resting orders all live in allocated slots.
\<close>

theorem exchange_never_fails:
  "\<exists>outs x fs. exchange_run c cmds (exchange_new c m) = Some (outs, x) \<and>
     engine_reach (xc_book x, xc_mem x) \<and> pool_holds c (xc_pool x) fs \<and>
     (\<forall>a \<in> set fs. \<not> resting_in (xc_book x, xc_mem x) a)"
  using exchange_run_inv [OF exchange_inv_new, of c cmds m] by (auto simp: exchange_inv_def)

theorem exchange_never_fails_witness:
  "\<exists>outs x. exchange_run 4 [Order Buy 100 5, Order Sell 99 2, Clear] (exchange_new 4 quiet_mem) =
     Some (outs, x)"
  using exchange_never_fails [of 4 "[Order Buy 100 5, Order Sell 99 2, Clear]" quiet_mem] by blast

text \<open>
  Every book the loop prints is well formed: at most ten levels a side, bids strictly
  falling, asks strictly rising, and the first bid below the first ask.
\<close>

lemma exchange_prints_uncrossed_books:
  assumes "exchange_run c cmds (exchange_new c m) = Some (outs, x)" and "BookLine bs as \<in> set outs"
  shows "length bs \<le> 10 \<and> length as \<le> 10 \<and> sorted_wrt (\<lambda>x y. fst y < fst x) bs \<and>
    sorted_wrt (\<lambda>x y. fst x < fst y) as \<and>
    (bs \<noteq> [] \<longrightarrow> as \<noteq> [] \<longrightarrow> fst (hd bs) < fst (hd as))"
proof -
  obtain b m' where "engine_reach (b, m')" "BookLine bs as = print_book b"
    using exchange_run_inv [OF exchange_inv_new, of c cmds m] assms by fastforce
  then show ?thesis by (rule print_book_ok)
qed

theorem exchange_prints_uncrossed_books_witness:
  "\<exists>bs as outs x. exchange_run 4 [Order Buy 100 5] (exchange_new 4 quiet_mem) = Some (outs, x) \<and>
     BookLine bs as \<in> set outs \<and> length bs \<le> 10 \<and> length as \<le> 10"
proof -
  have "exchange_inv 4 (0 # [1..<4]) (exchange_new 4 quiet_mem)"
    using exchange_inv_new [of 4 quiet_mem] upt_conv_Cons [of 0 4] by simp
  then obtain ts :: "Trade small_vector" and b' x' where "exchange_step 4 (Order Buy 100 5) (exchange_new 4 quiet_mem) =
      Some (map (\<lambda>t. TradeLine (trade_price t) (trade_qty t)) (sv_contents ts) @ [print_book b'], x')"
    by (rule order_step_free [where s = Buy and p = 100 and q = 5]) blast
  then have run: "exchange_run 4 [Order Buy 100 5] (exchange_new 4 quiet_mem) =
      Some (map (\<lambda>t. TradeLine (trade_price t) (trade_qty t)) (sv_contents ts) @ [print_book b'], x')"
    by simp
  obtain bs as where pr: "print_book b' = BookLine bs as" by (simp add: print_book_def)
  have "BookLine bs as \<in> set (map (\<lambda>t. TradeLine (trade_price t) (trade_qty t)) (sv_contents ts) @
      [print_book b'])" by (simp add: pr)
  from exchange_prints_uncrossed_books [OF run this] this run show ?thesis by blast
qed

fun is_order :: "command \<Rightarrow> bool" where
  "is_order Clear = False"
| "is_order (Order s p q) = True"

lemma exchange_run_exhausts:
  "exchange_inv c fs x \<Longrightarrow> \<forall>cmd \<in> set cmds. is_order cmd \<Longrightarrow>
     \<exists>outs x'. exchange_run c cmds x = Some (outs, x') \<and>
       length (filter ((=) ErrPoolExhausted) outs) = length cmds - length fs \<and>
       xc_next_id x' = xc_next_id x + word_of_nat (min (length cmds) (length fs))"
proof (induction cmds arbitrary: x fs)
  case (Cons cmd cmds)
  obtain s p q where cmd: "cmd = Order s p q" using Cons.prems(2) by (cases cmd) auto
  show ?case
  proof (cases fs)
    case Nil
    then have "exchange_inv c [] x" using Cons.prems(1) by simp
    then obtain outs x' where "exchange_run c cmds x = Some (outs, x')"
      "length (filter ((=) ErrPoolExhausted) outs) = length cmds" "xc_next_id x' = xc_next_id x"
      using Cons.IH [of "[]" x] Cons.prems(2) by auto
    with order_step_empty [OF \<open>exchange_inv c [] x\<close>] Nil cmd show ?thesis by simp
  next
    case (Cons f fs')
    then have "exchange_inv c (f # fs') x" using Cons.prems(1) by simp
    then show ?thesis
    proof (rule order_step_free [of c f fs' x p q s])
      fix ts b' m' x'
      assume step: "exchange_step c (Order s p q) x =
          Some (map (\<lambda>t. TradeLine (trade_price t) (trade_qty t)) (sv_contents ts) @ [print_book b'], x')"
        and inv': "exchange_inv c fs' x'" and nid: "xc_next_id x' = xc_next_id x + 1"
      obtain outs x2 where "exchange_run c cmds x' = Some (outs, x2)"
        "length (filter ((=) ErrPoolExhausted) outs) = length cmds - length fs'"
        "xc_next_id x2 = xc_next_id x' + word_of_nat (min (length cmds) (length fs'))"
        using Cons.IH [OF inv'] Cons.prems(2) by auto
      moreover have "ErrPoolExhausted \<noteq> print_book b'" by (simp add: print_book_def)
      moreover have "filter ((=) ErrPoolExhausted)
          (map (\<lambda>t. TradeLine (trade_price t) (trade_qty t)) (sv_contents ts) @ [print_book b']) = []"
        by (simp add: filter_map comp_def print_book_def)
      ultimately show ?thesis using step nid Cons cmd by simp
    qed
  qed
qed simp

text \<open>
  (C31) The loop never gives a node back, so the pool is spent by accepted orders and not by
  resting ones: without \<open>CLEAR\<close> the session accepts exactly as many orders as the pool has
  slots, and answers every later one with the exhaustion error, whatever has traded.
\<close>

theorem exchange_exhausts_pool:
  assumes "\<forall>cmd \<in> set cmds. is_order cmd"
  shows "\<exists>outs x. exchange_run c cmds (exchange_new c m) = Some (outs, x) \<and>
    length (filter ((=) ErrPoolExhausted) outs) = length cmds - unat c \<and>
    xc_next_id x = 1 + word_of_nat (min (length cmds) (unat c))"
  using exchange_run_exhausts [OF exchange_inv_new assms, of c m] by (simp add: exchange_new_def)

theorem exchange_exhausts_pool_witness:
  "\<exists>outs x. exchange_run 1 [Order Buy 100 5, Order Sell 100 5] (exchange_new 1 quiet_mem) =
     Some (outs, x) \<and> length (filter ((=) ErrPoolExhausted) outs) = 1"
  using exchange_exhausts_pool [of "[Order Buy 100 5, Order Sell 100 5]" 1 quiet_mem] by auto

section \<open>Conservation over a session\<close>

fun traded_qty :: "reply \<Rightarrow> Quantity" where
  "traded_qty (TradeLine p q) = q"
| "traded_qty _ = 0"

fun order_qty :: "command \<Rightarrow> Quantity" where
  "order_qty Clear = 0"
| "order_qty (Order s p q) = q"

definition word_total :: "u64 list \<Rightarrow> nat" where
  "word_total qs = sum_list (map unat qs)"

text \<open>The cached volumes of all levels, and what a line that displays the book adds up to.\<close>

definition book_total :: "OrderBook \<Rightarrow> nat" where
  "book_total b = word_total (map (\<lambda>(_, lvl). total_volume lvl) (bids b @ asks b))"

definition book_volume :: "OrderBook \<Rightarrow> Quantity" where
  "book_volume b = side_volume (bids b) + side_volume (asks b)"

fun displayed_total :: "reply \<Rightarrow> nat" where
  "displayed_total (BookLine bs as) = word_total (map snd (bs @ as))"
| "displayed_total _ = 0"

lemma word_total_simps [simp]:
  "word_total [] = 0" "word_total (q # qs) = unat q + word_total qs"
  "word_total (xs @ ys) = word_total xs + word_total ys"
  by (simp_all add: word_total_def)

lemma word_total_mod: "sum_list qs = of_nat (word_total qs)"
  by (induction qs) simp_all

lemma word_total_small:
  assumes "word_total qs < 2 ^ 64" shows "unat (sum_list qs) = word_total qs"
  using assms by (simp add: word_total_mod unat_of_nat)

lemma word_total_concat: "word_total (concat qss) = sum_list (map word_total qss)"
  by (induction qss) simp_all

text \<open>
  Every level displayed is there with its volume, so at most ten levels a side hide nothing and
  more can only hide volume.
\<close>

lemma displayed_total_le: "displayed_total (print_book b) \<le> book_total b"
proof -
  have "word_total (map snd (book_line lm)) \<le> word_total (map (\<lambda>(_, lvl). total_volume lvl) lm)" for lm
  proof -
    let ?v = "\<lambda>lm. map (\<lambda>(_, lvl). total_volume lvl) lm"
    have "map snd (book_line lm) = ?v (take 10 lm)" by (simp add: book_line_def comp_def case_prod_unfold)
    moreover have "?v lm = ?v (take 10 lm) @ ?v (drop 10 lm)" by (simp flip: map_append)
    ultimately show ?thesis by simp
  qed
  from add_mono [OF this [of "bids b"] this [of "asks b"]] show ?thesis
    by (simp add: print_book_def book_total_def)
qed

lemma displayed_total_all:
  "length (bids b) \<le> 10 \<Longrightarrow> length (asks b) \<le> 10 \<Longrightarrow> displayed_total (print_book b) = book_total b"
  by (simp add: print_book_def book_total_def book_line_def comp_def case_prod_unfold)

subsection \<open>The orders behind the volumes\<close>

definition queue_total :: "resting list \<Rightarrow> nat" where
  "queue_total rs = word_total (map r_qty rs)"

definition resting_total :: "mem \<Rightarrow> OrderBook \<Rightarrow> queues \<Rightarrow> nat" where
  "resting_total m b N = queue_total (side_queue m b N Buy) + queue_total (side_queue m b N Sell)"

lemma resting_total_sides:
  "resting_total m b N = queue_total (side_queue m b N s) + queue_total (side_queue m b N (opposite s))"
  by (cases s) (simp_all add: resting_total_def)

lemma queue_total_fill:
  assumes "spec_fill ok t q rs = (ts, q', rs')"
  shows "word_total (map trade_qty ts) + unat q' = unat q"
    and "word_total (map trade_qty ts) + queue_total rs' = queue_total rs"
  using spec_fill_quantity [OF assms] spec_fill_resting_quantity [OF assms]
  by (simp_all add: word_total_def queue_total_def comp_def)

lemma queue_total_insert: "queue_total (spec_insert s r rs) = unat (r_qty r) + queue_total rs"
proof -
  let ?P = "\<lambda>x. \<not> side_cmp s (r_price r) (r_price x)"
  have "queue_total rs = queue_total (takeWhile ?P rs) + queue_total (dropWhile ?P rs)"
    unfolding queue_total_def by (metis map_append takeWhile_dropWhile_id word_total_simps(3))
  then show ?thesis by (simp add: spec_insert_def queue_total_def)
qed

text \<open>The volumes are the orders modulo \<open>2 ^ 64\<close>, and exactly them while nothing wraps.\<close>

lemma book_volume_total: "book_rel m b N \<Longrightarrow> book_volume b = of_nat (resting_total m b N)"
  using side_volume_queue [of m b N Buy] side_volume_queue [of m b N Sell]
  by (simp add: book_volume_def resting_total_def queue_total_def word_total_mod)

lemma level_total:
  assumes "level_rel m s p lvl xs" and "word_total (map (\<lambda>a. on_qty (m a)) xs) < 2 ^ 64"
  shows "unat (total_volume lvl) = word_total (map (\<lambda>a. on_qty (m a)) xs)"
  using assms word_total_small by (simp add: level_rel_def)

lemma side_total:
  assumes rel: "book_rel m b N" and small: "queue_total (side_queue m b N s) < 2 ^ 64"
  shows "word_total (map (\<lambda>(_, lvl). total_volume lvl) (book_side s b)) = queue_total (side_queue m b N s)"
proof -
  have side: "side_rel m s (book_side s b) (N s)" using rel by (simp add: book_rel_def)
  let ?q = "\<lambda>k. word_total (map (\<lambda>a. on_qty (m a)) (N s k))"
  have q: "queue_total (side_queue m b N s) = sum_list (map ?q (keys_of (book_side s b)))"
    by (simp add: queue_total_def side_queue_def comp_def map_concat word_total_concat)
  have "unat (total_volume l) = ?q k" if kl: "(k, l) \<in> set (book_side s b)" for k l
  proof (rule level_total)
    have "map_find k (book_side s b) = Some l"
      using side_rel_keys_distinct [OF side] kl by (rule find_entry)
    from side_rel_level [OF side this] show "level_rel m s k l (N s k)" .
    have "?q k \<le> sum_list (map ?q (keys_of (book_side s b)))"
      using kl by (intro member_le_sum_list) (auto simp: keys_of_def image_iff intro!: bexI [of _ "(k, l)"])
    with small show "?q k < 2 ^ 64" by (simp add: q)
  qed
  then show ?thesis unfolding q
    by (auto simp: word_total_def keys_of_def comp_def intro!: arg_cong [of _ _ sum_list] map_cong)
qed

lemma book_total_exact:
  assumes "book_rel m b N" and "resting_total m b N < 2 ^ 64"
  shows "book_total b = resting_total m b N"
  using side_total [OF assms(1), of Buy] side_total [OF assms(1), of Sell] assms(2)
  by (simp add: book_total_def resting_total_def)

subsection \<open>A session\<close>

lemma submit_total:
  assumes "engine_reach (b, m)" and "\<not> resting_in (b, m) a"
    and "process_limit_order a (b, m(a := OrderNode_of i p q s)) = Some (ts, b', m')"
    and rel: "book_rel m b N"
  obtains N' where "book_rel m' b' N'"
    and "resting_total m' b' N' + 2 * word_total (map trade_qty (sv_contents ts)) =
      resting_total m b N + unat q"
proof (rule submit_facts [OF assms(1-3)])
  fix M N' own opp
  assume M: "book_rel m b M" and N': "book_rel m' b' N'"
    and q: "own = side_queue m b M s" "opp = side_queue m b M (opposite s)"
    and fill: "spec_fill (acceptable s p) i q opp =
      (sv_contents ts, on_qty (m' a), side_queue m' b' N' (opposite s))"
    and own': "side_queue m' b' N' s = (if on_qty (m' a) = 0 then own else spec_insert s
      \<lparr>r_ref = a, r_id = i, r_price = p, r_qty = on_qty (m' a)\<rparr> own)"
  have "M = N" by (rule book_rel_unique [OF M rel])
  moreover have "queue_total (side_queue m' b' N' s) = queue_total own + unat (on_qty (m' a))"
    using own' by (cases "on_qty (m' a) = 0") (simp_all add: queue_total_insert)
  ultimately show thesis
    using queue_total_fill [OF fill] q N' by (intro that [of N']) (simp_all add: resting_total_sides [of _ _ _ s])
qed

lemma exchange_run_total:
  "exchange_inv c fs x \<Longrightarrow> \<forall>cmd \<in> set cmds. is_order cmd \<Longrightarrow> book_rel (xc_mem x) (xc_book x) N \<Longrightarrow>
     \<exists>outs x' N'. exchange_run c cmds x = Some (outs, x') \<and> book_rel (xc_mem x') (xc_book x') N' \<and>
       resting_total (xc_mem x') (xc_book x') N' + 2 * word_total (map traded_qty outs) =
       resting_total (xc_mem x) (xc_book x) N + word_total (map order_qty (take (length fs) cmds))"
proof (induction cmds arbitrary: x fs N)
  case (Cons cmd cmds)
  obtain s p q where cmd: "cmd = Order s p q" using Cons.prems(2) by (cases cmd) auto
  show ?case
  proof (cases fs)
    case Nil
    then have "exchange_step c cmd x = Some ([ErrPoolExhausted], x)"
      using order_step_empty Cons.prems(1) by (simp add: cmd)
    with Cons.IH [OF Cons.prems(1) _ Cons.prems(3)] Cons.prems(2) Nil show ?thesis by fastforce
  next
    case (Cons f fs')
    with Cons.prems(1) have inv: "exchange_inv c (f # fs') x" by simp
    then have reach: "engine_reach (xc_book x, xc_mem x)" "\<not> resting_in (xc_book x, xc_mem x) f"
      by (simp_all add: exchange_inv_def)
    obtain ts x1 where run: "process_limit_order f (xc_book x, (xc_mem x)(f := OrderNode_of (xc_next_id x) p q s)) =
        Some (ts, xc_book x1, xc_mem x1)"
      and step: "exchange_step c cmd x = Some (map (\<lambda>t. TradeLine (trade_price t) (trade_qty t)) (sv_contents ts) @
        [print_book (xc_book x1)], x1)" and inv1: "exchange_inv c fs' x1"
      by (rule order_step_free [OF inv, of p q s]) (auto simp: cmd)
    let ?out = "map (\<lambda>t. TradeLine (trade_price t) (trade_qty t)) (sv_contents ts) @ [print_book (xc_book x1)]"
    have out: "word_total (map traded_qty ?out) = word_total (map trade_qty (sv_contents ts))"
      by (simp add: comp_def print_book_def)
    obtain N1 where N1: "book_rel (xc_mem x1) (xc_book x1) N1"
      "resting_total (xc_mem x1) (xc_book x1) N1 + 2 * word_total (map trade_qty (sv_contents ts)) =
         resting_total (xc_mem x) (xc_book x) N + unat q"
      by (rule submit_total [OF reach run Cons.prems(3)])
    have orders: "\<forall>cmd \<in> set cmds. is_order cmd" using Cons.prems(2) by simp
    obtain outs x2 N2 where rest: "exchange_run c cmds x1 = Some (outs, x2)"
      "book_rel (xc_mem x2) (xc_book x2) N2"
      "resting_total (xc_mem x2) (xc_book x2) N2 + 2 * word_total (map traded_qty outs) =
         resting_total (xc_mem x1) (xc_book x1) N1 + word_total (map order_qty (take (length fs') cmds))"
      using Cons.IH [OF inv1 orders N1(1)] by blast
    have "exchange_run c (cmd # cmds) x = Some (?out @ outs, x2)" using step rest(1) by simp
    moreover have "resting_total (xc_mem x2) (xc_book x2) N2 + 2 * word_total (map traded_qty (?out @ outs)) =
        resting_total (xc_mem x) (xc_book x) N + word_total (map order_qty (take (length fs) (cmd # cmds)))"
      unfolding map_append [of traded_qty ?out] word_total_simps(3) [of "map traded_qty ?out"] out
      using N1(2) rest(3) by (simp add: Cons cmd)
    ultimately show ?thesis using rest(2) by blast
  qed
qed auto

text \<open>
  (C7) Nothing is created or lost over a session without \<open>CLEAR\<close>: the orders accepted are the
  first ones, as many as the pool has slots, and the volume of all levels of the book plus twice
  the traded quantity (each trade consumes a maker and a taker) is the quantity of these orders,
  modulo \<open>2 ^ 64\<close> always, and as natural numbers when they add up to less than that. The line that
  displays the book shows at most that volume, and all of it while no side has more than the ten
  levels that are displayed.
\<close>

theorem exchange_conserves_quantity:
  assumes "\<forall>cmd \<in> set cmds. is_order cmd"
  shows "\<exists>outs x. exchange_run c cmds (exchange_new c m) = Some (outs, x) \<and>
    book_volume (xc_book x) + 2 * sum_list (map traded_qty outs) =
      sum_list (map order_qty (take (unat c) cmds)) \<and>
    (word_total (map order_qty (take (unat c) cmds)) < 2 ^ 64 \<longrightarrow>
      book_total (xc_book x) + 2 * word_total (map traded_qty outs) =
        word_total (map order_qty (take (unat c) cmds))) \<and>
    displayed_total (print_book (xc_book x)) \<le> book_total (xc_book x) \<and>
    (length (bids (xc_book x)) \<le> 10 \<and> length (asks (xc_book x)) \<le> 10 \<longrightarrow>
      displayed_total (print_book (xc_book x)) = book_total (xc_book x))"
proof -
  let ?x0 = "exchange_new c m" and ?total = "word_total (map order_qty (take (unat c) cmds))"
  have new: "book_rel (xc_mem ?x0) (xc_book ?x0) (\<lambda>_ _. [])" "resting_total (xc_mem ?x0) (xc_book ?x0) (\<lambda>_ _. []) = 0"
    by (simp add: exchange_new_def book_rel_new)
      (simp add: exchange_new_def resting_total_def queue_total_def side_queue_def OrderBook_new_def)
  obtain outs x N where run: "exchange_run c cmds ?x0 = Some (outs, x)"
    and rel: "book_rel (xc_mem x) (xc_book x) N"
    and total: "resting_total (xc_mem x) (xc_book x) N + 2 * word_total (map traded_qty outs) = ?total"
    using exchange_run_total [OF exchange_inv_new assms new(1)] new(2) by auto
  have "of_nat (resting_total (xc_mem x) (xc_book x) N) + 2 * of_nat (word_total (map traded_qty outs)) =
      (of_nat ?total :: u64)"
    unfolding total [symmetric] by simp
  moreover have "book_total (xc_book x) = resting_total (xc_mem x) (xc_book x) N" if "?total < 2 ^ 64"
    using total that by (intro book_total_exact [OF rel]) simp
  ultimately show ?thesis
    using run total book_volume_total [OF rel] displayed_total_le displayed_total_all
    by (auto simp: word_total_mod)
qed

theorem exchange_conserves_quantity_witness:
  "\<exists>outs x. exchange_run 2 [Order Buy 100 5, Order Sell 100 2, Order Sell 100 9] (exchange_new 2 quiet_mem) =
     Some (outs, x) \<and> book_total (xc_book x) + 2 * word_total (map traded_qty outs) = 7"
  using exchange_conserves_quantity [of "[Order Buy 100 5, Order Sell 100 2, Order Sell 100 9]" 2 quiet_mem]
  by auto

end
