(* ===== verification/Float64.thy ===== *)
theory Float64
  imports Core_Types "HOL-Library.Log_Nat"
begin

text \<open>
  The C++ type \<open>double\<close> as IEEE 754 binary64 with rounding to nearest, ties to even. A
  finite non-zero value is the rational number it denotes, so an operation is the exact
  rational operation followed by \<open>rnd\<close>; both zeros, the infinities and one NaN are values
  of their own. The conversions to integers are partial: out of range is undefined behaviour.
\<close>

section \<open>Rounding\<close>

definition ilog2 :: "rat \<Rightarrow> int" where
  "ilog2 q = (case quotient_of q of (a, b) \<Rightarrow>
     let k = int (floorlog 2 (nat a)) - int (floorlog 2 (nat b))
     in if 2 powi k \<le> q then k else k - 1)"

text \<open>To the nearest integer, ties to even.\<close>

definition rne :: "rat \<Rightarrow> int" where
  "rne x = (let f = \<lfloor>x\<rfloor>; d = x - of_int f
            in if d < 1 / 2 \<or> d = 1 / 2 \<and> even f then f else f + 1)"

text \<open>The exponent of the last place: 53 significant bits, not below the subnormal limit.\<close>

definition ulp_exp :: "rat \<Rightarrow> int" where
  "ulp_exp q = max (ilog2 \<bar>q\<bar> - 52) (- 1074)"

definition round64 :: "rat \<Rightarrow> rat" where
  "round64 q = (if q = 0 then 0 else of_int (rne (q / 2 powi ulp_exp q)) * 2 powi ulp_exp q)"

section \<open>Values and operations\<close>

datatype f64 = NaN | PInf | NInf | NZero | Fin rat

definition rnd :: "rat \<Rightarrow> f64" where
  "rnd q = (let r = round64 q
            in if 2 ^ 1024 \<le> r then PInf else if r \<le> - (2 ^ 1024) then NInf
               else if r = 0 \<and> q < 0 then NZero else Fin r)"

fun f64_neg :: "f64 \<Rightarrow> bool" where
  "f64_neg NaN = False"
| "f64_neg PInf = False"
| "f64_neg NInf = True"
| "f64_neg NZero = True"
| "f64_neg (Fin q) \<longleftrightarrow> q < 0"

fun f64_val :: "f64 \<Rightarrow> rat option" where
  "f64_val NZero = Some 0"
| "f64_val (Fin q) = Some q"
| "f64_val _ = None"

definition f64_zero :: "bool \<Rightarrow> f64" where "f64_zero neg = (if neg then NZero else Fin 0)"
definition f64_inf :: "bool \<Rightarrow> f64" where "f64_inf neg = (if neg then NInf else PInf)"

fun f64_uminus :: "f64 \<Rightarrow> f64" where
  "f64_uminus NaN = NaN"
| "f64_uminus PInf = NInf"
| "f64_uminus NInf = PInf"
| "f64_uminus NZero = Fin 0"
| "f64_uminus (Fin q) = (if q = 0 then NZero else Fin (- q))"

definition f64_add :: "f64 \<Rightarrow> f64 \<Rightarrow> f64" where
  "f64_add x y =
     (case (f64_val x, f64_val y) of
        (Some a, Some b) \<Rightarrow>
          if a + b = 0 then f64_zero (x = NZero \<and> y = NZero) else rnd (a + b)
      | (None, Some _) \<Rightarrow> x
      | (Some _, None) \<Rightarrow> y
      | (None, None) \<Rightarrow> if x = y then x else NaN)"

definition f64_sub :: "f64 \<Rightarrow> f64 \<Rightarrow> f64" where
  "f64_sub x y = f64_add x (f64_uminus y)"

definition f64_mul :: "f64 \<Rightarrow> f64 \<Rightarrow> f64" where
  "f64_mul x y =
     (let neg = (f64_neg x \<noteq> f64_neg y)
      in case (f64_val x, f64_val y) of
           (Some a, Some b) \<Rightarrow> if a * b = 0 then f64_zero neg else rnd (a * b)
         | (None, Some b) \<Rightarrow> if x = NaN \<or> b = 0 then NaN else f64_inf neg
         | (Some a, None) \<Rightarrow> if y = NaN \<or> a = 0 then NaN else f64_inf neg
         | (None, None) \<Rightarrow> if x = NaN \<or> y = NaN then NaN else f64_inf neg)"

definition f64_div :: "f64 \<Rightarrow> f64 \<Rightarrow> f64" where
  "f64_div x y =
     (let neg = (f64_neg x \<noteq> f64_neg y)
      in case (f64_val x, f64_val y) of
           (Some a, Some b) \<Rightarrow>
             if b = 0 then (if a = 0 then NaN else f64_inf neg)
             else if a = 0 then f64_zero neg else rnd (a / b)
         | (None, Some b) \<Rightarrow> if x = NaN then NaN else f64_inf neg
         | (Some a, None) \<Rightarrow> if y = NaN then NaN else f64_zero neg
         | (None, None) \<Rightarrow> NaN)"

fun f64_less :: "f64 \<Rightarrow> f64 \<Rightarrow> bool" where
  "f64_less NaN _ = False"
| "f64_less _ NaN = False"
| "f64_less x PInf \<longleftrightarrow> x \<noteq> PInf"
| "f64_less PInf _ = False"
| "f64_less NInf y \<longleftrightarrow> y \<noteq> NInf"
| "f64_less _ NInf = False"
| "f64_less x y \<longleftrightarrow> the (f64_val x) < the (f64_val y)"

definition f64_eq :: "f64 \<Rightarrow> f64 \<Rightarrow> bool" where
  "f64_eq x y \<longleftrightarrow> x \<noteq> NaN \<and> y \<noteq> NaN \<and> \<not> f64_less x y \<and> \<not> f64_less y x"

text \<open>The operators of the source, so that its formulas can be written as they are
  (\<open>inverse\<close> comes with the class of \<open>/\<close>).\<close>

instantiation f64 :: "{zero, plus, minus, times, inverse, ord}"
begin
definition zero_f64 :: f64 where "zero_f64 = Fin 0"
definition plus_f64 :: "f64 \<Rightarrow> f64 \<Rightarrow> f64" where "plus_f64 = f64_add"
definition minus_f64 :: "f64 \<Rightarrow> f64 \<Rightarrow> f64" where "minus_f64 = f64_sub"
definition times_f64 :: "f64 \<Rightarrow> f64 \<Rightarrow> f64" where "times_f64 = f64_mul"
definition divide_f64 :: "f64 \<Rightarrow> f64 \<Rightarrow> f64" where "divide_f64 = f64_div"
definition inverse_f64 :: "f64 \<Rightarrow> f64" where "inverse_f64 = f64_div (Fin 1)"
definition less_f64 :: "f64 \<Rightarrow> f64 \<Rightarrow> bool" where "less_f64 = f64_less"
definition less_eq_f64 :: "f64 \<Rightarrow> f64 \<Rightarrow> bool" where
  "less_eq_f64 x y \<longleftrightarrow> f64_less x y \<or> f64_eq x y"
instance ..
end

section \<open>Conversions\<close>

definition f64_of_int :: "int \<Rightarrow> f64" where "f64_of_int i = rnd (of_int i)"
definition f64_of_u64 :: "u64 \<Rightarrow> f64" where "f64_of_u64 w = f64_of_int (uint w)"

text \<open>Toward zero, as \<open>static_cast\<close> does; \<open>None\<close> is undefined behaviour.\<close>

definition trunc0 :: "rat \<Rightarrow> int" where
  "trunc0 q = (if 0 \<le> q then \<lfloor>q\<rfloor> else \<lceil>q\<rceil>)"

definition in_i64 :: "int \<Rightarrow> bool" where "in_i64 i \<longleftrightarrow> - (2 ^ 63) \<le> i \<and> i < 2 ^ 63"

definition i64 :: "int \<Rightarrow> int option" where "i64 i = (if in_i64 i then Some i else None)"

definition f64_to_i64 :: "f64 \<Rightarrow> int option" where
  "f64_to_i64 x = (case f64_val x of None \<Rightarrow> None | Some q \<Rightarrow> i64 (trunc0 q))"

definition f64_to_u64 :: "f64 \<Rightarrow> u64 option" where
  "f64_to_u64 x =
     (case f64_val x of
        None \<Rightarrow> None
      | Some q \<Rightarrow> if 0 \<le> trunc0 q \<and> trunc0 q < 2 ^ 64 then Some (word_of_int (trunc0 q)) else None)"

text \<open>\<open>std::round\<close>: to the nearest integer, halves away from zero.\<close>

fun f64_round :: "f64 \<Rightarrow> f64" where
  "f64_round (Fin q) =
     (let n = (if 0 \<le> q then \<lfloor>q + 1 / 2\<rfloor> else \<lceil>q - 1 / 2\<rceil>)
      in if n = 0 \<and> q < 0 then NZero else Fin (of_int n))"
| "f64_round x = x"

section \<open>The binary logarithm\<close>

lemma floorlog_ratio:
  assumes "0 < a" and "0 < b"
  defines "k \<equiv> int (floorlog 2 a) - int (floorlog 2 b)"
  shows "2 powi (k - 1) < (of_nat a / of_nat b :: rat)" and "of_nat a / of_nat b < (2 powi (k + 1) :: rat)"
proof -
  obtain m n where mn: "floorlog 2 a = Suc m" "floorlog 2 b = Suc n"
    using assms(1,2) by (metis floorlog_eq_zero_iff not0_implies_Suc not_le one_less_numeral_iff semiring_norm(76))
  have a: "2 ^ m \<le> a" "a < 2 ^ Suc m" using floorlog_bounds [of a 2] assms(1) mn by auto
  have b: "2 ^ n \<le> b" "b < 2 ^ Suc n" using floorlog_bounds [of b 2] assms(2) mn by auto
  have a': "2 ^ m \<le> (of_nat a :: rat)" "(of_nat a :: rat) < 2 ^ Suc m"
    using a by (metis of_nat_le_iff of_nat_numeral of_nat_power, metis of_nat_less_iff of_nat_numeral of_nat_power)
  have b': "2 ^ n \<le> (of_nat b :: rat)" "(of_nat b :: rat) < 2 ^ Suc n"
    using b by (metis of_nat_le_iff of_nat_numeral of_nat_power, metis of_nat_less_iff of_nat_numeral of_nat_power)
  have k: "k = int m - int n" by (simp add: k_def mn)
  have up: "2 powi (k + 1) = (2 ^ Suc m / 2 ^ n :: rat)"
    unfolding k by (simp add: power_int_diff power_int_add)
  have dn: "2 powi (k - 1) = (2 ^ m / 2 ^ Suc n :: rat)"
    unfolding k by (simp add: power_int_diff)
  show "of_nat a / of_nat b < (2 powi (k + 1) :: rat)"
    unfolding up using a' b' assms(2) by (intro frac_less) auto
  show "2 powi (k - 1) < (of_nat a / of_nat b :: rat)"
    unfolding dn using a' b' assms(2) by (intro frac_less2) auto
qed

lemma ilog2_bounds:
  assumes "0 < q"
  shows "2 powi ilog2 q \<le> q" and "q < 2 powi (ilog2 q + 1)"
proof -
  obtain a b where ab: "quotient_of q = (a, b)" by (cases "quotient_of q")
  then have q: "q = of_int a / of_int b" and b: "0 < b"
    by (simp_all add: quotient_of_div quotient_of_denom_pos)
  have a: "0 < a" using assms b unfolding q by (simp add: zero_less_divide_iff)
  have q': "q = of_nat (nat a) / of_nat (nat b)" using q a b by simp
  note r = floorlog_ratio [of "nat a" "nat b", folded q']
  show "2 powi ilog2 q \<le> q" "q < 2 powi (ilog2 q + 1)"
    using r a b by (auto simp: ilog2_def ab Let_def)
qed

section \<open>Rounding to an integer\<close>

lemma rne_of_int [simp]: "rne (of_int i) = i"
  by (simp add: rne_def)

lemma rne_error: "\<bar>of_int (rne x) - x\<bar> \<le> 1 / 2"
  unfolding rne_def Let_def using of_int_floor_le [of x] floor_correct [of x] by auto

lemma rne_mono: "x \<le> y \<Longrightarrow> rne x \<le> rne y"
proof -
  assume xy: "x \<le> y"
  show ?thesis
  proof (cases "\<lfloor>x\<rfloor> = \<lfloor>y\<rfloor>")
    case True
    with xy show ?thesis by (auto simp: rne_def Let_def)
  next
    case False
    then have "\<lfloor>x\<rfloor> + 1 \<le> \<lfloor>y\<rfloor>" using floor_mono [OF xy] by simp
    moreover have "rne x \<le> \<lfloor>x\<rfloor> + 1" "\<lfloor>y\<rfloor> \<le> rne y" by (auto simp: rne_def Let_def)
    ultimately show ?thesis by simp
  qed
qed

lemma rne_uminus [simp]: "rne (- x) = - rne x"
proof (cases "x \<in> \<int>")
  case True
  then obtain i where "x = of_int i" by (auto elim: Ints_cases)
  then show ?thesis using rne_of_int [of "- i"] by simp
next
  case False
  then have f: "\<lfloor>- x\<rfloor> = - \<lfloor>x\<rfloor> - 1"
    using floor_minus [of x] ceiling_altdef [of x] by (metis Ints_of_int add_uminus_conv_diff minus_add_distrib)
  show ?thesis unfolding rne_def Let_def f by auto
qed

section \<open>Rounding to a double\<close>

lemma pow2_pos [simp]: "0 < (2 powi e :: rat)" "(2 powi e :: rat) \<noteq> 0"
  by (simp_all add: zero_less_power_int)

lemma pow2_add: "2 powi (a + b) = (2 powi a * 2 powi b :: rat)"
  by (simp add: power_int_add)

lemma pow2_le_iff [simp]: "(2 powi a :: rat) \<le> 2 powi b \<longleftrightarrow> a \<le> b"
  by (metis linorder_not_le one_less_numeral_iff order_less_imp_le power_int_increasing
      power_int_strict_increasing semiring_norm(76))

lemma pow2_less_iff [simp]: "(2 powi a :: rat) < 2 powi b \<longleftrightarrow> a < b"
  by (meson linorder_not_le pow2_le_iff)

lemma pow2_div: "a \<le> b \<Longrightarrow> 2 powi b / 2 powi a = (of_int (2 ^ nat (b - a)) :: rat)"
  by (simp flip: power_int_diff add: power_int_nonneg_exp)

lemma ilog2_mono: "0 < x \<Longrightarrow> x \<le> y \<Longrightarrow> ilog2 x \<le> ilog2 y"
proof -
  assume x: "0 < x" and xy: "x \<le> y"
  have "(2 powi ilog2 x :: rat) < 2 powi (ilog2 y + 1)"
    using ilog2_bounds(1) [OF x] ilog2_bounds(2) [of y] x xy by linarith
  then show ?thesis by simp
qed

lemma ilog2_unique: "2 powi k \<le> q \<Longrightarrow> q < 2 powi (k + 1) \<Longrightarrow> ilog2 q = k"
proof -
  assume q: "2 powi k \<le> q" "q < 2 powi (k + 1)"
  then have pos: "0 < q" using less_le_trans [OF pow2_pos(1)] by blast
  have "(2 powi k :: rat) < 2 powi (ilog2 q + 1)" "(2 powi ilog2 q :: rat) < 2 powi (k + 1)"
    using ilog2_bounds [OF pos] q by linarith+
  then show ?thesis by simp
qed

lemma ulp_exp_uminus [simp]: "ulp_exp (- q) = ulp_exp q"
  by (simp add: ulp_exp_def)

lemma round64_zero [simp]: "round64 0 = 0"
  by (simp add: round64_def)

lemma round64_eq: "round64 q = of_int (rne (q / 2 powi ulp_exp q)) * 2 powi ulp_exp q"
  by (simp add: round64_def rne_of_int [of 0, simplified])

lemma round64_uminus [simp]: "round64 (- q) = - round64 q"
  by (simp add: round64_eq)

text \<open>The values a \<open>double\<close> can have when the exponent range has no upper end.\<close>

definition f64_rep :: "rat \<Rightarrow> bool" where
  "f64_rep q \<longleftrightarrow> (\<exists>m e. q = of_int m * 2 powi e \<and> \<bar>m\<bar> < 2 ^ 53 \<and> - 1074 \<le> e)"

lemma round64_rep:
  assumes "f64_rep q"
  shows "round64 q = q"
proof (cases "q = 0")
  case False
  obtain m e where q: "q = of_int m * 2 powi e" "\<bar>m\<bar> < 2 ^ 53" "- 1074 \<le> e"
    using assms by (auto simp: f64_rep_def)
  have pos: "0 < \<bar>q\<bar>" using False by simp
  have "\<bar>q\<bar> = of_int \<bar>m\<bar> * 2 powi e" by (simp add: q abs_mult)
  also have "\<dots> < 2 ^ 53 * 2 powi e"
    using q(2) pow2_pos(1) [of e] by (metis mult_less_cancel_right_pos of_int_less_iff of_int_numeral of_int_power)
  also have "\<dots> = 2 powi (53 + e)" by (simp add: pow2_add)
  finally have "(2 powi ilog2 \<bar>q\<bar> :: rat) < 2 powi (53 + e)" using ilog2_bounds(1) [OF pos] by linarith
  then have "ulp_exp q \<le> e" using q(3) by (simp add: ulp_exp_def)
  then obtain u where u: "u = ulp_exp q" "u \<le> e" by blast
  have scaled: "q / 2 powi u = of_int (m * 2 ^ nat (e - u))"
    by (simp only: q(1) of_int_mult times_divide_eq_right [symmetric] pow2_div [OF u(2)])
  then have "rne (q / 2 powi u) = m * 2 ^ nat (e - u)" by (simp only: rne_of_int)
  then have "round64 q = q / 2 powi u * 2 powi u"
    unfolding scaled round64_eq u(1) [symmetric] by simp
  then show ?thesis by simp
qed simp

lemma f64_rep_scaled: "\<bar>m\<bar> < 2 ^ 53 \<Longrightarrow> - 1074 \<le> e \<Longrightarrow> f64_rep (of_int m * 2 powi e)"
  unfolding f64_rep_def by blast

lemma f64_rep_pow2: "- 1074 \<le> e \<Longrightarrow> f64_rep (2 powi e)"
  unfolding f64_rep_def by (intro exI [of _ 1] exI [of _ e]) simp

lemma f64_rep_int: "\<bar>i\<bar> < 2 ^ 53 \<Longrightarrow> f64_rep (of_int i)"
  unfolding f64_rep_def by (intro exI [of _ i] exI [of _ 0]) simp

lemma round64_nonneg: "0 \<le> q \<Longrightarrow> 0 \<le> round64 q"
  using rne_mono [of 0 "q / 2 powi ulp_exp q"] rne_of_int [of 0] by (simp add: round64_eq)

text \<open>Rounding is monotone: between two exponents lies a power of two, which is a double.\<close>

lemma round64_mono_pos:
  assumes "0 < x" and "x \<le> y"
  shows "round64 x \<le> round64 y"
proof -
  let ?ex = "ulp_exp x" and ?ey = "ulp_exp y"
  have "?ex \<le> ?ey" using ilog2_mono [OF assms] assms by (simp add: ulp_exp_def)
  then consider "?ex = ?ey" | "?ex < ?ey" by linarith
  then show ?thesis
  proof cases
    case 1
    then show ?thesis using assms
      by (simp add: round64_eq rne_mono divide_right_mono)
  next
    case 2
    let ?k = "ilog2 y"
    have ey: "?ey = ?k - 52" using 2 assms by (auto simp: ulp_exp_def split: if_splits)
    have kx: "ilog2 x + 1 \<le> ?k" and ex: "?ex \<le> ?k"
      using 2 ey assms by (auto simp: ulp_exp_def)
    have "x \<le> 2 powi ?k"
      using ilog2_bounds(2) [OF assms(1)] kx by (meson less_imp_le order_trans pow2_le_iff)
    then have "x / 2 powi ?ex \<le> of_int (2 ^ nat (?k - ?ex))"
      using pow2_div [OF ex] by (metis divide_right_mono less_imp_le pow2_pos(1))
    then have "rne (x / 2 powi ?ex) \<le> 2 ^ nat (?k - ?ex)" using rne_mono rne_of_int by metis
    then have "of_int (rne (x / 2 powi ?ex)) * 2 powi ?ex \<le> (of_int (2 ^ nat (?k - ?ex)) * 2 powi ?ex :: rat)"
      by (metis less_imp_le mult_right_mono of_int_le_iff pow2_pos(1))
    then have "round64 x \<le> 2 powi ?k"
      unfolding round64_eq pow2_div [OF ex, symmetric] by simp
    also have "2 powi ?k \<le> round64 y"
    proof -
      have ek: "?ey \<le> ?k" using ey by simp
      have "2 powi ?k \<le> y" using ilog2_bounds(1) assms by simp
      then have "of_int (2 ^ nat (?k - ?ey)) \<le> y / 2 powi ?ey"
        using pow2_div [OF ek] by (metis divide_right_mono less_imp_le pow2_pos(1))
      then have "2 ^ nat (?k - ?ey) \<le> rne (y / 2 powi ?ey)" using rne_mono rne_of_int by metis
      then have "(of_int (2 ^ nat (?k - ?ey)) * 2 powi ?ey :: rat) \<le> of_int (rne (y / 2 powi ?ey)) * 2 powi ?ey"
        by (metis less_imp_le mult_right_mono of_int_le_iff pow2_pos(1))
      then show ?thesis unfolding round64_eq pow2_div [OF ek, symmetric] by simp
    qed
    finally show ?thesis .
  qed
qed

lemma round64_mono: "x \<le> y \<Longrightarrow> round64 x \<le> round64 y"
proof (cases "0 < x")
  case True
  then show "x \<le> y \<Longrightarrow> ?thesis" by (rule round64_mono_pos)
next
  case False
  assume xy: "x \<le> y"
  show ?thesis
  proof (cases "0 \<le> y")
    case True
    then show ?thesis
      using False round64_nonneg [of y] round64_nonneg [of "- x"] by simp
  next
    case False
    then show ?thesis using round64_mono_pos [of "- y" "- x"] xy by simp
  qed
qed

text \<open>In the normal range the error is at most half a unit in the last place.\<close>

lemma round64_error:
  assumes "2 powi (- 1022) \<le> \<bar>q\<bar>"
  shows "\<bar>round64 q - q\<bar> \<le> \<bar>q\<bar> / 2 ^ 53"
proof -
  have pos: "0 < \<bar>q\<bar>" using assms pow2_pos(1) by (rule less_le_trans [rotated])
  have "(2 powi (- 1022) :: rat) < 2 powi (ilog2 \<bar>q\<bar> + 1)"
    using assms ilog2_bounds(2) [OF pos] by linarith
  then have "- 1022 < ilog2 \<bar>q\<bar> + 1" by (simp only: pow2_less_iff)
  then have e: "ulp_exp q = ilog2 \<bar>q\<bar> - 52" by (simp add: ulp_exp_def)
  let ?u = "2 powi ulp_exp q :: rat"
  have "round64 q - q = (of_int (rne (q / ?u)) - q / ?u) * ?u"
    by (simp add: round64_eq left_diff_distrib)
  then have "\<bar>round64 q - q\<bar> = \<bar>of_int (rne (q / ?u)) - q / ?u\<bar> * ?u" by (simp add: abs_mult)
  also have "\<dots> \<le> 1 / 2 * ?u" by (intro mult_right_mono rne_error) simp
  also have "\<dots> = 2 powi ilog2 \<bar>q\<bar> / 2 ^ 53" by (simp add: e power_int_diff)
  also have "\<dots> \<le> \<bar>q\<bar> / 2 ^ 53" using ilog2_bounds(1) [OF pos] by (intro divide_right_mono) simp_all
  finally show ?thesis .
qed

section \<open>The value of an operation\<close>

text \<open>
  The operations on values: as long as the exact result is at most \<open>2 ^ 1023\<close> in size,
  nothing overflows and the result has the rounded exact value.
\<close>

lemma round64_bounded: "\<bar>q\<bar> \<le> 2 ^ 1023 \<Longrightarrow> \<bar>round64 q\<bar> \<le> 2 ^ 1023"
proof -
  assume q: "\<bar>q\<bar> \<le> 2 ^ 1023"
  have "round64 (2 powi 1023) = 2 powi 1023" by (intro round64_rep f64_rep_pow2) simp
  then have top: "round64 (2 ^ 1023) = 2 ^ 1023" by (simp only: power_int_numeral)
  have "round64 q \<le> 2 ^ 1023" "round64 (- q) \<le> 2 ^ 1023"
    using round64_mono [of q "2 ^ 1023"] round64_mono [of "- q" "2 ^ 1023"] q unfolding top
    by linarith+
  then show ?thesis unfolding round64_uminus by linarith
qed

lemma f64_val_rnd: "\<bar>q\<bar> \<le> 2 ^ 1023 \<Longrightarrow> f64_val (rnd q) = Some (round64 q)"
proof -
  assume "\<bar>q\<bar> \<le> 2 ^ 1023"
  then have "\<bar>round64 q\<bar> \<le> 2 ^ 1023" by (rule round64_bounded)
  moreover have "(2 ^ 1023 :: rat) < 2 ^ 1024" by (rule power_strict_increasing) simp_all
  ultimately have "\<not> 2 ^ 1024 \<le> round64 q" "\<not> round64 q \<le> - (2 ^ 1024)" by linarith+
  then show ?thesis by (simp add: rnd_def Let_def)
qed

lemma f64_val_zero [simp]: "f64_val (f64_zero s) = Some 0"
  by (simp add: f64_zero_def)

lemma f64_val_0 [simp]: "f64_val 0 = Some 0"
  by (simp add: zero_f64_def)

lemma f64_val_uminus: "f64_val x = Some a \<Longrightarrow> f64_val (f64_uminus x) = Some (- a)"
  by (cases x) auto

lemma f64_val_add:
  "f64_val x = Some a \<Longrightarrow> f64_val y = Some b \<Longrightarrow> \<bar>a + b\<bar> \<le> 2 ^ 1023 \<Longrightarrow>
   f64_val (x + y) = Some (round64 (a + b))"
  using f64_val_rnd [of "a + b"] by (auto simp: plus_f64_def f64_add_def)

lemma f64_val_sub:
  "f64_val x = Some a \<Longrightarrow> f64_val y = Some b \<Longrightarrow> \<bar>a - b\<bar> \<le> 2 ^ 1023 \<Longrightarrow>
   f64_val (x - y) = Some (round64 (a - b))"
  using f64_val_add [OF _ f64_val_uminus, of x a y b] by (simp add: minus_f64_def f64_sub_def plus_f64_def)

lemma f64_val_mul:
  "f64_val x = Some a \<Longrightarrow> f64_val y = Some b \<Longrightarrow> \<bar>a * b\<bar> \<le> 2 ^ 1023 \<Longrightarrow>
   f64_val (x * y) = Some (round64 (a * b))"
  using f64_val_rnd [of "a * b"] by (auto simp: times_f64_def f64_mul_def Let_def)

lemma f64_val_div:
  "f64_val x = Some a \<Longrightarrow> f64_val y = Some b \<Longrightarrow> b \<noteq> 0 \<Longrightarrow> \<bar>a / b\<bar> \<le> 2 ^ 1023 \<Longrightarrow>
   f64_val (x / y) = Some (round64 (a / b))"
  using f64_val_rnd [of "a / b"] by (auto simp: divide_f64_def f64_div_def Let_def)

lemma f64_less_val:
  "f64_val x = Some a \<Longrightarrow> f64_val y = Some b \<Longrightarrow> x < y \<longleftrightarrow> a < b"
  by (cases x; cases y) (auto simp: less_f64_def)

lemma f64_le_val:
  "f64_val x = Some a \<Longrightarrow> f64_val y = Some b \<Longrightarrow> x \<le> y \<longleftrightarrow> a \<le> b"
  by (cases x; cases y) (auto simp: less_eq_f64_def f64_eq_def)

section \<open>Exact integers\<close>

text \<open>\<open>f64_int x i\<close>: the double is the integer \<open>i\<close>, small enough to be exact.\<close>

definition f64_int :: "f64 \<Rightarrow> int \<Rightarrow> bool" where
  "f64_int x i \<longleftrightarrow> f64_val x = Some (of_int i) \<and> \<bar>i\<bar> < 2 ^ 53"

lemma int_bound_1023: "\<bar>i\<bar> < 2 ^ 53 \<Longrightarrow> \<bar>of_int i :: rat\<bar> \<le> 2 ^ 1023"
proof -
  assume "\<bar>i\<bar> < 2 ^ 53"
  then have "of_int \<bar>i\<bar> \<le> (of_int (2 ^ 53) :: rat)" by (simp only: of_int_le_iff)
  also have "\<dots> \<le> 2 ^ 1023" unfolding of_int_power of_int_numeral by (rule power_increasing) simp_all
  finally show ?thesis by simp
qed

lemma round64_int: "\<bar>i\<bar> < 2 ^ 53 \<Longrightarrow> round64 (of_int i) = of_int i"
  by (intro round64_rep f64_rep_int)

lemma f64_int_of_int: "\<bar>i\<bar> < 2 ^ 53 \<Longrightarrow> f64_int (f64_of_int i) i"
  by (simp only: f64_int_def f64_of_int_def f64_val_rnd int_bound_1023 round64_int)

lemma f64_int_of_u64: "uint w < 2 ^ 53 \<Longrightarrow> f64_int (f64_of_u64 w) (uint w)"
  unfolding f64_of_u64_def by (rule f64_int_of_int) simp

lemma f64_int_zero [simp]: "f64_int 0 0"
  by (simp add: f64_int_def)

lemma f64_int_add: "f64_int x i \<Longrightarrow> f64_int y j \<Longrightarrow> \<bar>i + j\<bar> < 2 ^ 53 \<Longrightarrow> f64_int (x + y) (i + j)"
  using f64_val_add [of x "of_int i" y "of_int j"] int_bound_1023 [of "i + j"] round64_int [of "i + j"]
  by (simp only: f64_int_def of_int_add)

lemma f64_int_sub: "f64_int x i \<Longrightarrow> f64_int y j \<Longrightarrow> \<bar>i - j\<bar> < 2 ^ 53 \<Longrightarrow> f64_int (x - y) (i - j)"
  using f64_val_sub [of x "of_int i" y "of_int j"] int_bound_1023 [of "i - j"] round64_int [of "i - j"]
  by (simp only: f64_int_def of_int_diff)

lemma f64_int_mul: "f64_int x i \<Longrightarrow> f64_int y j \<Longrightarrow> \<bar>i * j\<bar> < 2 ^ 53 \<Longrightarrow> f64_int (x * y) (i * j)"
  using f64_val_mul [of x "of_int i" y "of_int j"] int_bound_1023 [of "i * j"] round64_int [of "i * j"]
  by (simp only: f64_int_def of_int_mult)

lemma f64_int_div:
  "f64_int x (i * j) \<Longrightarrow> f64_int y j \<Longrightarrow> j \<noteq> 0 \<Longrightarrow> f64_int (x / y) i"
proof -
  assume x: "f64_int x (i * j)" and y: "f64_int y j" and j: "j \<noteq> 0"
  have "\<bar>i\<bar> * 1 \<le> \<bar>i\<bar> * \<bar>j\<bar>" using j by (intro mult_left_mono) simp_all
  then have i: "\<bar>i\<bar> < 2 ^ 53" using x by (simp only: f64_int_def abs_mult) linarith
  have q: "of_int (i * j) / of_int j = (of_int i :: rat)" using j by simp
  from x y j have "f64_val (x / y) = Some (round64 (of_int i))"
    using f64_val_div [of x "of_int (i * j)" y "of_int j"] int_bound_1023 [OF i]
    unfolding q f64_int_def by simp
  with i show ?thesis by (simp only: f64_int_def round64_int)
qed

lemma trunc0_of_int [simp]: "trunc0 (of_int i) = i"
  by (simp add: trunc0_def)

lemma f64_int_to_i64: "f64_int x i \<Longrightarrow> f64_to_i64 x = Some i"
  by (auto simp: f64_int_def f64_to_i64_def i64_def in_i64_def)

section \<open>Relative error\<close>

text \<open>
  \<open>near k x y\<close>: the non-negative \<open>x\<close> and \<open>y\<close> differ by at most the factor
  \<open>(1 + 2\<^sup>-\<^sup>5\<^sup>2)\<^sup>k\<close> either way. Each rounding in the normal range adds one to \<open>k\<close>.
\<close>

definition near :: "nat \<Rightarrow> rat \<Rightarrow> rat \<Rightarrow> bool" where
  "near k x y \<longleftrightarrow> 0 \<le> x \<and> 0 \<le> y \<and> x \<le> (1 + 1 / 2 ^ 52) ^ k * y \<and> y \<le> (1 + 1 / 2 ^ 52) ^ k * x"

lemma near_refl: "0 \<le> x \<Longrightarrow> near 0 x x"
  by (simp add: near_def)

lemma near_mono: "near k x y \<Longrightarrow> k \<le> l \<Longrightarrow> near l x y"
proof -
  assume k: "near k x y" "k \<le> l"
  have "(1 + 1 / 2 ^ 52 :: rat) ^ k \<le> (1 + 1 / 2 ^ 52) ^ l" using k(2) by (intro power_increasing) simp_all
  then have "(1 + 1 / 2 ^ 52) ^ k * y \<le> (1 + 1 / 2 ^ 52) ^ l * y"
    "(1 + 1 / 2 ^ 52) ^ k * x \<le> (1 + 1 / 2 ^ 52) ^ l * x"
    using k(1) unfolding near_def by (simp_all only: mult_right_mono)
  with k(1) show ?thesis unfolding near_def by (meson order_trans)
qed

lemma near_mult:
  assumes "near i a b" "near j c d"
  shows "near (i + j) (a * c) (b * d)"
proof -
  have "a * c \<le> ((1 + 1 / 2 ^ 52) ^ i * b) * ((1 + 1 / 2 ^ 52) ^ j * d)"
    "b * d \<le> ((1 + 1 / 2 ^ 52) ^ i * a) * ((1 + 1 / 2 ^ 52) ^ j * c)"
    using assms unfolding near_def by (intro mult_mono mult_nonneg_nonneg; simp)+
  with assms show ?thesis unfolding near_def power_add by (simp add: ac_simps)
qed

lemma near_add:
  assumes "near k a b" "near k c d"
  shows "near k (a + c) (b + d)"
  using assms unfolding near_def by (simp only: distrib_left add_mono add_nonneg_nonneg simp_thms)

lemma near_sym: "near k x y \<Longrightarrow> near k y x"
  by (simp add: near_def)

lemma near_trans: "near i x y \<Longrightarrow> near j y z \<Longrightarrow> near (i + j) x z"
proof -
  assume i: "near i x y" and j: "near j y z"
  have "(1 + 1 / 2 ^ 52) ^ i * y \<le> (1 + 1 / 2 ^ 52) ^ i * ((1 + 1 / 2 ^ 52) ^ j * z)"
    "(1 + 1 / 2 ^ 52) ^ j * y \<le> (1 + 1 / 2 ^ 52) ^ j * ((1 + 1 / 2 ^ 52) ^ i * x)"
    using i j unfolding near_def by (intro mult_left_mono; simp)+
  with i j show ?thesis
    unfolding near_def power_add by (simp only: ac_simps simp_thms) (meson order_trans)
qed

lemma near_inverse:
  assumes "near k a b" and "0 < a" "0 < b"
  shows "near k (1 / a) (1 / b)"
proof -
  have one: "1 / x \<le> w / y" if "y \<le> w * x" "0 < x" "0 < y" for w x y :: rat
    using that by (simp add: field_simps)
  show ?thesis
    using one [of b "(1 + 1 / 2 ^ 52) ^ k" a] one [of a "(1 + 1 / 2 ^ 52) ^ k" b] assms
    unfolding near_def by simp
qed

lemma near_div: "near i a b \<Longrightarrow> near j c d \<Longrightarrow> 0 < c \<Longrightarrow> 0 < d \<Longrightarrow> near (i + j) (a / c) (b / d)"
  using near_mult [of i a b j "1 / c" "1 / d"] near_inverse [of j c d] by simp

lemma near_round:
  assumes "near k q y" and "q = 0 \<or> 2 powi (- 1022) \<le> q"
  shows "near (Suc k) (round64 q) y"
proof (cases "q = 0")
  case True
  with assms(1) show ?thesis by (simp add: near_def)
next
  case False
  with assms(2) have low: "2 powi (- 1022) \<le> q" by simp
  have pos: "0 < q" using less_le_trans [OF pow2_pos(1) low] .
  have err: "\<bar>round64 q - q\<bar> \<le> q / 2 ^ 53"
    using round64_error [of q] low pos by (simp only: abs_of_pos)
  have r: "0 \<le> round64 q" using round64_nonneg pos by simp
  have err': "round64 q - q \<le> q / 2 ^ 53" "q - round64 q \<le> q / 2 ^ 53" using err by linarith+
  have up: "round64 q \<le> (1 + 1 / 2 ^ 52) * q" using err'(1) pos by (simp add: field_simps)
  have "q * (1 - 1 / 2 ^ 53) \<le> round64 q"
    using err'(2) by (simp add: field_simps)
  then have "(1 + 1 / 2 ^ 52) * (q * (1 - 1 / 2 ^ 53)) \<le> (1 + 1 / 2 ^ 52) * round64 q"
    by (intro mult_left_mono) simp_all
  moreover have "q \<le> (1 + 1 / 2 ^ 52) * (q * (1 - 1 / 2 ^ 53))" using pos by simp
  ultimately have dn: "q \<le> (1 + 1 / 2 ^ 52) * round64 q" by (rule order_trans [rotated])
  have "near 1 (round64 q) q" using r pos up dn by (simp add: near_def)
  from near_trans [OF this assms(1)] show ?thesis by simp
qed

lemma near_error:
  assumes "near k x y" and "(1 + 1 / 2 ^ 52) ^ k \<le> 1 + e" and "0 \<le> e"
  shows "\<bar>x - y\<bar> \<le> e * y"
proof -
  have "(1 + 1 / 2 ^ 52) ^ k * y \<le> (1 + e) * y" "(1 + 1 / 2 ^ 52) ^ k * x \<le> (1 + e) * x"
    using assms(1,2) unfolding near_def by (simp_all only: mult_right_mono)
  then have "x - y \<le> e * y" "y - x \<le> e * x"
    using assms(1) unfolding near_def distrib_right by linarith+
  moreover have "e * x \<le> e * y" if "x \<le> y" using that assms(3) by (rule mult_left_mono)
  ultimately show ?thesis by linarith
qed

text \<open>
  \<open>approx k n x y\<close>: the double \<open>x\<close> is within \<open>k\<close> roundings of the exact \<open>y\<close>, and it is
  zero or between 1 and \<open>2 ^ n\<close>, far from underflow and overflow.
\<close>

definition approx :: "nat \<Rightarrow> nat \<Rightarrow> f64 \<Rightarrow> rat \<Rightarrow> bool" where
  "approx k n x y \<longleftrightarrow>
     (\<exists>a. f64_val x = Some a \<and> near k a y \<and> (a = 0 \<or> 1 \<le> a) \<and> a \<le> 2 ^ n)"

lemma normal_if_ge_1: "q = 0 \<or> 1 \<le> q \<Longrightarrow> q = 0 \<or> (2 powi (- 1022) :: rat) \<le> q"
  using pow2_le_iff [of "- 1022" 0] by (auto simp del: pow2_le_iff)

lemma round64_pow2: "round64 (2 ^ n) = 2 ^ n"
  using round64_rep [OF f64_rep_pow2 [of "int n"]] by simp

lemma pow2_le_1023: "n \<le> 1023 \<Longrightarrow> q \<le> 2 ^ n \<Longrightarrow> (q :: rat) \<le> 2 ^ 1023"
  by (erule order_trans) (rule power_increasing; simp)

lemma approx_round:
  assumes "near k q y" and "q = 0 \<or> 1 \<le> q" and "q \<le> 2 ^ n"
  shows "near (Suc k) (round64 q) y" and "round64 q = 0 \<or> 1 \<le> round64 q" and "round64 q \<le> 2 ^ n"
proof -
  show "near (Suc k) (round64 q) y" by (rule near_round [OF assms(1) normal_if_ge_1 [OF assms(2)]])
  show "round64 q = 0 \<or> 1 \<le> round64 q"
    using assms(2) round64_mono [of 1 q] round64_pow2 [of 0] by auto
  show "round64 q \<le> 2 ^ n" using round64_mono [OF assms(3)] by (simp only: round64_pow2)
qed

lemma approx_of_u64: "approx 1 64 (f64_of_u64 w) (of_int (uint w))"
proof -
  let ?q = "of_int (uint w) :: rat"
  have "uint w < 2 ^ 64" using uint_lt2p [of w] by simp
  then have "?q \<le> of_int (2 ^ 64)" by (simp only: of_int_le_iff)
  then have le: "?q \<le> 2 ^ 64" by simp
  have q: "0 \<le> ?q" "?q = 0 \<or> 1 \<le> ?q"
    by (simp_all only: of_int_0_le_iff uint_ge_0 of_int_eq_0_iff of_int_1_le_iff)
      (use uint_ge_0 [of w] in linarith)
  have "\<bar>?q\<bar> \<le> 2 ^ 1023" using pow2_le_1023 [OF _ le] q(1) by simp
  then have "f64_val (f64_of_u64 w) = Some (round64 ?q)"
    unfolding f64_of_u64_def f64_of_int_def by (rule f64_val_rnd)
  then show ?thesis
    unfolding approx_def using approx_round [OF near_refl [OF q(1)] q(2) le] by auto
qed

lemma approx_mult:
  assumes "approx i m x y" "approx j n x' y'" and "m + n \<le> 1023"
  shows "approx (Suc (i + j)) (m + n) (x * x') (y * y')"
proof -
  obtain a where a: "f64_val x = Some a" "near i a y" "a = 0 \<or> 1 \<le> a" "a \<le> 2 ^ m"
    using assms(1) by (auto simp: approx_def)
  obtain b where b: "f64_val x' = Some b" "near j b y'" "b = 0 \<or> 1 \<le> b" "b \<le> 2 ^ n"
    using assms(2) by (auto simp: approx_def)
  have n: "0 \<le> a" "0 \<le> b" using a b by (auto simp: near_def)
  have big: "a * b = 0 \<or> 1 \<le> a * b" using a(3) b(3) mult_mono [of 1 a 1 b] by auto
  have le: "a * b \<le> 2 ^ (m + n)" using mult_mono [OF a(4) b(4)] n by (simp add: power_add)
  have "\<bar>a * b\<bar> \<le> 2 ^ 1023" using pow2_le_1023 [OF assms(3) le] n by simp
  from f64_val_mul [OF a(1) b(1) this] approx_round [OF near_mult [OF a(2) b(2)] big le]
  show ?thesis unfolding approx_def by blast
qed

lemma approx_add:
  assumes "approx k n x y" "approx k n x' y'" and "n < 1023"
  shows "approx (Suc k) (Suc n) (x + x') (y + y')"
proof -
  obtain a where a: "f64_val x = Some a" "near k a y" "a = 0 \<or> 1 \<le> a" "a \<le> 2 ^ n"
    using assms(1) by (auto simp: approx_def)
  obtain b where b: "f64_val x' = Some b" "near k b y'" "b = 0 \<or> 1 \<le> b" "b \<le> 2 ^ n"
    using assms(2) by (auto simp: approx_def)
  have n: "0 \<le> a" "0 \<le> b" using a b by (auto simp: near_def)
  have big: "a + b = 0 \<or> 1 \<le> a + b" using a(3) b(3) by auto
  have le: "a + b \<le> 2 ^ Suc n" using a(4) b(4) by simp
  have "\<bar>a + b\<bar> \<le> 2 ^ 1023" using pow2_le_1023 [OF _ le] assms(3) n by simp
  from f64_val_add [OF a(1) b(1) this] approx_round [OF near_add [OF a(2) b(2)] big le]
  show ?thesis unfolding approx_def by blast
qed

text \<open>A quotient may be below 1 but stays normal, so it costs one rounding too.\<close>

lemma approx_div:
  assumes "approx i m x y" "approx j n x' y'" and "0 < y'" and "m \<le> 1023" "n \<le> 1022"
  obtains a where "f64_val (x / x') = Some a" and "near (Suc (i + j)) a (y / y')"
proof -
  obtain a where a: "f64_val x = Some a" "near i a y" "a = 0 \<or> 1 \<le> a" "a \<le> 2 ^ m"
    using assms(1) by (auto simp: approx_def)
  obtain b where b: "f64_val x' = Some b" "near j b y'" "b = 0 \<or> 1 \<le> b" "b \<le> 2 ^ n"
    using assms(2) by (auto simp: approx_def)
  have b1: "1 \<le> b" using b(2,3) assms(3) by (auto simp: near_def)
  have a0: "0 \<le> a" using a(2) by (simp add: near_def)
  have "a / b \<le> a" using a0 b1 by (simp add: divide_le_eq mult_le_cancel_left1)
  then have le: "\<bar>a / b\<bar> \<le> 2 ^ 1023"
    using pow2_le_1023 [OF assms(4) a(4)] a0 b1 by (simp add: abs_of_nonneg)
  have low: "a / b = 0 \<or> 2 powi (- 1022) \<le> a / b"
  proof (cases "a = 0")
    case False
    have "b \<le> 2 ^ 1022" using b(4) power_increasing [OF assms(5), of "2::rat"] by linarith
    then have "1 / 2 ^ 1022 \<le> 1 / b" using b1 by (intro divide_left_mono) simp_all
    also have "1 / b \<le> a / b" using False a(3) b1 by (intro divide_right_mono) simp_all
    finally show ?thesis by (simp only: power_int_minus_divide power_int_numeral) simp
  qed simp
  have "near (i + j) (a / b) (y / y')" using near_div [OF a(2) b(2)] b1 assms(3) by simp
  from near_round [OF this low] f64_val_div [OF a(1) b(1) _ le] b1 show ?thesis by (intro that) auto
qed

lemma round64_half: "\<bar>i\<bar> < 2 ^ 53 \<Longrightarrow> round64 (of_int i / 2) = of_int i / 2"
proof (rule round64_rep)
  assume "\<bar>i\<bar> < 2 ^ 53"
  then show "f64_rep (of_int i / 2)"
    unfolding f64_rep_def by (intro exI [of _ i] exI [of _ "- 1"]) (simp add: power_int_minus_divide)
qed

section \<open>Monotone operations\<close>

text \<open>
  Facts about the order that hold for every value: \<open>\<not> y < x\<close> says that \<open>x\<close> is not above
  \<open>y\<close>, or that one of them is NaN.
\<close>

lemma f64_less_simps [simp]:
  "\<not> NaN < x" "\<not> x < NaN" "\<not> x < NInf" "\<not> PInf < x"
  "NInf < PInf" "NInf < NZero" "NInf < Fin q" "NZero < PInf" "Fin q < PInf"
  "NZero < Fin q \<longleftrightarrow> 0 < q" "Fin q < NZero \<longleftrightarrow> q < 0" "\<not> NZero < NZero"
  "Fin p < Fin q \<longleftrightarrow> p < q"
  by (cases x; simp add: less_f64_def)+

lemma f64_less_0_simps [simp]:
  "NInf < 0" "\<not> PInf < 0" "\<not> NZero < 0" "Fin q < 0 \<longleftrightarrow> q < 0"
  "\<not> 0 < NInf" "0 < PInf" "\<not> 0 < NZero" "0 < Fin q \<longleftrightarrow> 0 < q" "\<not> 0 < (0 :: f64)"
  by (simp_all add: zero_f64_def)

lemma rnd_cases:
  obtains "rnd q = PInf" "2 ^ 1024 \<le> round64 q" | "rnd q = NInf" "round64 q \<le> - (2 ^ 1024)"
  | "f64_val (rnd q) = Some (round64 q)" "- (2 ^ 1024) < round64 q" "round64 q < 2 ^ 1024"
  by (cases "2 ^ 1024 \<le> round64 q"; cases "round64 q \<le> - (2 ^ 1024)") (auto simp: rnd_def Let_def)

lemma rnd_mono: "p \<le> q \<Longrightarrow> \<not> rnd q < rnd p"
proof -
  assume "p \<le> q"
  then have "round64 p \<le> round64 q" by (rule round64_mono)
  then show ?thesis
    using f64_less_val [of "rnd q" "round64 q" "rnd p" "round64 p"]
    by (cases rule: rnd_cases [of p]; cases rule: rnd_cases [of q]) auto
qed

lemma rnd_finite: "f64_val (rnd q) = Some r \<Longrightarrow> r = round64 q"
  by (cases rule: rnd_cases [of q]) auto

text \<open>Both zeros compare alike, so a finite result can be replaced by the rounded value.\<close>

lemma f64_add_rnd:
  assumes "f64_val x = Some a" and "f64_val y = Some b"
  shows "u < x + y \<longleftrightarrow> u < rnd (a + b)" and "x + y < u \<longleftrightarrow> rnd (a + b) < u"
  using assms by (cases u; auto simp: plus_f64_def f64_add_def f64_zero_def rnd_def)+

lemma f64_mul_rnd:
  assumes "f64_val x = Some a" and "f64_val y = Some b"
  shows "u < x * y \<longleftrightarrow> u < rnd (a * b)" and "x * y < u \<longleftrightarrow> rnd (a * b) < u"
  using assms by (cases u; auto simp: times_f64_def f64_mul_def f64_zero_def rnd_def Let_def)+

lemma f64_add_inf [simp]:
  "NInf + Fin q = NInf" "PInf + Fin q = PInf" "Fin q + NInf = NInf" "Fin q + PInf = PInf"
  "NInf + NZero = NInf" "PInf + NZero = PInf" "NZero + NInf = NInf" "NZero + PInf = PInf"
  "NInf + NInf = NInf" "PInf + PInf = PInf" "NInf + PInf = NaN" "PInf + NInf = NaN"
  "NaN + x = NaN" "x + NaN = NaN"
  by (cases x; simp add: plus_f64_def f64_add_def)+

lemma f64_add_mono:
  fixes x y z :: f64
  assumes "\<not> y < x"
  shows "\<not> y + z < x + z"
proof (cases "\<exists>a b c. f64_val x = Some a \<and> f64_val y = Some b \<and> f64_val z = Some c")
  case True
  then obtain a b c where v: "f64_val x = Some a" "f64_val y = Some b" "f64_val z = Some c" by blast
  have "a \<le> b" using assms f64_less_val [OF v(2,1)] by simp
  then show ?thesis
    using rnd_mono [of "a + c" "b + c"] by (simp add: f64_add_rnd [OF v(1,3)] f64_add_rnd [OF v(2,3)])
next
  case False
  then show ?thesis using assms by (cases x; cases y; cases z) auto
qed

lemma f64_uminus_mono: "\<not> y < x \<Longrightarrow> \<not> f64_uminus x < f64_uminus y"
  by (cases x; cases y) auto

lemma f64_sub_add: "x - y = x + f64_uminus (y :: f64)"
  by (simp add: minus_f64_def f64_sub_def plus_f64_def)

lemma f64_add_commute: "x + y = y + (x :: f64)"
  by (cases x; cases y) (auto simp: plus_f64_def f64_add_def add.commute)

lemma f64_sub_mono: "\<not> y < x \<Longrightarrow> \<not> y - z < x - (z :: f64)"
  unfolding f64_sub_add by (rule f64_add_mono)

lemma f64_sub_antimono: "\<not> y < x \<Longrightarrow> \<not> z - x < z - (y :: f64)"
  unfolding f64_sub_add f64_add_commute [of z] by (intro f64_add_mono f64_uminus_mono)

lemma f64_mul_mono:
  fixes x y z :: f64
  assumes "\<not> y < x" and "\<not> z < 0"
  shows "\<not> y * z < x * z"
proof (cases "\<exists>a b c. f64_val x = Some a \<and> f64_val y = Some b \<and> f64_val z = Some c")
  case True
  then obtain a b c where v: "f64_val x = Some a" "f64_val y = Some b" "f64_val z = Some c" by blast
  have "a * c \<le> b * c"
    using assms f64_less_val [OF v(2,1)] f64_less_val [OF v(3) f64_val_0] by (simp add: mult_right_mono)
  then show ?thesis
    using rnd_mono [of "a * c" "b * c"] by (simp add: f64_mul_rnd [OF v(1,3)] f64_mul_rnd [OF v(2,3)])
next
  case False
  then show ?thesis using assms
    by (cases x; cases y; cases z)
      (auto simp: times_f64_def f64_mul_def zero_f64_def f64_inf_def Let_def)
qed

lemma rnd_nonneg: "0 \<le> q \<Longrightarrow> \<not> rnd q < 0"
  using rnd_mono [of 0 q] by (simp add: rnd_def zero_f64_def)

lemma f64_add_nonneg: "\<not> x < 0 \<Longrightarrow> \<not> y < 0 \<Longrightarrow> \<not> x + y < (0 :: f64)"
  by (cases x; cases y) (auto simp: plus_f64_def f64_add_def f64_zero_def rnd_nonneg)

lemma f64_mul_nonneg: "\<not> x < 0 \<Longrightarrow> \<not> y < 0 \<Longrightarrow> \<not> x * y < (0 :: f64)"
  by (cases x; cases y)
    (auto simp: times_f64_def f64_mul_def f64_zero_def f64_inf_def rnd_nonneg Let_def)

lemma f64_square_nonneg: "\<not> x * x < (0 :: f64)"
  by (cases x) (auto simp: times_f64_def f64_mul_def f64_zero_def f64_inf_def rnd_nonneg)

lemma f64_div_nonneg: "\<not> x < 0 \<Longrightarrow> 0 < y \<Longrightarrow> \<not> x / y < (0 :: f64)"
  by (cases x; cases y)
    (auto simp: divide_f64_def f64_div_def f64_zero_def f64_inf_def rnd_nonneg Let_def)

lemma f64_sub_le_add: "\<not> y < 0 \<Longrightarrow> \<not> x + y < x - (y :: f64)"
proof -
  assume "\<not> y < 0"
  then have "\<not> y < f64_uminus y" by (cases y) auto
  from f64_add_mono [OF this, of x] show ?thesis
    by (simp only: f64_sub_add f64_add_commute [of x] not_False_eq_True)
qed

definition round_half_away :: "rat \<Rightarrow> int" where
  "round_half_away q = (if 0 \<le> q then \<lfloor>q + 1 / 2\<rfloor> else \<lceil>q - 1 / 2\<rceil>)"

lemma f64_val_round: "f64_val x = Some q \<Longrightarrow> f64_val (f64_round x) = Some (of_int (round_half_away q))"
  by (cases x) (auto simp: round_half_away_def Let_def floor_eq_iff)

lemma round_half_away_mono: "p \<le> q \<Longrightarrow> round_half_away p \<le> round_half_away q"
proof (cases "0 \<le> p \<or> q < 0")
  case True
  then show "p \<le> q \<Longrightarrow> ?thesis" by (auto simp: round_half_away_def intro: floor_mono ceiling_mono)
next
  case False
  then have "\<lceil>p - 1 / 2\<rceil> \<le> 0" "0 \<le> \<lfloor>q + 1 / 2\<rfloor>" by (simp_all add: ceiling_le_iff)
  then have "\<lceil>p - 1 / 2\<rceil> \<le> \<lfloor>q + 1 / 2\<rfloor>" by (rule order_trans)
  with False show ?thesis by (simp add: round_half_away_def)
qed

lemma round_half_away_of_int [simp]: "round_half_away (of_int i) = i"
  by (auto simp: round_half_away_def floor_eq_iff ceiling_eq_iff)

lemma trunc0_mono: "p \<le> q \<Longrightarrow> trunc0 p \<le> trunc0 q"
proof (cases "0 \<le> p \<or> q < 0")
  case True
  then show "p \<le> q \<Longrightarrow> ?thesis" by (auto simp: trunc0_def intro: floor_mono ceiling_mono)
next
  case False
  then have "\<lceil>p\<rceil> \<le> 0" "0 \<le> \<lfloor>q\<rfloor>" by (simp_all add: ceiling_le_iff)
  then have "\<lceil>p\<rceil> \<le> \<lfloor>q\<rfloor>" by (rule order_trans)
  with False show ?thesis by (simp add: trunc0_def)
qed

lemma f64_to_u64_val:
  "f64_to_u64 x = Some a \<Longrightarrow> \<exists>q. f64_val x = Some q \<and> uint a = trunc0 q"
  by (auto simp: f64_to_u64_def uint_word_of_int take_bit_int_eq_self split: option.splits if_splits)

lemma f64_to_u64_int:
  "f64_val x = Some (of_int i) \<Longrightarrow> 0 \<le> i \<Longrightarrow> i < 2 ^ 64 \<Longrightarrow> f64_to_u64 x = Some (word_of_int i)"
  by (simp only: f64_to_u64_def option.case trunc0_of_int if_True simp_thms)

lemma f64_to_u64_trunc_mono:
  assumes "\<not> y < x" and "f64_to_u64 x = Some a" and "f64_to_u64 y = Some b"
  shows "a \<le> b"
proof -
  obtain p q where v: "f64_val x = Some p" "uint a = trunc0 p" "f64_val y = Some q" "uint b = trunc0 q"
    using f64_to_u64_val assms(2,3) by blast
  then have "p \<le> q" using assms(1) f64_less_val [OF v(3,1)] by simp
  with v show ?thesis by (simp add: word_le_def trunc0_mono)
qed

lemma f64_to_u64_mono:
  assumes "\<not> y < x" and "f64_to_u64 (f64_round x) = Some a" and "f64_to_u64 (f64_round y) = Some b"
  shows "a \<le> b"
proof -
  have fin: "\<exists>p. f64_val z = Some p" if "f64_to_u64 (f64_round z) = Some c" for z c
    using that by (cases z) (auto simp: f64_to_u64_def)
  obtain p q where v: "f64_val x = Some p" "f64_val y = Some q" using fin assms(2,3) by blast
  then have "p \<le> q" using assms(1) f64_less_val [OF v(2,1)] by simp
  then have "trunc0 (of_int (round_half_away p)) \<le> trunc0 (of_int (round_half_away q))"
    by (simp add: round_half_away_mono)
  with f64_to_u64_val [OF assms(2)] f64_to_u64_val [OF assms(3)] v show ?thesis
    by (auto simp: f64_val_round word_le_def)
qed

end
