(* ===== verification/Time_Stamp.thy ===== *)
theory Time_Stamp
  imports Float64 "HOL-Library.Signed_Division" "HOL-Library.Monad_Syntax"
begin

unbundle bit_operations_syntax

text \<open>
  \<^verbatim>\<open>include/nexus/core/rdtsc.hpp\<close> on Linux and x86-64: the counter assembled from its two
  registers, the calibration against the monotonic clock and the conversion of cycles to
  nanoseconds. The counter and the clock are the machine's: their readings are arguments, the
  clock's as the list of values the spin loop will see. A loop that has not ended when the
  readings are over is \<open>None\<close>.
\<close>

type_synonym u32 = "32 word"

definition tsc_value :: "u32 \<Rightarrow> u32 \<Rightarrow> u64" where
  "tsc_value hi lo = push_bit 32 (ucast hi) OR ucast lo"

text \<open>\<open>rdtscp\<close>: the same two registers; the processor number the instruction also gives is not used.\<close>

definition rdtscp_value :: "u32 \<Rightarrow> u32 \<Rightarrow> u32 \<Rightarrow> u64" where
  "rdtscp_value hi lo aux = push_bit 32 (ucast hi) OR ucast lo"

record timespec =
  tv_sec :: int
  tv_nsec :: int

definition calibration_deadline :: "timespec \<Rightarrow> timespec" where
  "calibration_deadline t1 =
     (let deadline = t1\<lparr>tv_nsec := tv_nsec t1 + 10000000\<rparr>
      in if tv_nsec deadline \<ge> 1000000000
         then deadline\<lparr>tv_sec := tv_sec deadline + 1, tv_nsec := tv_nsec deadline - 1000000000\<rparr>
         else deadline)"

text \<open>\<open>do clock_gettime(&t2) while (t2 < deadline)\<close>\<close>

fun spin_until :: "timespec \<Rightarrow> timespec list \<Rightarrow> timespec option" where
  "spin_until deadline [] = None"
| "spin_until deadline (t2 # ts) =
     (if tv_sec t2 < tv_sec deadline \<or>
         tv_sec t2 = tv_sec deadline \<and> tv_nsec t2 < tv_nsec deadline
      then spin_until deadline ts else Some t2)"

text \<open>The value of \<open>ns_per_cycle\<close> after \<open>calibrate\<close>; 0.31 is its initial value.\<close>

definition ns_per_cycle_default :: f64 where "ns_per_cycle_default = rnd (31 / 100)"

definition calibrate :: "f64 \<Rightarrow> timespec \<Rightarrow> u64 \<Rightarrow> timespec list \<Rightarrow> u64 \<Rightarrow> f64 option" where
  "calibrate ns_per_cycle t1 c1 readings c2 =
     (case spin_until (calibration_deadline t1) readings of
        None \<Rightarrow> None
      | Some t2 \<Rightarrow>
          let elapsed_ns = f64_of_int (tv_sec t2 - tv_sec t1) * Fin 1000000000 +
                f64_of_int (tv_nsec t2 - tv_nsec t1)
          in Some (if c2 > c1 then elapsed_ns / f64_of_u64 (c2 - c1) else ns_per_cycle))"

definition to_ns :: "f64 \<Rightarrow> u64 \<Rightarrow> f64" where
  "to_ns ns_per_cycle cycles = f64_of_u64 cycles * ns_per_cycle"

definition to_ns_u64 :: "f64 \<Rightarrow> u64 \<Rightarrow> u64 option" where
  "to_ns_u64 ns_per_cycle cycles = f64_to_u64 (to_ns ns_per_cycle cycles + Fin (1 / 2))"

text \<open>
  The other branches: without a time-stamp counter \<open>rdtsc\<close> returns the monotonic clock, and on
  Windows \<open>calibrate\<close> uses the performance counter. There \<open>None\<close> is also an overflow of the
  deadline, undefined behaviour.
\<close>

definition rdtsc_fallback :: "timespec \<Rightarrow> u64" where
  "rdtsc_fallback ts = word_of_int (tv_sec ts) * 1000000000 + word_of_int (tv_nsec ts)"

fun spin_counter :: "int \<Rightarrow> int list \<Rightarrow> int option" where
  "spin_counter deadline [] = None"
| "spin_counter deadline (t2 # ts) = (if t2 < deadline then spin_counter deadline ts else Some t2)"

definition calibrate_windows :: "f64 \<Rightarrow> int \<Rightarrow> int \<Rightarrow> u64 \<Rightarrow> int list \<Rightarrow> u64 \<Rightarrow> f64 option" where
  "calibrate_windows ns_per_cycle freq t1 c1 readings c2 = do {
     deadline \<leftarrow> i64 (t1 + freq sdiv 100);
     t2 \<leftarrow> spin_counter deadline readings;
     elapsed \<leftarrow> i64 (t2 - t1);
     let elapsed_ns = f64_of_int elapsed / f64_of_int freq * Fin 1000000000;
     Some (if c2 > c1 then elapsed_ns / f64_of_u64 (c2 - c1) else ns_per_cycle)
   }"

section \<open>The clock in nanoseconds\<close>

definition ns_of :: "timespec \<Rightarrow> int" where
  "ns_of t = tv_sec t * 1000000000 + tv_nsec t"

definition normalised :: "timespec \<Rightarrow> bool" where
  "normalised t \<longleftrightarrow> 0 \<le> tv_nsec t \<and> tv_nsec t < 1000000000"

lemma timespec_less_iff:
  assumes "normalised s" and "normalised t"
  shows "tv_sec s < tv_sec t \<or> tv_sec s = tv_sec t \<and> tv_nsec s < tv_nsec t \<longleftrightarrow> ns_of s < ns_of t"
  using assms unfolding normalised_def ns_of_def by auto

lemma calibration_deadline_ns:
  "normalised t \<Longrightarrow> normalised (calibration_deadline t) \<and>
     ns_of (calibration_deadline t) = ns_of t + 10000000"
  by (auto simp: normalised_def ns_of_def calibration_deadline_def Let_def)

lemma spin_until_find:
  assumes "normalised d" and "\<forall>t \<in> set ts. normalised t"
  shows "spin_until d ts = find (\<lambda>t. ns_of d \<le> ns_of t) ts"
  using assms(2)
proof (induction ts)
  case (Cons t ts)
  then show ?case using timespec_less_iff [of t d] assms(1) by (simp add: linorder_not_le [symmetric])
qed simp

section \<open>Properties\<close>

text \<open>The two registers are the halves of the counter.\<close>

lemma tsc_value_parts: "unat (tsc_value hi lo) = unat hi * 2 ^ 32 + unat lo"
proof -
  have lt: "unat hi < 2 ^ 32" "unat lo < 2 ^ 32"
    using unsigned_less [of hi, where 'a = nat] unsigned_less [of lo, where 'a = nat] by simp_all
  have "push_bit 32 (ucast hi :: u64) AND ucast lo = 0"
    by (rule bit_eqI) (auto simp: bit_simps dest: bit_imp_le_length)
  then have "tsc_value hi lo = push_bit 32 (ucast hi) + ucast lo"
    by (simp add: tsc_value_def disjunctive_add_eq_or)
  also have "push_bit 32 (ucast hi :: u64) = ucast hi * 2 ^ 32" by (simp add: push_bit_eq_mult)
  finally have "unat (tsc_value hi lo) = (unat hi * 2 ^ 32 + unat lo) mod 2 ^ 64"
    using lt by (simp add: unat_word_ariths unsigned_ucast_eq take_bit_eq_mod mod_simps)
  moreover have "unat hi * 2 ^ 32 + unat lo < 2 ^ 64" using lt by simp
  ultimately show ?thesis by (simp only: mod_less)
qed

lemma rdtscp_value_parts: "unat (rdtscp_value hi lo aux) = unat hi * 2 ^ 32 + unat lo"
  using tsc_value_parts by (simp only: rdtscp_value_def tsc_value_def)

text \<open>
  Calibration ends exactly when the clock gets there: on well-formed readings it returns
  if and only if one of them is at least ten milliseconds after the first, across the carry
  of the nanoseconds into the seconds too.
\<close>

lemma calibrate_returns_iff:
  assumes "normalised t1" and "\<forall>t \<in> set readings. normalised t"
  shows "calibrate ns t1 c1 readings c2 \<noteq> None \<longleftrightarrow>
    (\<exists>t \<in> set readings. ns_of t1 + 10000000 \<le> ns_of t)"
proof -
  have "spin_until (calibration_deadline t1) readings =
      find (\<lambda>t. ns_of t1 + 10000000 \<le> ns_of t) readings"
    using spin_until_find [OF _ assms(2)] calibration_deadline_ns [OF assms(1)] by simp
  then show ?thesis
    using find_None_iff [of "\<lambda>t. ns_of t1 + 10000000 \<le> ns_of t" readings]
    by (cases "find (\<lambda>t. ns_of t1 + 10000000 \<le> ns_of t) readings")
      (auto simp: calibrate_def Let_def)
qed

theorem calibrate_returns_iff_witness:
  "calibrate ns_per_cycle_default \<lparr>tv_sec = 5, tv_nsec = 995000000\<rparr> 1000
     [\<lparr>tv_sec = 6, tv_nsec = 4999999\<rparr>, \<lparr>tv_sec = 6, tv_nsec = 5000000\<rparr>] 2000 \<noteq> None"
  using calibrate_returns_iff [of "\<lparr>tv_sec = 5, tv_nsec = 995000000\<rparr>"
      "[\<lparr>tv_sec = 6, tv_nsec = 4999999\<rparr>, \<lparr>tv_sec = 6, tv_nsec = 5000000\<rparr>]"]
  by (simp add: normalised_def ns_of_def)

text \<open>
  (C26) Calibration measures what it says: if the first reading at the deadline is \<open>t2\<close>, the
  time elapsed is at least ten milliseconds, and the ratio stored is within the relative
  error \<open>2\<^sup>-\<^sup>5\<^sup>0\<close> of the exact nanoseconds per cycle.
\<close>

theorem calibrate_accurate:
  assumes "normalised t1" and "\<forall>t \<in> set (before @ [t2]). normalised t"
    and "\<forall>t \<in> set before. ns_of t < ns_of t1 + 10000000" and "ns_of t1 + 10000000 \<le> ns_of t2"
    and "ns_of t2 - ns_of t1 < 2 ^ 52" and "c1 < c2"
  shows "\<exists>ns v. calibrate ns0 t1 c1 (before @ t2 # rest) c2 = Some ns \<and> f64_val ns = Some v \<and>
    \<bar>v - of_int (ns_of t2 - ns_of t1) / of_int (uint c2 - uint c1)\<bar> \<le>
      of_int (ns_of t2 - ns_of t1) / of_int (uint c2 - uint c1) / 2 ^ 50"
proof -
  let ?E = "ns_of t2 - ns_of t1" and ?c = "uint c2 - uint c1"
  let ?elapsed = "f64_of_int (tv_sec t2 - tv_sec t1) * Fin 1000000000 +
    f64_of_int (tv_nsec t2 - tv_nsec t1)"
  have spin: "spin_until (calibration_deadline t1) (before @ t2 # rest) = Some t2"
    using assms(2-4) calibration_deadline_ns [OF assms(1)] timespec_less_iff [of _ "calibration_deadline t1"]
    by (induction before) auto
  have norm: "0 \<le> tv_nsec t1" "tv_nsec t1 < 1000000000" "0 \<le> tv_nsec t2" "tv_nsec t2 < 1000000000"
    using assms(1,2) by (simp_all add: normalised_def)
  have E: "?E = (tv_sec t2 - tv_sec t1) * 1000000000 + (tv_nsec t2 - tv_nsec t1)"
    by (simp add: ns_of_def algebra_simps)
  have giga: "f64_int (Fin 1000000000) 1000000000" by (simp add: f64_int_def)
  have small: "\<bar>(tv_sec t2 - tv_sec t1) * 1000000000\<bar> < 2 ^ 53" "\<bar>tv_sec t2 - tv_sec t1\<bar> < 2 ^ 53"
    "\<bar>tv_nsec t2 - tv_nsec t1\<bar> < 2 ^ 53" "\<bar>?E\<bar> < 2 ^ 53"
    using norm E assms(4,5) by (auto simp: abs_less_iff)
  have "f64_int ?elapsed ?E"
    unfolding E by (intro f64_int_add f64_int_mul f64_int_of_int giga small small(4) [unfolded E])
  then have val: "f64_val ?elapsed = Some (of_int ?E)" by (simp only: f64_int_def)
  have E1: "1 \<le> (of_int ?E :: rat)" "of_int ?E \<le> (of_int (2 ^ 52) :: rat)"
    using assms(4,5) by (simp_all only: of_int_1_le_iff of_int_le_iff)
  then have num: "approx 0 52 ?elapsed (of_int ?E)"
    unfolding approx_def using val near_refl [of "of_int ?E"] by auto
  have top: "uint c2 < 2 ^ 64" using uint_lt2p [of c2] by simp
  have lt: "0 < ?c" "?c < 2 ^ 64"
    using assms(6) top uint_ge_0 [of c1] unfolding word_less_def by linarith+
  have c: "uint (c2 - c1) = ?c" "0 < ?c"
    using lt mod_pos_pos_trivial [of ?c "2 ^ 64"] by (simp_all add: uint_word_ariths)
  have "0 < (of_int (uint (c2 - c1)) :: rat)" using c by (simp only: of_int_0_less_iff)
  from approx_div [OF num approx_of_u64 this] obtain v where
    v: "f64_val (?elapsed / f64_of_u64 (c2 - c1)) = Some v" "near 2 v (of_int ?E / of_int ?c)"
    unfolding c(1) by (auto simp: numeral_2_eq_2)
  have e: "(1 + 1 / 2 ^ 52 :: rat) ^ 2 \<le> 1 + 1 / 2 ^ 50" "0 \<le> (1 / 2 ^ 50 :: rat)"
    by code_simp+
  from near_error [OF v(2) e] have
    "\<bar>v - of_int ?E / of_int ?c\<bar> \<le> of_int ?E / of_int ?c / 2 ^ 50"
    by (simp only: times_divide_eq_left mult_1)
  with v(1) spin assms(6) show ?thesis by (simp add: calibrate_def Let_def)
qed

theorem calibrate_accurate_witness:
  "\<exists>ns v. calibrate ns_per_cycle_default \<lparr>tv_sec = 5, tv_nsec = 995000000\<rparr> 1000
       ([\<lparr>tv_sec = 6, tv_nsec = 4999999\<rparr>] @ \<lparr>tv_sec = 6, tv_nsec = 5000000\<rparr> # []) 30001000 = Some ns \<and>
     f64_val ns = Some v \<and> \<bar>v - 1 / 3\<bar> \<le> 1 / 3 / 2 ^ 50"
  using calibrate_accurate [of "\<lparr>tv_sec = 5, tv_nsec = 995000000\<rparr>"
      "[\<lparr>tv_sec = 6, tv_nsec = 4999999\<rparr>]" "\<lparr>tv_sec = 6, tv_nsec = 5000000\<rparr>" 1000 30001000
      ns_per_cycle_default "[]"]
  by (simp add: normalised_def ns_of_def)

text \<open>
  More cycles never take less time: with a ratio that is not negative, the rounded
  nanoseconds grow with the cycles whenever both are defined.
\<close>

lemma to_ns_u64_mono:
  assumes "\<not> ns < 0" and "c \<le> d" and "to_ns_u64 ns c = Some a" and "to_ns_u64 ns d = Some b"
  shows "a \<le> b"
proof -
  have "\<not> f64_of_u64 d < f64_of_u64 c"
    unfolding f64_of_u64_def f64_of_int_def using assms(2) by (intro rnd_mono) (simp only: of_int_le_iff word_le_def)
  then have "\<not> to_ns ns d + Fin (1 / 2) < to_ns ns c + Fin (1 / 2)"
    unfolding to_ns_def using assms(1) by (intro f64_add_mono f64_mul_mono)
  from f64_to_u64_trunc_mono [OF this] assms(3,4) show ?thesis by (simp add: to_ns_u64_def)
qed

lemma to_ns_u64_one:
  assumes "uint w < 2 ^ 50"
  shows "to_ns_u64 (Fin 1) w = Some w"
proof -
  have one: "f64_int (Fin 1) 1" by (simp add: f64_int_def)
  have "f64_int (to_ns (Fin 1) w) (uint w * 1)"
    unfolding to_ns_def using assms by (intro f64_int_mul f64_int_of_u64 one) auto
  then have w: "f64_val (to_ns (Fin 1) w) = Some (of_int (uint w))" by (simp only: f64_int_def mult_1_right)
  have half: "of_int (uint w) + 1 / 2 = (of_int (2 * uint w + 1) / 2 :: rat)" by simp
  have rep: "round64 (of_int (uint w) + 1 / 2) = of_int (uint w) + 1 / 2"
    unfolding half using assms by (intro round64_half) auto
  have "of_int (uint w) \<le> (of_int (2 ^ 50) :: rat)" using assms by (simp only: of_int_le_iff less_imp_le)
  moreover have "0 \<le> (of_int (uint w) :: rat)" by (simp only: of_int_0_le_iff uint_ge_0)
  ultimately have "\<bar>of_int (uint w) + 1 / 2 :: rat\<bar> \<le> 2 ^ 51" by simp
  then have bnd: "\<bar>of_int (uint w) + 1 / 2 :: rat\<bar> \<le> 2 ^ 1023" by (rule pow2_le_1023 [rotated]) simp
  have "f64_val (to_ns (Fin 1) w + Fin (1 / 2)) = Some (of_int (uint w) + 1 / 2)"
    using f64_val_add [OF w, of "Fin (1 / 2)" "1 / 2"] bnd unfolding rep by simp
  moreover have "trunc0 (of_int (uint w) + 1 / 2) = uint w"
    by (simp add: trunc0_def floor_eq_iff del: of_int_uint)
  moreover have "uint w < 2 ^ 64" using uint_lt2p [of w] by simp
  ultimately show ?thesis by (simp add: to_ns_u64_def f64_to_u64_def)
qed

theorem to_ns_u64_mono_witness:
  "to_ns_u64 (Fin 1) 10 = Some 10 \<and> to_ns_u64 (Fin 1) 25 = Some 25 \<and> (10 :: u64) \<le> 25"
  using to_ns_u64_mono [of "Fin 1" 10 25 10 25] to_ns_u64_one [of 10] to_ns_u64_one [of 25] by simp

text \<open>
  The performance counter's calibration: a ratio of at least ten milliseconds' worth of ticks,
  within the relative error \<open>2\<^sup>-\<^sup>4\<^sup>9\<close> of the exact nanoseconds per cycle.
\<close>

lemma f64_of_int_near:
  assumes "0 < i" and "i < 2 ^ 53"
  shows "f64_val (f64_of_int i) = Some (of_int i)"
  using f64_int_of_int [of i] assms by (simp add: f64_int_def)

lemma of_int_pow2_bounds:
  assumes "(1::int) \<le> i" and "i < 2 ^ 53"
  shows "1 \<le> (of_int i :: rat)" and "of_int i \<le> (2 ^ 53 :: rat)"
proof -
  show "1 \<le> (of_int i :: rat)" using assms(1) by simp
  have "of_int i \<le> (of_int (2 ^ 53) :: rat)" using assms(2) by (simp only: of_int_le_iff less_imp_le)
  then show "of_int i \<le> (2 ^ 53 :: rat)" by simp
qed

lemma counter_ns_approx:
  assumes E: "1 \<le> E" "E < 2 ^ 53" and F: "1 \<le> F" "F < 2 ^ 53" and big: "F \<le> 256 * E"
  shows "approx 2 84 (f64_of_int E / f64_of_int F * Fin 1000000000)
    (of_int E / of_int F * 1000000000)"
proof -
  let ?q = "of_int E / of_int F :: rat"
  note e = of_int_pow2_bounds [OF E] and f = of_int_pow2_bounds [OF F]
  have "?q \<le> 2 ^ 53 / 1" using e f by (intro frac_le) simp_all
  then have q1: "?q \<le> 2 ^ 53" by simp
  have "(of_int F :: rat) \<le> of_int (256 * E)" using big by (simp only: of_int_le_iff)
  then have q0: "1 / 2 ^ 8 \<le> ?q" using f by (simp add: field_simps)
  have qb: "\<bar>?q\<bar> \<le> 2 ^ 1023"
    using q0 pow2_le_1023 [OF _ q1] by (simp add: abs_of_nonneg order_trans [of 0 "1 / 2 ^ 8" ?q])
  have v1: "f64_val (f64_of_int E / f64_of_int F) = Some (round64 ?q)"
    using E F f qb by (intro f64_val_div f64_of_int_near) simp_all
  have small: "(2 powi (- 1022) :: rat) \<le> 2 powi (- 8)" by simp
  have p8: "(2 powi (- 8) :: rat) = 1 / 2 ^ 8" by code_simp
  have pos: "0 \<le> ?q" using q0 by (rule order_trans [rotated]) simp
  have "(2 powi (- 1022) :: rat) \<le> ?q" using small q0 unfolding p8 by (rule order_trans)
  from near_round [OF near_refl [OF pos] disjI2, OF this] have n1: "near 1 (round64 ?q) ?q"
    by (simp only: One_nat_def)
  have "round64 (2 powi (- 8)) \<le> round64 ?q" using q0 unfolding p8 by (rule round64_mono)
  moreover have "round64 (2 powi (- 8)) = 2 powi (- 8)" by (intro round64_rep f64_rep_pow2) simp
  ultimately have r0: "1 / 2 ^ 8 \<le> round64 ?q" unfolding p8 by simp
  have r1: "round64 ?q \<le> 2 ^ 53" using round64_mono [OF q1] by (simp only: round64_pow2)
  let ?p = "round64 ?q * 1000000000"
  have p: "1 \<le> ?p" "?p \<le> 2 ^ 84" using r0 r1 by simp_all
  have np: "near 1 ?p (?q * 1000000000)"
    using near_mult [OF n1 near_refl [of 1000000000]] by simp
  have pp: "?p = 0 \<or> 1 \<le> ?p" using p(1) by (rule disjI2)
  have "\<bar>?p\<bar> \<le> 2 ^ 1023"
    using p pow2_le_1023 [of 84 ?p] by (simp add: abs_of_nonneg order_trans [of 0 1 ?p])
  then have v2: "f64_val (f64_of_int E / f64_of_int F * Fin 1000000000) = Some (round64 ?p)"
    by (intro f64_val_mul [OF v1]) simp_all
  have "near 2 (round64 ?p) (?q * 1000000000)" "round64 ?p = 0 \<or> 1 \<le> round64 ?p" "round64 ?p \<le> 2 ^ 84"
    using approx_round [OF np pp p(2)] by (simp_all add: numeral_2_eq_2)
  with v2 show ?thesis unfolding approx_def by blast
qed

lemma calibrate_windows_accurate:
  assumes F: "100 \<le> freq" "freq < 2 ^ 53" and t1: "0 \<le> t1" "t1 < 2 ^ 62"
    and before: "\<forall>t \<in> set before. t < t1 + freq div 100" and t2: "t1 + freq div 100 \<le> t2" "t2 - t1 < 2 ^ 53"
    and c: "c1 < c2"
  shows "\<exists>ns v. calibrate_windows ns0 freq t1 c1 (before @ t2 # rest) c2 = Some ns \<and> f64_val ns = Some v \<and>
    near 4 v (of_int (t2 - t1) / of_int freq * 1000000000 / of_int (uint c2 - uint c1))"
proof -
  let ?E = "t2 - t1" and ?c = "uint c2 - uint c1"
  let ?elapsed = "f64_of_int ?E / f64_of_int freq * Fin 1000000000"
  have q: "freq sdiv 100 = freq div 100" using F(1) by (simp add: signed_divide_int_def)
  have d: "1 \<le> freq div 100" "freq \<le> 199 * (freq div 100)" using F(1) by presburger+
  have "freq div 100 \<le> freq" using F(1) by presburger
  then have i1: "i64 (t1 + freq div 100) = Some (t1 + freq div 100)"
    using F t1 d(1) by (simp add: i64_def in_i64_def)
  have i2: "i64 ?E = Some ?E" using t2 d by (simp add: i64_def in_i64_def)
  have spin: "spin_counter (t1 + freq div 100) (before @ t2 # rest) = Some t2"
    using before t2(1) by (induction before) auto
  have num: "approx 2 84 ?elapsed (of_int ?E / of_int freq * 1000000000)"
  proof (rule counter_ns_approx)
    show E: "1 \<le> ?E" using t2(1) d(1) by linarith
    have "freq \<le> 199 * (freq div 100)" by (rule d(2))
    also have "\<dots> \<le> 199 * ?E" using t2(1) by (intro mult_left_mono) linarith+
    also have "\<dots> \<le> 256 * ?E" using E by (intro mult_right_mono) linarith+
    finally show "freq \<le> 256 * ?E" .
  qed (use F t2(2) in simp_all)
  have top: "uint c2 < 2 ^ 64" using uint_lt2p [of c2] by simp
  have lt: "0 < ?c" "?c < 2 ^ 64"
    using c top uint_ge_0 [of c1] unfolding word_less_def by linarith+
  have uc: "uint (c2 - c1) = ?c"
    using lt mod_pos_pos_trivial [of ?c "2 ^ 64"] by (simp_all add: uint_word_ariths)
  have "0 < (of_int (uint (c2 - c1)) :: rat)" unfolding uc using lt(1) by (simp only: of_int_0_less_iff)
  from approx_div [OF num approx_of_u64 this] obtain v where
    "f64_val (?elapsed / f64_of_u64 (c2 - c1)) = Some v"
    "near 4 v (of_int ?E / of_int freq * 1000000000 / of_int ?c)"
    unfolding uc by (auto simp: eval_nat_numeral)
  then show ?thesis using i1 i2 spin c q by (simp add: calibrate_windows_def Let_def)
qed

lemma rdtsc_fallback_exact:
  "0 \<le> ns_of t \<Longrightarrow> ns_of t < 2 ^ 64 \<Longrightarrow> uint (rdtsc_fallback t) = ns_of t"
proof -
  assume r: "0 \<le> ns_of t" "ns_of t < 2 ^ 64"
  have "rdtsc_fallback t = word_of_int (ns_of t)" by (simp add: rdtsc_fallback_def ns_of_def)
  then have "uint (rdtsc_fallback t) = ns_of t mod 2 ^ 64" by (simp add: uint_word_of_int)
  then show ?thesis using mod_pos_pos_trivial [OF r] by simp
qed

end
