(* ===== verification/Decimal_Text.thy ===== *)
theory Decimal_Text
  imports Float64
begin

text \<open>
  Numbers as text, the way the standard library's streams write and read them in the default
  locale: \<open>operator<<\<close> for an integer and for a \<open>double\<close> under \<open>std::fixed\<close> and
  \<open>std::setprecision(2)\<close>, and \<open>operator>>\<close> for a \<open>double\<close> and a \<open>long long\<close>. A reader skips
  white space and takes the longest prefix that can belong to a number; when that prefix is not
  a number, or one that is out of range, the stream fails, \<open>None\<close>.
\<close>

section \<open>Digits\<close>

definition is_space :: "char \<Rightarrow> bool" where
  "is_space c \<longleftrightarrow> of_char c \<in> {9, 10, 11, 12, 13, 32 :: nat}"

definition is_digit :: "char \<Rightarrow> bool" where
  "is_digit c \<longleftrightarrow> 48 \<le> (of_char c :: nat) \<and> (of_char c :: nat) \<le> 57"

definition digit_char :: "nat \<Rightarrow> char" where "digit_char d = char_of (48 + d)"

definition digit_val :: "char \<Rightarrow> nat" where "digit_val c = of_char c - 48"

fun show_nat :: "nat \<Rightarrow> string" where
  "show_nat n = (if n < 10 then [digit_char n] else show_nat (n div 10) @ [digit_char (n mod 10)])"

declare show_nat.simps [simp del]

definition nat_of_digits :: "string \<Rightarrow> nat" where
  "nat_of_digits s = foldl (\<lambda>n c. 10 * n + digit_val c) 0 s"

section \<open>Writing\<close>

definition show_u64 :: "u64 \<Rightarrow> string" where "show_u64 w = show_nat (unat w)"

text \<open>The value in hundredths is rounded to the nearest integer, ties to even.\<close>

definition show_hundredths :: "nat \<Rightarrow> string" where
  "show_hundredths n = show_nat (n div 100) @ ''.'' @ [digit_char (n div 10 mod 10), digit_char (n mod 10)]"

fun show_fixed2 :: "f64 \<Rightarrow> string" where
  "show_fixed2 NaN = ''nan''"
| "show_fixed2 PInf = ''inf''"
| "show_fixed2 NInf = ''-inf''"
| "show_fixed2 NZero = ''-0.00''"
| "show_fixed2 (Fin q) = (if q < 0 then ''-'' else '''') @ show_hundredths (nat (rne (\<bar>q\<bar> * 100)))"

section \<open>Reading\<close>

definition read_sign :: "string \<Rightarrow> bool \<times> string" where
  "read_sign s =
     (case s of
        c # t \<Rightarrow> if c = CHR ''-'' then (True, t) else if c = CHR ''+'' then (False, t) else (False, s)
      | [] \<Rightarrow> (False, s))"

definition read_fraction :: "string \<Rightarrow> string \<times> string" where
  "read_fraction s =
     (case s of
        c # t \<Rightarrow> if c = CHR ''.'' then (takeWhile is_digit t, dropWhile is_digit t) else ([], s)
      | [] \<Rightarrow> ([], s))"

text \<open>An exponent letter commits the reader: without a digit after it the stream fails.\<close>

definition read_exponent :: "string \<Rightarrow> (int \<times> string) option" where
  "read_exponent s =
     (case s of
        c # t \<Rightarrow>
          if c = CHR ''e'' \<or> c = CHR ''E''
          then let (neg, u) = read_sign t; ds = takeWhile is_digit u; n = int (nat_of_digits ds)
               in if ds = [] then None else Some (if neg then - n else n, dropWhile is_digit u)
          else Some (0, s)
      | [] \<Rightarrow> Some (0, s))"

definition f64_of_decimal :: "bool \<Rightarrow> nat \<Rightarrow> int \<Rightarrow> f64" where
  "f64_of_decimal neg m e =
     (if m = 0 then f64_zero neg
      else rnd ((if neg then - 1 else 1) * of_nat m * 10 powi e))"

definition read_double :: "string \<Rightarrow> (f64 \<times> string) option" where
  "read_double s =
     (let (neg, s1) = read_sign (dropWhile is_space s);
          ip = takeWhile is_digit s1;
          (fp, s2) = read_fraction (dropWhile is_digit s1)
      in if ip @ fp = [] then None
         else case read_exponent s2 of
                None \<Rightarrow> None
              | Some (e, s3) \<Rightarrow>
                  let v = f64_of_decimal neg (nat_of_digits (ip @ fp)) (e - int (length fp))
                  in if v = PInf \<or> v = NInf then None else Some (v, s3))"

definition read_long :: "string \<Rightarrow> (int \<times> string) option" where
  "read_long s =
     (let (neg, s1) = read_sign (dropWhile is_space s);
          ds = takeWhile is_digit s1;
          n = int (nat_of_digits ds)
      in if ds = [] then None
         else map_option (\<lambda>i. (i, dropWhile is_digit s1)) (i64 (if neg then - n else n)))"

section \<open>Digits of a number\<close>

lemma digit_char [simp]:
  assumes "d < 10"
  shows "is_digit (digit_char d)" and "digit_val (digit_char d) = d"
  using assms by (simp_all add: is_digit_def digit_char_def digit_val_def of_char_of)

lemma nat_of_digits_snoc [simp]: "nat_of_digits (s @ [c]) = 10 * nat_of_digits s + digit_val c"
  by (simp add: nat_of_digits_def)

lemma nat_of_digits_Nil [simp]: "nat_of_digits [] = 0"
  by (simp add: nat_of_digits_def)

lemma nat_of_show_nat [simp]: "nat_of_digits (show_nat n) = n"
  by (induction n rule: show_nat.induct) (subst show_nat.simps, simp add: nat_of_digits_def)

lemma show_nat_digits: "c \<in> set (show_nat n) \<Longrightarrow> is_digit c"
  by (induction n rule: show_nat.induct) (subst (asm) (2) show_nat.simps, auto split: if_splits)

lemma show_nat_not_empty [simp]: "show_nat n \<noteq> []"
  by (subst show_nat.simps) simp

lemma digit_not_space: "is_digit c \<Longrightarrow> \<not> is_space c"
  by (auto simp: is_digit_def is_space_def)

lemma digit_not_sign: "is_digit c \<Longrightarrow> c \<noteq> CHR ''-'' \<and> c \<noteq> CHR ''+'' \<and> c \<noteq> CHR ''.''"
  by (auto simp: is_digit_def)

text \<open>A text whose next character, if any, is not one of a number.\<close>

definition number_ends :: "string \<Rightarrow> bool" where
  "number_ends s \<longleftrightarrow> (case s of [] \<Rightarrow> True
     | c # _ \<Rightarrow> \<not> is_digit c \<and> c \<noteq> CHR ''.'' \<and> c \<noteq> CHR ''e'' \<and> c \<noteq> CHR ''E'')"

lemma digits_prefix:
  assumes "\<forall>c \<in> set ds. is_digit c" and "s = [] \<or> \<not> is_digit (hd s)"
  shows "takeWhile is_digit (ds @ s) = ds" and "dropWhile is_digit (ds @ s) = s"
  using assms by (induction ds; cases s; auto)+

lemma skip_space_digits:
  assumes "\<forall>c \<in> set ds. is_digit c" and "ds \<noteq> []"
  shows "dropWhile is_space (ds @ s) = ds @ s" and "read_sign (ds @ s) = (False, ds @ s)"
  using assms digit_not_space [of "hd ds"] digit_not_sign [of "hd ds"]
  by (cases ds; simp add: read_sign_def)+

lemma skip_one_space: "dropWhile is_space (CHR '' '' # s) = dropWhile is_space s"
  by (simp add: is_space_def)

section \<open>Reading what was written\<close>

lemma read_long_show:
  assumes "number_ends s" and "n < 2 ^ 63"
  shows "read_long (show_nat n @ s) = Some (int n, s)"
proof -
  have ds: "\<forall>c \<in> set (show_nat n). is_digit c" using show_nat_digits by blast
  have e: "s = [] \<or> \<not> is_digit (hd s)" using assms(1) by (auto simp: number_ends_def split: list.splits)
  show ?thesis
    unfolding read_long_def skip_space_digits [OF ds show_nat_not_empty] Let_def prod.case
      digits_prefix [OF ds e]
    using assms(2) by (simp add: i64_def in_i64_def)
qed

lemma read_exponent_end: "number_ends s \<Longrightarrow> read_exponent s = Some (0, s)"
  by (cases s) (auto simp: number_ends_def read_exponent_def)

lemma hundredths_digits:
  "nat_of_digits (show_nat (n div 100) @ [digit_char (n div 10 mod 10), digit_char (n mod 10)]) = n"
proof -
  have "nat_of_digits ((show_nat (n div 100) @ [digit_char (n div 10 mod 10)]) @ [digit_char (n mod 10)]) =
      10 * (10 * (n div 100) + n div 10 mod 10) + n mod 10"
    unfolding nat_of_digits_snoc by simp
  also have h: "n div 100 = n div 10 div 10" by (simp flip: div_mult2_eq)
  also have "10 * (n div 10 div 10) + n div 10 mod 10 = n div 10" by (rule mult_div_mod_eq)
  also have "10 * (n div 10) + n mod 10 = n" by (rule mult_div_mod_eq)
  finally show ?thesis by (simp only: append_assoc append_Cons append_Nil h)
qed

text \<open>Two decimals are read as the double nearest to the exact number of hundredths.\<close>

lemma read_double_hundredths:
  assumes "number_ends s" and "0 < n" and "n < 2 ^ 64"
  shows "read_double (show_hundredths n @ s) = Some (rnd (of_nat n / 100), s)"
proof -
  let ?ip = "show_nat (n div 100)" and ?fp = "[digit_char (n div 10 mod 10), digit_char (n mod 10)]"
  have ip: "\<forall>c \<in> set ?ip. is_digit c" using show_nat_digits by blast
  have fp: "\<forall>c \<in> set ?fp. is_digit c" by simp
  have shape: "show_hundredths n @ s = ?ip @ (CHR ''.'' # (?fp @ s))" by (simp add: show_hundredths_def)
  have dot: "\<not> is_digit CHR ''.''" by (simp add: is_digit_def)
  have e: "s = [] \<or> \<not> is_digit (hd s)" using assms(1) by (auto simp: number_ends_def split: list.splits)
  have dec: "f64_of_decimal False n (- 2) = rnd (of_nat n / 100)"
    using assms(2) by (simp add: f64_of_decimal_def power_int_minus_divide)
  have "of_nat n / 100 \<le> (2 ^ 64 :: rat)"
  proof -
    have "of_nat n \<le> (of_nat (2 ^ 64) :: rat)" using assms(3) by (simp only: of_nat_le_iff less_imp_le)
    then show ?thesis by simp
  qed
  then have "of_nat n / 100 \<le> (2 ^ 1023 :: rat)" by (rule pow2_le_1023 [rotated]) simp
  then have "f64_val (rnd (of_nat n / 100)) = Some (round64 (of_nat n / 100))"
    by (intro f64_val_rnd) simp
  then have fin: "rnd (of_nat n / 100) \<noteq> PInf" "rnd (of_nat n / 100) \<noteq> NInf" by auto
  have rf: "read_fraction (CHR ''.'' # (?fp @ s)) = (?fp, s)"
    unfolding read_fraction_def list.case digits_prefix [OF fp e] by simp
  show ?thesis
    unfolding read_double_def shape skip_space_digits [OF ip show_nat_not_empty] Let_def prod.case
      digits_prefix [OF ip disjI2, of "CHR ''.'' # (?fp @ s)", unfolded list.sel, OF dot] rf
      hundredths_digits read_exponent_end [OF assms(1)] option.case
    using fin dec by simp
qed

text \<open>What a reader returns is a finite number.\<close>

lemma read_double_finite: "read_double s = Some (v, t) \<Longrightarrow> \<exists>q. f64_val v = Some q"
proof -
  have "f64_of_decimal neg m e = PInf \<or> f64_of_decimal neg m e = NInf \<or>
      (\<exists>q. f64_val (f64_of_decimal neg m e) = Some q)" for neg m e
    by (auto simp: f64_of_decimal_def intro: rnd_cases [of "(if neg then - 1 else 1) * of_nat m * 10 powi e"])
  then show "read_double s = Some (v, t) \<Longrightarrow> ?thesis"
    by (auto simp: read_double_def Let_def split: prod.splits if_splits option.splits)
qed

section \<open>Two decimals\<close>

lemma rnd_not_NZero: "0 \<le> q \<Longrightarrow> rnd q \<noteq> NZero"
  by (simp add: rnd_def Let_def)

text \<open>
  A price of \<open>n\<close> cents below \<open>2 ^ 52\<close> is written with exactly its cents, although the quotient
  by 100 is rounded.
\<close>

lemma show_fixed2_cents:
  assumes "unat p < 2 ^ 52"
  shows "show_fixed2 (f64_of_u64 p / Fin 100) = show_hundredths (unat p)"
proof -
  let ?n = "of_int (uint p) :: rat" and ?r = "round64 (of_int (uint p) / 100)"
  have u: "uint p < 2 ^ 52" using assms of_nat_less_iff [of "unat p" "2 ^ 52", where 'a = int] by simp
  have n0: "0 \<le> ?n" by (simp only: of_int_0_le_iff uint_ge_0)
  have n1: "?n < 2 ^ 52"
  proof -
    have "?n < of_int (2 ^ 52)" using u by (simp only: of_int_less_iff)
    then show ?thesis by simp
  qed
  have "f64_int (f64_of_u64 p) (uint p)" using u by (intro f64_int_of_u64) simp
  then have v: "f64_val (f64_of_u64 p) = Some ?n" by (simp add: f64_int_def)
  have "?n / 100 \<le> 2 ^ 52" using n0 n1 by simp
  then have "?n / 100 \<le> 2 ^ 1023" by (rule pow2_le_1023 [rotated]) simp
  then have q: "f64_val (f64_of_u64 p / Fin 100) = Some ?r"
    using n0 by (intro f64_val_div [OF v]) simp_all
  have r0: "0 \<le> ?r" using n0 by (intro round64_nonneg) simp
  have err: "\<bar>?r * 100 - ?n\<bar> < 1 / 2"
  proof (cases "?n = 0")
    case False
    then have "uint p \<noteq> 0" by (metis of_int_0)
    then have "1 \<le> uint p" using uint_ge_0 [of p] by linarith
    then have "1 \<le> ?n" by (simp only: of_int_1_le_iff)
    then have "1 / 128 \<le> \<bar>?n / 100\<bar>" by simp
    then have "2 powi (- 1022) \<le> \<bar>?n / 100\<bar>"
      using pow2_le_iff [of "- 1022" "- 7"] by (simp add: power_int_minus_divide del: pow2_le_iff)
    from round64_error [OF this] have "\<bar>?r - ?n / 100\<bar> \<le> ?n / 100 / 2 ^ 53" using n0 by simp
    then have "\<bar>?r * 100 - ?n\<bar> \<le> ?n / 2 ^ 53" by linarith
    also have "\<dots> < 1 / 2" using n1 by simp
    finally show ?thesis .
  qed simp
  have rn: "rne (?r * 100) = uint p"
  proof -
    have "\<bar>of_int (rne (?r * 100)) - ?r * 100\<bar> \<le> 1 / 2" by (rule rne_error)
    with err have "\<bar>of_int (rne (?r * 100)) - ?n\<bar> < 1" by linarith
    then have "\<bar>of_int (rne (?r * 100) - uint p) :: rat\<bar> < 1" by (simp only: of_int_diff)
    then have "\<bar>rne (?r * 100) - uint p\<bar> < 1" by (simp only: of_int_abs [symmetric] of_int_less_1_iff)
    then show ?thesis by linarith
  qed
  have nz: "f64_of_u64 p / Fin 100 \<noteq> NZero"
  proof -
    have "f64_of_u64 p \<noteq> NZero"
      unfolding f64_of_u64_def f64_of_int_def using n0 by (rule rnd_not_NZero)
    with v have "f64_of_u64 p = Fin ?n" by (cases "f64_of_u64 p") auto
    moreover have "rnd (?n / 100) \<noteq> NZero" using n0 by (intro rnd_not_NZero) simp
    ultimately show ?thesis using n0 by (simp add: divide_f64_def f64_div_def f64_zero_def Let_def)
  qed
  with q have "f64_of_u64 p / Fin 100 = Fin ?r" by (cases "f64_of_u64 p / Fin 100") auto
  moreover have "\<bar>?r\<bar> = ?r" using r0 by (rule abs_of_nonneg)
  moreover have "nat (uint p) = unat p" by (rule unat_eq_nat_uint [symmetric])
  moreover have "\<not> ?r < 0" using r0 by (simp only: not_less)
  ultimately show ?thesis by (simp only: show_fixed2.simps rn if_False append_Nil)
qed

end
