(* ===== verification/Command_Line.thy ===== *)
theory Command_Line
  imports Exchange Time_Stamp Decimal_Text
begin

text \<open>
  One line of input of \<^verbatim>\<open>src/main.cpp\<close>, from the characters to the replies: the command word,
  the numbers and their checks, the conversion of a decimal price to cents, the engine call and
  its latency. The two readings of the time-stamp counter around the engine call are arguments.
  \<open>None\<close> as a result is undefined behaviour: a number that does not fit the integer it is
  converted to.
\<close>

datatype response =
    Reply reply
  | Latency u64
  | ErrNotPositive
  | ErrInvalidFormat
  | ErrUnknownCommand string

text \<open>\<open>iss >> command\<close>: skip white space, then read up to the next white space.\<close>

definition read_word :: "string \<Rightarrow> string \<times> string" where
  "read_word s = (let t = dropWhile is_space s
                  in (takeWhile (\<lambda>c. \<not> is_space c) t, dropWhile (\<lambda>c. \<not> is_space c) t))"

text \<open>\<open>static_cast<Price>(price_input * 100.0 + 0.5)\<close>\<close>

definition price_of_input :: "f64 \<Rightarrow> Price option" where
  "price_of_input price_input = f64_to_u64 (price_input * Fin 100 + Fin (1 / 2))"

definition submit_line ::
  "u64 \<Rightarrow> f64 \<Rightarrow> u64 \<Rightarrow> u64 \<Rightarrow> Side \<Rightarrow> f64 \<Rightarrow> int \<Rightarrow> exchange \<Rightarrow> (response list \<times> exchange) option" where
  "submit_line capacity ns t_start t_end side price_input qty_input x =
     (case price_of_input price_input of
        None \<Rightarrow> None
      | Some price \<Rightarrow>
          (case exchange_step capacity (Order side price (word_of_int qty_input)) x of
             None \<Rightarrow> None
           | Some (out, x') \<Rightarrow>
               if out = [ErrPoolExhausted] then Some (map Reply out, x')
               else map_option (\<lambda>l. (map Reply out @ [Latency l], x')) (to_ns_u64 ns (t_end - t_start))))"

definition handle_line ::
  "u64 \<Rightarrow> f64 \<Rightarrow> u64 \<times> u64 \<Rightarrow> string \<Rightarrow> exchange \<Rightarrow> (response list \<times> exchange) option" where
  "handle_line capacity ns ticks line x =
     (if line = [] then Some ([], x)
      else let (command, rest) = read_word line
           in if command = ''CLEAR''
              then map_option (\<lambda>(out, x'). (map Reply out, x')) (exchange_step capacity Clear x)
              else if command = ''BUY'' \<or> command = ''SELL''
              then (case read_double rest of
                      None \<Rightarrow> Some ([ErrInvalidFormat], x)
                    | Some (price_input, rest1) \<Rightarrow>
                        (case read_long rest1 of
                           None \<Rightarrow> Some ([ErrInvalidFormat], x)
                         | Some (qty_input, _) \<Rightarrow>
                             if price_input \<le> 0 \<or> qty_input \<le> 0 then Some ([ErrNotPositive], x)
                             else submit_line capacity ns (fst ticks) (snd ticks)
                                    (if command = ''BUY'' then Buy else Sell) price_input qty_input x))
              else Some ([ErrUnknownCommand command], x))"

section \<open>Prices in cents\<close>

lemma round64_error_128:
  assumes "1 / 128 \<le> q"
  shows "\<bar>round64 q - q\<bar> \<le> q / 2 ^ 53"
proof -
  have "2 powi (- 1022) \<le> (1 / 128 :: rat)"
    using pow2_le_iff [of "- 1022" "- 7"] by (simp add: power_int_minus_divide del: pow2_le_iff)
  then have "2 powi (- 1022) \<le> \<bar>q\<bar>" using assms by linarith
  from round64_error [OF this] assms show ?thesis by simp
qed

text \<open>
  Prices with two decimals are read exactly: the \<open>double\<close> nearest to \<open>n\<close> hundredths,
  which is what reading the decimal gives, is converted to exactly \<open>n\<close> cents, for every
  \<open>n\<close> below \<open>2 ^ 49\<close>, although neither the decimal nor its product with 100 is exact.
\<close>

lemma cents_roundtrip:
  assumes "0 < n" and "n < 2 ^ 49"
  shows "price_of_input (rnd (of_int n / 100)) = Some (word_of_int n)"
proof -
  let ?n = "of_int n :: rat"
  define a where "a = round64 (?n / 100)"
  define b where "b = round64 (a * 100)"
  define c where "c = round64 (b + 1 / 2)"
  have n: "1 \<le> ?n" "?n \<le> 2 ^ 49 - 1"
  proof -
    have "of_int 1 \<le> ?n" "?n \<le> of_int (2 ^ 49 - 1)" using assms by (simp_all only: of_int_le_iff)
    then show "1 \<le> ?n" "?n \<le> 2 ^ 49 - 1" by simp_all
  qed
  have ea: "\<bar>a - ?n / 100\<bar> \<le> ?n / 100 / 2 ^ 53"
    unfolding a_def using n(1) by (intro round64_error_128) simp
  then have a1: "a * 100 - ?n \<le> ?n / 2 ^ 53" "?n - a * 100 \<le> ?n / 2 ^ 53" by linarith+
  have a2: "1 / 2 \<le> a * 100" "a * 100 \<le> 2 * ?n" using a1 n(1) by simp_all
  have eb: "\<bar>b - a * 100\<bar> \<le> a * 100 / 2 ^ 53" unfolding b_def using a2(1) by (intro round64_error_128) simp
  have "a * 100 / 2 ^ 53 \<le> 2 * ?n / 2 ^ 53" using a2(2) by (rule divide_right_mono) simp
  with eb have b1: "b - a * 100 \<le> 2 * ?n / 2 ^ 53" "a * 100 - b \<le> 2 * ?n / 2 ^ 53" by linarith+
  have b2: "0 \<le> b" "b \<le> 4 * ?n" using b1 a2 n(1) round64_nonneg [of "a * 100"] by (simp_all add: b_def)
  have ec: "\<bar>c - (b + 1 / 2)\<bar> \<le> (b + 1 / 2) / 2 ^ 53"
    unfolding c_def using b2(1) by (intro round64_error_128) simp
  have "(b + 1 / 2) / 2 ^ 53 \<le> (4 * ?n + 1 / 2) / 2 ^ 53" using b2(2) by (intro divide_right_mono) simp_all
  with ec have c1: "c - (b + 1 / 2) \<le> (4 * ?n + 1 / 2) / 2 ^ 53" "(b + 1 / 2) - c \<le> (4 * ?n + 1 / 2) / 2 ^ 53"
    by linarith+
  have close: "?n < c" "c < ?n + 1" using a1 b1 c1 n by simp_all
  have big: "q \<le> 2 ^ 51 \<Longrightarrow> q \<le> 2 ^ 1023" for q :: rat by (rule pow2_le_1023 [of 51]) simp
  have "f64_val (rnd (?n / 100)) = Some a"
    unfolding a_def using n by (intro f64_val_rnd big) simp
  from f64_val_mul [OF this, of "Fin 100" 100] have "f64_val (rnd (?n / 100) * Fin 100) = Some b"
    using a2 n by (simp add: b_def big)
  from f64_val_add [OF this, of "Fin (1 / 2)" "1 / 2"]
  have "f64_val (rnd (?n / 100) * Fin 100 + Fin (1 / 2)) = Some c"
    using b2 n by (simp add: c_def big)
  moreover have "trunc0 c = n" using close n(1) by (simp add: trunc0_def floor_eq_iff)
  ultimately show ?thesis
    using assms by (simp add: price_of_input_def f64_to_u64_def)
qed

theorem cents_roundtrip_witness:
  "price_of_input (rnd (10050 / 100)) = Some 10050 \<and> price_of_input (rnd (29 / 100)) = Some 29"
  using cents_roundtrip [of 10050] cents_roundtrip [of 29] by simp

lemma price_value:
  assumes "0 \<le> p" and "p \<le> 2 ^ 58"
  shows "f64_val (Fin p * Fin 100 + Fin (1 / 2)) = Some (round64 (round64 (p * 100) + 1 / 2))"
proof -
  have big: "q \<le> 2 ^ 66 \<Longrightarrow> q \<le> 2 ^ 1023" for q :: rat by (rule pow2_le_1023 [of 66]) simp
  have le: "p * 100 \<le> 2 ^ 65" using assms(2) by simp
  have r: "0 \<le> round64 (p * 100)" "round64 (p * 100) \<le> 2 ^ 65"
    using assms(1) round64_nonneg [of "p * 100"] round64_mono [OF le] unfolding round64_pow2 by simp_all
  have "f64_val (Fin p * Fin 100) = Some (round64 (p * 100))"
    using assms le by (intro f64_val_mul) (simp_all add: big)
  then show ?thesis using r by (intro f64_val_add) (simp_all add: big)
qed

lemma price_of_input_defined:
  assumes "0 \<le> p" and "p \<le> 2 ^ 57"
  shows "price_of_input (Fin p) \<noteq> None"
proof -
  let ?b = "round64 (p * 100)"
  have rep: "f64_rep (of_int 100 * 2 powi 57)" "f64_rep (of_int 101 * 2 powi 57)"
    by (rule f64_rep_scaled; simp)+
  have b: "0 \<le> ?b" "?b \<le> 100 * 2 ^ 57"
    using assms round64_nonneg [of "p * 100"] round64_mono [of "p * 100" "100 * 2 ^ 57"]
      round64_rep [OF rep(1)] by simp_all
  have c: "0 \<le> round64 (?b + 1 / 2)" "round64 (?b + 1 / 2) \<le> 101 * 2 ^ 57"
    using b round64_nonneg [of "?b + 1 / 2"] round64_mono [of "?b + 1 / 2" "101 * 2 ^ 57"]
      round64_rep [OF rep(2)] by simp_all
  then have "0 \<le> trunc0 (round64 (?b + 1 / 2))" "trunc0 (round64 (?b + 1 / 2)) < 2 ^ 64"
    by (simp_all add: trunc0_def floor_less_iff)
  then show ?thesis
    using price_value [of p] assms by (simp add: price_of_input_def f64_to_u64_def)
qed

section \<open>The session\<close>

fun rejects :: "response \<Rightarrow> bool" where
  "rejects ErrInvalidFormat = True"
| "rejects ErrNotPositive = True"
| "rejects (ErrUnknownCommand _) = True"
| "rejects _ = False"

lemma submit_line_ok:
  assumes inv: "exchange_inv capacity fs x" and "0 \<le> v" "v \<le> 2 ^ 57"
    and ticks: "to_ns_u64 ns (t_end - t_start) \<noteq> None"
  shows "\<exists>out x' fs'. submit_line capacity ns t_start t_end side (Fin v) q x = Some (out, x') \<and>
    exchange_inv capacity fs' x' \<and> (\<forall>r \<in> set out. \<not> rejects r)"
proof -
  obtain c where c: "price_of_input (Fin v) = Some c" using price_of_input_defined [OF assms(2,3)] by blast
  obtain l where l: "to_ns_u64 ns (t_end - t_start) = Some l" using ticks by blast
  obtain out x' fs' where "exchange_step capacity (Order side c (word_of_int q)) x = Some (out, x')"
    "exchange_inv capacity fs' x'"
    by (rule exchange_step_inv [OF inv]) blast
  with c l show ?thesis by (auto simp: submit_line_def)
qed

text \<open>
  (C14) No line breaks the session: whatever the characters, on a reachable exchange a line
  whose price, if it has one, is at most \<open>2 ^ 57\<close> and whose latency can be reported is
  answered, and the exchange is reachable again; a line that is rejected changes nothing.
\<close>

theorem handle_line_safe:
  assumes inv: "exchange_inv capacity fs x"
    and price: "\<And>p s. read_double (snd (read_word line)) = Some (p, s) \<Longrightarrow> p \<le> Fin (2 ^ 57)"
    and ticks: "to_ns_u64 ns (snd ticks - fst ticks) \<noteq> None"
  shows "\<exists>out x' fs'. handle_line capacity ns ticks line x = Some (out, x') \<and>
    exchange_inv capacity fs' x' \<and> (list_ex rejects out \<longrightarrow> x' = x)"
proof -
  have ok: "\<exists>out x' fs'. h = Some (out, x') \<and> exchange_inv capacity fs' x' \<and> (list_ex rejects out \<longrightarrow> x' = x)"
    if "h = Some (out, x)" for h out
    using that inv by blast
  obtain w rest where word: "read_word line = (w, rest)" by (cases "read_word line")
  consider "line = []" | "line \<noteq> []" "w = ''CLEAR''" | "line \<noteq> []" "w \<noteq> ''CLEAR''" "w \<noteq> ''BUY''" "w \<noteq> ''SELL''"
    | "line \<noteq> []" "w = ''BUY'' \<or> w = ''SELL''" by blast
  then show ?thesis
  proof cases
    case 2
    obtain out x' fs' where "exchange_step capacity Clear x = Some (out, x')" "exchange_inv capacity fs' x'"
      by (rule exchange_step_inv [OF inv]) blast
    with 2 word show ?thesis by (auto simp: handle_line_def list_ex_iff)
  next
    case 4
    then have w: "w \<noteq> ''CLEAR''" by auto
    show ?thesis
    proof (cases "read_double rest")
      case None
      with 4 w word show ?thesis by (intro ok) (simp add: handle_line_def)
    next
      case (Some ps)
      obtain p rest1 where ps: "ps = (p, rest1)" by (cases ps)
      obtain v where v: "f64_val p = Some v" using read_double_finite Some ps by blast
      have "p \<le> Fin (2 ^ 57)" using price [of p rest1] Some ps word by simp
      then have v57: "v \<le> 2 ^ 57" using f64_le_val [OF v, of "Fin (2 ^ 57)" "2 ^ 57"] by simp
      have le0: "p \<le> 0 \<longleftrightarrow> v \<le> 0" by (rule f64_le_val [OF v f64_val_0])
      show ?thesis
      proof (cases "read_long rest1 = None \<or> (\<exists>q s. read_long rest1 = Some (q, s) \<and> (v \<le> 0 \<or> q \<le> 0))")
        case True
        then have "\<exists>out. handle_line capacity ns ticks line x = Some (out, x)"
        proof (cases "read_long rest1")
          case None
          with 4 w word Some ps show ?thesis by (simp add: handle_line_def)
        next
          case (Some qs)
          obtain q s where qs: "qs = (q, s)" by (cases qs)
          with True Some have "v \<le> 0 \<or> q \<le> 0" by simp
          then have "p \<le> 0 \<or> q \<le> 0" using le0 by simp
          with 4 w word \<open>read_double rest = Some ps\<close> ps Some qs show ?thesis
            by (intro exI [of _ "[ErrNotPositive]"]) (simp add: handle_line_def)
        qed
        then show ?thesis using ok by blast
      next
        case False
        then obtain q s where q: "read_long rest1 = Some (q, s)" "0 \<le> v" "\<not> v \<le> 0" "\<not> q \<le> 0" by auto
        have p: "p = Fin v" using v q(3) by (cases p) auto
        let ?side = "if w = ''BUY'' then Buy else Sell"
        have "handle_line capacity ns ticks line x =
            submit_line capacity ns (fst ticks) (snd ticks) ?side (Fin v) q x"
          using 4 w word Some ps q le0 unfolding p by (simp add: handle_line_def)
        with submit_line_ok [OF inv q(2) v57 ticks, of ?side q] show ?thesis
          unfolding list_ex_iff by metis
      qed
    qed
  next
    case 1
    then show ?thesis by (intro ok) (simp add: handle_line_def)
  next
    case 3
    with word show ?thesis by (intro ok) (simp add: handle_line_def)
  qed
qed

lemma read_word_demo: "read_word ''BUY 1.00 5'' = (''BUY'', '' 1.00 5'')"
  by code_simp

lemma read_double_demo: "read_double '' 1.00 5'' = Some (Fin 1, '' 5'')"
proof -
  have "rnd 1 = Fin 1" using round64_pow2 [of 0] by (simp add: rnd_def Let_def)
  then show ?thesis
    by (simp add: read_double_def read_sign_def read_fraction_def read_exponent_def nat_of_digits_def
        digit_val_def is_digit_def is_space_def f64_of_decimal_def power_int_minus_divide)
qed

theorem handle_line_safe_witness:
  "\<exists>out x'. handle_line 8 (Fin 1) (0, 10) ''BUY 1.00 5''
     (exchange_new 8 (\<lambda>_. OrderNode_of 0 0 0 Buy)) = Some (out, x')"
proof -
  have ticks: "to_ns_u64 (Fin 1) (snd (0, 10) - fst (0, 10)) \<noteq> None"
    using to_ns_u64_one [of 10] by simp
  have "\<exists>out x' fs'. handle_line 8 (Fin 1) (0, 10) ''BUY 1.00 5''
      (exchange_new 8 (\<lambda>_. OrderNode_of 0 0 0 Buy)) = Some (out, x') \<and>
      exchange_inv 8 fs' x' \<and> (list_ex rejects out \<longrightarrow> x' = exchange_new 8 (\<lambda>_. OrderNode_of 0 0 0 Buy))"
    by (rule handle_line_safe [OF exchange_inv_new _ ticks])
      (simp add: read_word_demo read_double_demo less_eq_f64_def less_f64_def [symmetric])
  then show ?thesis by blast
qed

text \<open>
  (C24) A price that is too large is undefined behaviour, not an error: from \<open>2 ^ 58\<close> up to
  the largest double, a positive price and quantity pass the checks of the loop, and the
  conversion of the cents to \<open>uint64_t\<close> is out of range.
\<close>

theorem huge_price_undefined:
  assumes "read_word line = (''BUY'', rest)" and "read_double rest = Some (Fin p, rest1)"
    and "read_long rest1 = Some (q, rest2)" and "2 ^ 58 \<le> p" and "0 < q"
  shows "handle_line capacity ns ticks line x = None"
proof -
  have ne: "line \<noteq> []" using assms(1) by (auto simp: read_word_def Let_def)
  have "\<not> Fin p < Fin (2 ^ 58)" using assms(4) by simp
  then have le: "\<not> Fin p * Fin 100 + Fin (1 / 2) < Fin (2 ^ 58) * Fin 100 + Fin (1 / 2)"
    by (intro f64_add_mono f64_mul_mono) simp_all
  have low: "2 ^ 64 \<le> round64 (round64 (2 ^ 58 * 100) + 1 / 2)"
    using round64_mono [of "2 ^ 64" "2 ^ 58 * 100"] round64_mono [of "2 ^ 64" "round64 (2 ^ 58 * 100) + 1 / 2"]
    unfolding round64_pow2 by simp
  have "price_of_input (Fin p) = None"
  proof (rule ccontr)
    assume "price_of_input (Fin p) \<noteq> None"
    then obtain a where "f64_to_u64 (Fin p * Fin 100 + Fin (1 / 2)) = Some a"
      by (auto simp: price_of_input_def)
    then obtain v where v: "f64_val (Fin p * Fin 100 + Fin (1 / 2)) = Some v" "uint a = trunc0 v"
      using f64_to_u64_val by blast
    have "2 ^ 64 \<le> v"
      using f64_less_val [OF v(1) price_value [of "2 ^ 58"]] le low by simp
    then have "trunc0 (of_int (2 ^ 64)) \<le> trunc0 v" by (intro trunc0_mono) simp
    then show False using v(2) uint_lt2p [of a] unfolding trunc0_of_int by simp
  qed
  moreover have "\<not> Fin p \<le> 0" using assms(4) f64_le_val [of "Fin p" p 0 0] by simp
  ultimately show ?thesis using assms ne by (simp add: handle_line_def submit_line_def)
qed

theorem huge_price_undefined_witness:
  "handle_line 8 ns_per_cycle_default (0, 0) ''BUY 3e17 1'' (exchange_new 8 (\<lambda>_. OrderNode_of 0 0 0 Buy)) = None"
proof -
  have word: "read_word ''BUY 3e17 1'' = (''BUY'', '' 3e17 1'')" by code_simp
  have "f64_rep (of_int (3 * 5 ^ 17) * 2 powi 17)" by (rule f64_rep_scaled) simp_all
  then have "round64 (of_int (3 * 5 ^ 17) * 2 powi 17) = of_int (3 * 5 ^ 17) * 2 powi 17" by (rule round64_rep)
  then have "round64 300000000000000000 = 300000000000000000" by simp
  then have "rnd 300000000000000000 = Fin 300000000000000000" by (simp add: rnd_def Let_def)
  then have price: "read_double '' 3e17 1'' = Some (Fin 300000000000000000, '' 1'')"
    by (simp add: read_double_def read_sign_def read_fraction_def read_exponent_def nat_of_digits_def
        digit_val_def is_digit_def is_space_def f64_of_decimal_def)
  have qty: "read_long '' 1'' = Some (1, [])" by code_simp
  show ?thesis by (rule huge_price_undefined [OF word price qty]) simp_all
qed

end
