(* ===== verification/Console.thy ===== *)
theory Console
  imports Command_Line
begin

text \<open>
  The whole of \<^verbatim>\<open>src/main.cpp\<close> as a function from the characters of the standard input to the
  texts it writes: \<open>getline\<close> splits the input, each line is handled in turn, and each reply is
  written as one line to one of the two output streams. The counter readings around the
  engine call of the \<open>i\<close>-th line are \<open>clock i\<close>.
\<close>

section \<open>Replies as text\<close>

datatype stream = Cout | Cerr

definition price_text :: "Price \<Rightarrow> string" where
  "price_text p = show_fixed2 (f64_of_u64 p / Fin 100)"

definition level_text :: "Price \<times> Quantity \<Rightarrow> string" where
  "level_text = (\<lambda>(price, volume). ''['' @ price_text price @ '','' @ show_u64 volume @ '']'')"

fun comma_list :: "string list \<Rightarrow> string" where
  "comma_list [] = []"
| "comma_list [s] = s"
| "comma_list (s # t # ts) = s @ '','' @ comma_list (t # ts)"

fun reply_text :: "reply \<Rightarrow> stream \<times> string" where
  "reply_text (BookLine bid_levels ask_levels) =
     (Cout, ''BOOK {'' @ [CHR 0x22] @ ''bids'' @ [CHR 0x22] @ '':['' @ comma_list (map level_text bid_levels) @
        ''],'' @ [CHR 0x22] @ ''asks'' @ [CHR 0x22] @ '':['' @ comma_list (map level_text ask_levels) @ '']}'')"
| "reply_text (TradeLine price qty) = (Cout, ''TRADE '' @ price_text price @ '' '' @ show_u64 qty)"
| "reply_text ClearAck = (Cout, ''CLEAR_ACK'')"
| "reply_text ErrPoolExhausted = (Cerr, ''ERR Memory pool exhausted'')"

fun response_text :: "response \<Rightarrow> stream \<times> string" where
  "response_text (Reply r) = reply_text r"
| "response_text (Latency l) = (Cout, ''LATENCY '' @ show_u64 l)"
| "response_text ErrNotPositive = (Cerr, ''ERR Price and quantity must be positive'')"
| "response_text ErrInvalidFormat = (Cerr, ''ERR Invalid format'')"
| "response_text (ErrUnknownCommand command) = (Cerr, ''ERR Unknown command: '' @ command)"

section \<open>The main loop\<close>

definition newline :: char where "newline = CHR 0x0A"

text \<open>What \<open>std::getline\<close> returns until it fails: a last line needs no newline.\<close>

function get_lines :: "string \<Rightarrow> string list" where
  "get_lines s =
     (if s = [] then []
      else takeWhile (\<lambda>c. c \<noteq> newline) s # get_lines (drop 1 (dropWhile (\<lambda>c. c \<noteq> newline) s)))"
  by pat_completeness auto
termination
proof (relation "measure length")
  fix s :: string assume s: "s \<noteq> []"
  have "length (dropWhile (\<lambda>c. c \<noteq> newline) s) \<le> length s" by (rule length_dropWhile_le)
  moreover have "0 < length s" using s by (simp only: length_greater_0_conv not_False_eq_True)
  ultimately have "length (dropWhile (\<lambda>c. c \<noteq> newline) s) - 1 < length s" by linarith
  then show "(drop 1 (dropWhile (\<lambda>c. c \<noteq> newline) s), s) \<in> measure length" by simp
qed simp

declare get_lines.simps [simp del]

fun main_loop :: "u64 \<Rightarrow> f64 \<Rightarrow> (nat \<Rightarrow> u64 \<times> u64) \<Rightarrow> nat \<Rightarrow> string list \<Rightarrow> exchange \<Rightarrow>
    (response list \<times> exchange) option" where
  "main_loop capacity ns clock i [] x = Some ([], x)"
| "main_loop capacity ns clock i (line # lines) x =
     (case handle_line capacity ns (clock i) line x of
        None \<Rightarrow> None
      | Some (out, x1) \<Rightarrow>
          map_option (\<lambda>(outs, x2). (out @ outs, x2)) (main_loop capacity ns clock (Suc i) lines x1))"

definition main_run :: "f64 \<Rightarrow> (nat \<Rightarrow> u64 \<times> u64) \<Rightarrow> mem \<Rightarrow> string \<Rightarrow> ((stream \<times> string) list \<times> exchange) option" where
  "main_run ns clock m input =
     map_option (\<lambda>(out, x). (map response_text out, x))
       (main_loop POOL_CAPACITY ns clock 0 (get_lines input) (exchange_new POOL_CAPACITY m))"

section \<open>Orders and prices as text\<close>

definition order_text :: "Side \<Rightarrow> nat \<Rightarrow> nat \<Rightarrow> string" where
  "order_text side cents qty =
     (if side = Buy then ''BUY'' else ''SELL'') @ '' '' @ show_hundredths cents @ '' '' @ show_nat qty"

lemma show_hundredths_head:
  obtains c s where "show_hundredths n = c # s" and "is_digit c"
proof -
  obtain c s where cs: "show_nat (n div 100) = c # s" by (cases "show_nat (n div 100)") auto
  then have "is_digit c" using show_nat_digits [of c "n div 100"] by simp
  with cs show thesis by (intro that [of c]) (simp_all add: show_hundredths_def)
qed

lemma read_double_space: "read_double (CHR '' '' # s) = read_double s"
  by (simp only: read_double_def skip_one_space)

lemma read_long_space: "read_long (CHR '' '' # s) = read_long s"
  by (simp only: read_long_def skip_one_space)

lemma number_ends_space: "number_ends (CHR '' '' # s)"
  by (simp add: number_ends_def is_digit_def)

lemma read_word_order: "read_word (order_text side n q) =
    (if side = Buy then ''BUY'' else ''SELL'', CHR '' '' # show_hundredths n @ '' '' @ show_nat q)"
  by (simp add: read_word_def order_text_def is_space_def Let_def)

lemma read_order_numbers:
  assumes "0 < n" and "n < 2 ^ 64" and "q < 2 ^ 63"
  shows "read_double (CHR '' '' # show_hundredths n @ '' '' @ show_nat q) =
      Some (rnd (of_nat n / 100), CHR '' '' # show_nat q)"
    and "read_long (CHR '' '' # show_nat q) = Some (int q, [])"
proof -
  show "read_double (CHR '' '' # show_hundredths n @ '' '' @ show_nat q) =
      Some (rnd (of_nat n / 100), CHR '' '' # show_nat q)"
    using read_double_hundredths [OF number_ends_space [of "show_nat q"] assms(1,2)]
    by (simp add: read_double_space)
  show "read_long (CHR '' '' # show_nat q) = Some (int q, [])"
    using read_long_show [of "[]" q] assms(3) by (simp add: read_long_space number_ends_def)
qed

lemma rnd_hundredths_positive: "0 < n \<Longrightarrow> \<not> rnd (of_nat n / 100) \<le> 0"
proof -
  assume n: "0 < n"
  have big: "round64 (1 / 128) \<le> round64 (of_nat n / 100)"
  proof (rule round64_mono)
    have "1 \<le> (of_nat n :: rat)" using n by simp
    then show "1 / 128 \<le> (of_nat n / 100 :: rat)" by simp
  qed
  have "f64_rep (of_int 1 * 2 powi (- 7))" by (rule f64_rep_scaled) simp_all
  moreover have "(of_int 1 * 2 powi (- 7) :: rat) = 1 / 128" by (simp add: power_int_minus_divide)
  ultimately have "round64 (1 / 128) = 1 / 128" by (metis round64_rep)
  with big have pos: "0 < round64 (of_nat n / 100)" by simp
  show ?thesis
  proof (cases rule: rnd_cases [of "of_nat n / 100"])
    case 3
    from f64_le_val [OF 3(1) f64_val_0] pos show ?thesis by simp
  qed (use pos in \<open>auto simp: less_eq_f64_def f64_eq_def zero_f64_def\<close>)
qed

text \<open>
  (C18) A price that the program writes can be sent back: below \<open>2 ^ 49\<close> cents the text of a
  price is read, in any position of a line, as a \<open>double\<close> that is converted to exactly the
  same number of cents, although both the quotient by 100 and the product with it are rounded.
\<close>

theorem price_text_roundtrip:
  assumes "0 < unat p" and "unat p < 2 ^ 49" and "number_ends s"
  shows "\<exists>d. read_double (price_text p @ s) = Some (d, s) \<and> \<not> d \<le> 0 \<and> price_of_input d = Some p"
proof -
  have "price_text p = show_hundredths (unat p)"
    unfolding price_text_def using assms(2) by (intro show_fixed2_cents) simp
  moreover have "read_double (show_hundredths (unat p) @ s) = Some (rnd (of_nat (unat p) / 100), s)"
    using assms by (intro read_double_hundredths) simp_all
  moreover have "price_of_input (rnd (of_int (uint p) / 100)) = Some (word_of_int (uint p))"
  proof (rule cents_roundtrip)
    show "0 < uint p" using assms(1) by (simp only: uint_nat of_nat_0_less_iff)
    show "uint p < 2 ^ 49" using assms(2) of_nat_less_iff [of "unat p" "2 ^ 49", where 'a = int] by simp
  qed
  moreover have "(of_int (uint p) :: rat) = of_nat (unat p)" by (simp only: uint_nat of_int_of_nat_eq)
  moreover have "word_of_int (uint p) = p" by (rule word_of_int_uint)
  ultimately show ?thesis using rnd_hundredths_positive [OF assms(1)] by (simp only: option.inject prod.inject) blast
qed

theorem price_text_roundtrip_witness:
  "\<exists>d. read_double (price_text 29 @ '' 7'') = Some (d, '' 7'') \<and> price_of_input d = Some 29"
  using price_text_roundtrip [of 29 "'' 7''"] by (auto simp: number_ends_def is_digit_def)

text \<open>
  (C36) A line that asks for an order is that order: for a price of \<open>n\<close> cents below \<open>2 ^ 49\<close>
  and a quantity below \<open>2 ^ 63\<close>, the line with the side, the price with two decimals and the
  quantity makes the engine process exactly an order of that side, \<open>n\<close> and \<open>q\<close>, and its replies
  are followed by the latency unless the pool was exhausted.
\<close>

theorem order_text_roundtrip:
  assumes "0 < n" and "n < 2 ^ 49" and "0 < q" and "q < 2 ^ 63"
    and "to_ns_u64 ns (snd ticks - fst ticks) = Some l"
  shows "handle_line capacity ns ticks (order_text side n q) x =
    map_option (\<lambda>(out, x'). (map Reply out @ (if out = [ErrPoolExhausted] then [] else [Latency l]), x'))
      (exchange_step capacity (Order side (of_nat n) (of_nat q)) x)"
proof -
  have n64: "n < 2 ^ 64" using assms(2) by simp
  have ne: "order_text side n q \<noteq> []" by (cases side) (simp_all add: order_text_def)
  have w: "word_of_int (int n) = (of_nat n :: u64)" "word_of_int (int q) = (of_nat q :: u64)" by simp_all
  have "price_of_input (rnd (of_int (int n) / 100)) = Some (word_of_int (int n))"
    using assms(1,2) by (intro cents_roundtrip) simp_all
  then have price: "price_of_input (rnd (of_nat n / 100)) = Some (of_nat n)" by (simp only: of_int_of_nat_eq w)
  have "handle_line capacity ns ticks (order_text side n q) x =
      submit_line capacity ns (fst ticks) (snd ticks) side (rnd (of_nat n / 100)) (int q) x"
    using ne assms(3) rnd_hundredths_positive [OF assms(1)]
    by (cases side)
      (simp_all add: handle_line_def read_word_order read_order_numbers [OF assms(1) n64 assms(4)]
        del: append.simps)
  then show ?thesis
    by (simp add: submit_line_def price assms(5) w split: option.splits prod.splits)
qed

section \<open>The session\<close>

lemma main_loop_safe:
  assumes inv: "exchange_inv capacity fs x"
    and "\<And>line p s. line \<in> set lines \<Longrightarrow> read_double (snd (read_word line)) = Some (p, s) \<Longrightarrow> p \<le> Fin (2 ^ 57)"
    and "\<And>i. to_ns_u64 ns (snd (clock i) - fst (clock i)) \<noteq> None"
  shows "\<exists>out x' fs'. main_loop capacity ns clock i lines x = Some (out, x') \<and> exchange_inv capacity fs' x'"
  using assms
proof (induction lines arbitrary: i x fs)
  case (Cons line lines)
  have "\<exists>out x' fs'. handle_line capacity ns (clock i) line x = Some (out, x') \<and>
      exchange_inv capacity fs' x' \<and> (list_ex rejects out \<longrightarrow> x' = x)"
    by (rule handle_line_safe [OF Cons.prems(1) Cons.prems(2) Cons.prems(3)]) simp_all
  then obtain out x1 fs1 where one: "handle_line capacity ns (clock i) line x = Some (out, x1)"
    "exchange_inv capacity fs1 x1" by blast
  have "\<exists>out x' fs'. main_loop capacity ns clock (Suc i) lines x1 = Some (out, x') \<and> exchange_inv capacity fs' x'"
    by (rule Cons.IH [OF one(2) Cons.prems(2) Cons.prems(3)]) simp_all
  with one(1) show ?case by auto
qed auto

text \<open>The texts contain no newline, so that the output can be split into them again.\<close>

lemma digit_not_newline: "is_digit c \<Longrightarrow> c \<noteq> newline"
  by (auto simp: is_digit_def newline_def)

lemma show_nat_no_newline [simp]: "newline \<notin> set (show_nat n)"
  using show_nat_digits digit_not_newline by blast

lemma show_hundredths_no_newline [simp]: "newline \<notin> set (show_hundredths n)"
proof -
  have d: "newline \<noteq> digit_char (k mod 10)" for k
    using digit_not_newline [of "digit_char (k mod 10)"] by auto
  have "newline \<notin> {digit_char (n div 10 mod 10), digit_char (n mod 10)}" by (simp add: d)
  moreover have "newline \<noteq> CHR ''.''" by (simp add: newline_def)
  ultimately show ?thesis by (simp add: show_hundredths_def)
qed

lemma show_fixed2_no_newline [simp]: "newline \<notin> set (show_fixed2 v)"
  by (cases v) (simp_all, simp_all add: newline_def)

lemma level_text_no_newline [simp]: "newline \<notin> set (level_text l)"
  by (cases l) (simp add: level_text_def price_text_def show_u64_def, simp add: newline_def)

lemma comma_list_no_newline: "\<forall>t \<in> set ts. newline \<notin> set t \<Longrightarrow> newline \<notin> set (comma_list ts)"
  by (induction ts rule: comma_list.induct) (auto simp: newline_def)

lemma reply_text_no_newline: "newline \<notin> set (snd (reply_text r))"
proof (cases r)
  case (BookLine bid_levels ask_levels)
  have "newline \<notin> set (comma_list (map level_text ls))" for ls by (rule comma_list_no_newline) auto
  with BookLine show ?thesis by (auto simp: newline_def)
next
  case (TradeLine p q)
  have "newline \<notin> set (price_text p)" "newline \<notin> set (show_u64 q)"
    by (simp_all add: price_text_def show_u64_def)
  with TradeLine show ?thesis by (auto simp: newline_def)
qed (simp_all add: newline_def)

definition one_line :: "response \<Rightarrow> bool" where
  "one_line r \<longleftrightarrow> newline \<notin> set (snd (response_text r))"

lemma one_line_simps [simp]:
  "one_line (Reply r)" "one_line (Latency l)" "one_line ErrNotPositive" "one_line ErrInvalidFormat"
  using show_nat_no_newline reply_text_no_newline
  by (simp_all add: one_line_def show_u64_def) (simp_all add: newline_def)

lemma one_line_command: "newline \<notin> set c \<Longrightarrow> one_line (ErrUnknownCommand c)"
  by (simp add: one_line_def) (simp add: newline_def)

lemma newline_space: "is_space newline"
  by (simp add: is_space_def newline_def)

lemma read_word_no_newline: "newline \<notin> set (fst (read_word s))"
  using newline_space by (auto simp: read_word_def Let_def dest: set_takeWhileD)

lemma handle_line_one_line:
  assumes "handle_line capacity ns ticks line x = Some (out, x')" and "r \<in> set out"
  shows "one_line r"
proof -
  have "one_line (ErrUnknownCommand (fst (read_word line)))"
    by (rule one_line_command [OF read_word_no_newline])
  with assms show ?thesis
    by (auto simp: handle_line_def submit_line_def Let_def split: prod.splits option.splits if_splits)
qed

lemma main_loop_one_line:
  "main_loop capacity ns clock i lines x = Some (out, x') \<Longrightarrow> r \<in> set out \<Longrightarrow> one_line r"
  by (induction lines arbitrary: i x out)
    (auto split: option.splits prod.splits dest: handle_line_one_line)

lemma get_lines_unlines:
  "\<forall>t \<in> set ts. newline \<notin> set t \<Longrightarrow> get_lines (concat (map (\<lambda>t. t @ [newline]) ts)) = ts"
proof (induction ts)
  case (Cons t ts)
  then have t: "\<forall>c \<in> set t. c \<noteq> newline" by auto
  have "takeWhile (\<lambda>c. c \<noteq> newline) (t @ newline # s) = t" "dropWhile (\<lambda>c. c \<noteq> newline) (t @ newline # s) = newline # s" for s
    using t by (simp_all add: takeWhile_append dropWhile_append)
  with Cons show ?case by (subst get_lines.simps) simp
qed (simp add: get_lines.simps)

text \<open>
  (C38) The program answers every input: whatever characters come in, as long as no line has a
  price above \<open>2 ^ 57\<close> and the latencies can be reported, the loop runs to the end of the input
  on a reachable exchange, and what it has written splits into exactly its replies.
\<close>

theorem main_answers:
  assumes "\<And>line p s. line \<in> set (get_lines input) \<Longrightarrow>
      read_double (snd (read_word line)) = Some (p, s) \<Longrightarrow> p \<le> Fin (2 ^ 57)"
    and "\<And>i. to_ns_u64 ns (snd (clock i) - fst (clock i)) \<noteq> None"
  shows "\<exists>out x fs. main_run ns clock m input = Some (out, x) \<and> exchange_inv POOL_CAPACITY fs x \<and>
    get_lines (concat (map (\<lambda>(_, t). t @ [newline]) out)) = map snd out"
proof -
  have "\<exists>rs x fs. main_loop POOL_CAPACITY ns clock 0 (get_lines input) (exchange_new POOL_CAPACITY m) =
      Some (rs, x) \<and> exchange_inv POOL_CAPACITY fs x"
    by (rule main_loop_safe [OF exchange_inv_new assms(1) assms(2)])
  then obtain rs x fs where run: "main_loop POOL_CAPACITY ns clock 0 (get_lines input)
      (exchange_new POOL_CAPACITY m) = Some (rs, x)" and inv: "exchange_inv POOL_CAPACITY fs x" by blast
  have "\<forall>t \<in> set (map snd (map response_text rs)). newline \<notin> set t"
    using main_loop_one_line [OF run] by (auto simp: one_line_def)
  from get_lines_unlines [OF this]
  have "get_lines (concat (map (\<lambda>(_, t). t @ [newline]) (map response_text rs))) = map snd (map response_text rs)"
    by (simp add: case_prod_beta comp_def)
  with run inv show ?thesis by (auto simp: main_run_def)
qed

theorem main_answers_witness:
  "\<exists>out x. main_run (Fin 1) (\<lambda>_. (0, 10)) (\<lambda>_. OrderNode_of 0 0 0 Buy)
     (''BUY 1.00 5'' @ [newline] @ ''CLEAR'') = Some (out, x)"
proof -
  have lines: "get_lines (''BUY 1.00 5'' @ [newline] @ ''CLEAR'') = [''BUY 1.00 5'', ''CLEAR'']"
    by (simp add: get_lines.simps newline_def)
  have clear: "read_double (snd (read_word ''CLEAR'')) = None"
    by code_simp
  have price: "p \<le> Fin (2 ^ 57)"
    if "line \<in> set (get_lines (''BUY 1.00 5'' @ [newline] @ ''CLEAR''))"
      "read_double (snd (read_word line)) = Some (p, s)" for line p s
    using that unfolding lines
    by (auto simp: read_word_demo read_double_demo clear less_eq_f64_def less_f64_def [symmetric])
  have ticks: "to_ns_u64 (Fin 1) (snd (0, 10) - fst (0, 10)) \<noteq> None" using to_ns_u64_one [of 10] by simp
  have "\<exists>out x fs. main_run (Fin 1) (\<lambda>_. (0, 10)) (\<lambda>_. OrderNode_of 0 0 0 Buy)
      (''BUY 1.00 5'' @ [newline] @ ''CLEAR'') = Some (out, x) \<and> exchange_inv POOL_CAPACITY fs x \<and>
      get_lines (concat (map (\<lambda>(_, t). t @ [newline]) out)) = map snd out"
    by (rule main_answers) (fact price ticks)+
  then show ?thesis by blast
qed

theorem order_text_roundtrip_witness:
  "handle_line 8 (Fin 1) (0, 10) (order_text Buy 29 7) (exchange_new 8 (\<lambda>_. OrderNode_of 0 0 0 Buy)) =
    map_option (\<lambda>(out, x'). (map Reply out @ (if out = [ErrPoolExhausted] then [] else [Latency 10]), x'))
      (exchange_step 8 (Order Buy 29 7) (exchange_new 8 (\<lambda>_. OrderNode_of 0 0 0 Buy)))"
  using order_text_roundtrip [of 29 7 "Fin 1" "(0, 10)" 10 8 Buy "exchange_new 8 (\<lambda>_. OrderNode_of 0 0 0 Buy)"]
    to_ns_u64_one [of 10] by simp

end
