(* ===== verification/Pool_Allocator.thy ===== *)
theory Pool_Allocator
  imports Slot_Allocator
begin

unbundle bit_operations_syntax

text \<open>
  \<^verbatim>\<open>include/nexus/core/pool_allocator.hpp\<close>: \<open>ArenaState\<close>, the free list over a raw byte
  buffer that the order book's price maps allocate their nodes from, and \<open>PoolAllocator\<close>,
  which falls back to \<open>operator new\<close>. An address is a natural number; \<open>ar_nodes\<close> is the
  memory at the addresses that were free-list nodes. The global \<open>operator new\<close> and
  \<open>operator delete\<close> are parameters over a heap state of their own.
\<close>

section \<open>The arena\<close>

record arena =
  ar_buffer :: nat
  ar_slot_size :: u64
  ar_capacity :: u64
  ar_freelist :: "nat option"
  ar_nodes :: "nat \<Rightarrow> nat option option"

text \<open>\<open>sizeof(FreeNode)\<close> is one pointer.\<close>

definition FREE_NODE_SIZE :: u64 where
  "FREE_NODE_SIZE = 8"

definition ar_push :: "nat \<Rightarrow> arena \<Rightarrow> arena" where
  "ar_push p st = st\<lparr>ar_nodes := (ar_nodes st)(p := Some (ar_freelist st)), ar_freelist := Some p\<rparr>"

fun ar_init_loop :: "nat \<Rightarrow> arena \<Rightarrow> arena" where
  "ar_init_loop 0 st = st"
| "ar_init_loop (Suc i) st = ar_init_loop i (ar_push (ar_buffer st + i * unat (ar_slot_size st)) st)"

definition ar_round_up :: "u64 \<Rightarrow> u64 \<Rightarrow> u64" where
  "ar_round_up obj_size obj_align = (obj_size + obj_align - 1) AND NOT (obj_align - 1)"

definition ar_init :: "nat \<Rightarrow> u64 \<Rightarrow> u64 \<Rightarrow> u64 \<Rightarrow> arena" where
  "ar_init buf buf_bytes obj_size obj_align =
     (let rounded = ar_round_up obj_size obj_align;
          slot_size = (if rounded < FREE_NODE_SIZE then FREE_NODE_SIZE else rounded);
          capacity = buf_bytes div slot_size
      in ar_init_loop (unat capacity)
           \<lparr>ar_buffer = buf, ar_slot_size = slot_size, ar_capacity = capacity,
            ar_freelist = None, ar_nodes = (\<lambda>_. None)\<rparr>)"

definition ar_allocate :: "arena \<Rightarrow> (nat option \<times> arena) option" where
  "ar_allocate st =
     (case ar_freelist st of
        None \<Rightarrow> Some (None, st)
      | Some slot \<Rightarrow>
          (case ar_nodes st slot of
             None \<Rightarrow> None
           | Some nx \<Rightarrow> Some (Some slot, st\<lparr>ar_freelist := nx\<rparr>)))"

definition ar_deallocate :: "nat \<Rightarrow> arena \<Rightarrow> arena" where
  "ar_deallocate p st = ar_push p st"

definition ar_owns :: "nat \<Rightarrow> arena \<Rightarrow> bool" where
  "ar_owns p st \<longleftrightarrow> ar_buffer st \<le> p \<and>
     p < ar_buffer st + unat (ar_capacity st) * unat (ar_slot_size st)"

section \<open>The allocator\<close>

definition pa_allocate ::
  "(u64 \<Rightarrow> 'h \<Rightarrow> nat \<times> 'h) \<Rightarrow> u64 \<Rightarrow> u64 \<Rightarrow> arena \<times> 'h \<Rightarrow> (nat \<times> arena \<times> 'h) option" where
  "pa_allocate op_new sizeof_T n = (\<lambda>(st, h).
     (let fallback = (case op_new (n * sizeof_T) h of (p, h') \<Rightarrow> (p, st, h'))
      in if n = 1
         then (case ar_allocate st of
                 None \<Rightarrow> None
               | Some (Some slot, st') \<Rightarrow> Some (slot, st', h)
               | Some (None, _) \<Rightarrow> Some fallback)
         else Some fallback))"

definition pa_deallocate :: "(nat \<Rightarrow> 'h \<Rightarrow> 'h) \<Rightarrow> nat \<Rightarrow> arena \<times> 'h \<Rightarrow> arena \<times> 'h" where
  "pa_deallocate op_delete p = (\<lambda>(st, h).
     (if ar_owns p st then (ar_deallocate p st, h) else (st, op_delete p h)))"

text \<open>
  A \<^verbatim>\<open>PoolAllocator\<close> object is a pointer to the state of an arena, which it shares with the
  allocators constructed from it, also for other types; two are equal when they point to the
  same arena. \<open>arenas\<close> is the memory at these pointers.
\<close>

record pool_allocator =
  pal_arena :: nat

definition pal_of :: "nat \<Rightarrow> pool_allocator" where
  "pal_of arena = \<lparr>pal_arena = arena\<rparr>"

definition pal_rebind :: "pool_allocator \<Rightarrow> pool_allocator" where
  "pal_rebind other = \<lparr>pal_arena = pal_arena other\<rparr>"

definition pal_eq :: "pool_allocator \<Rightarrow> pool_allocator \<Rightarrow> bool" where
  "pal_eq a b \<longleftrightarrow> pal_arena a = pal_arena b"

definition pal_neq :: "pool_allocator \<Rightarrow> pool_allocator \<Rightarrow> bool" where
  "pal_neq a b \<longleftrightarrow> \<not> pal_eq a b"

definition pal_allocate ::
  "(u64 \<Rightarrow> 'h \<Rightarrow> nat \<times> 'h) \<Rightarrow> u64 \<Rightarrow> pool_allocator \<Rightarrow> u64 \<Rightarrow> (nat \<Rightarrow> arena) \<times> 'h \<Rightarrow>
     (nat \<times> (nat \<Rightarrow> arena) \<times> 'h) option" where
  "pal_allocate op_new sizeof_T a n = (\<lambda>(arenas, h).
     map_option (\<lambda>(p, st, h'). (p, arenas(pal_arena a := st), h'))
       (pa_allocate op_new sizeof_T n (arenas (pal_arena a), h)))"

definition pal_deallocate ::
  "(nat \<Rightarrow> 'h \<Rightarrow> 'h) \<Rightarrow> pool_allocator \<Rightarrow> nat \<Rightarrow> (nat \<Rightarrow> arena) \<times> 'h \<Rightarrow> (nat \<Rightarrow> arena) \<times> 'h" where
  "pal_deallocate op_delete a p = (\<lambda>(arenas, h).
     (case pa_deallocate op_delete p (arenas (pal_arena a), h) of
        (st, h') \<Rightarrow> (arenas(pal_arena a := st), h')))"

text \<open>The arenas of \<open>OrderBook\<close>: 512 slots of 256 bytes, one arena for each side.\<close>

definition MAX_PRICE_LEVELS :: u64 where "MAX_PRICE_LEVELS = 512"
definition MAP_SLOT_MAX_BYTES :: u64 where "MAP_SLOT_MAX_BYTES = 256"
definition ARENA_BYTES :: u64 where "ARENA_BYTES = MAX_PRICE_LEVELS * MAP_SLOT_MAX_BYTES"

definition book_arena :: "u64 \<Rightarrow> nat \<Rightarrow> arena" where
  "book_arena map_slot_align buf = ar_init buf ARENA_BYTES MAP_SLOT_MAX_BYTES map_slot_align"

section \<open>Rounding\<close>

lemma and_not_mask: "x AND NOT (mask k) = x - take_bit k (x :: 'a::len word)"
proof -
  have "x AND NOT (mask k) = push_bit k (drop_bit k x)"
    by (rule bit_eqI) (auto simp: bit_simps)
  then show ?thesis using bits_ident [of k x] by (simp add: eq_diff_eq)
qed

lemma unat_and_not_mask:
  "unat (x AND NOT (mask k)) = unat (x :: 'a::len word) - unat x mod 2 ^ k"
proof -
  have "unat (take_bit k x) = unat x mod 2 ^ k"
    by (simp add: unsigned_take_bit_eq flip: take_bit_eq_mod)
  then show ?thesis by (simp add: and_not_mask unat_diff word_le_nat_alt)
qed

text \<open>The rounded size is the least multiple of the alignment that is at least the size.\<close>

lemma ar_round_up_spec:
  assumes "unat sz + 2 ^ k \<le> 2 ^ 64" and "k < 64"
  shows "2 ^ k dvd unat (ar_round_up sz (2 ^ k))" and "unat sz \<le> unat (ar_round_up sz (2 ^ k))"
    and "unat (ar_round_up sz (2 ^ k)) < unat sz + 2 ^ k"
proof -
  have pow: "unat (2 ^ k :: u64) = 2 ^ k" 
    using assms(2) unsigned_push_bit_eq [of k "1 :: u64", where 'a = nat]
    by (simp add: push_bit_eq_mult take_bit_nat_eq_self)
  let ?n = "unat sz + (2 ^ k - 1)"
  have one: "unat ((2 :: u64) ^ k - 1) = 2 ^ k - 1"
    using pow by (subst unat_diff) (simp_all add: word_le_nat_alt)
  have "unat sz + unat ((2 :: u64) ^ k - 1) < 2 ^ LENGTH(64)"
    unfolding one using assms(1) zero_less_power [of "2::nat" k] by simp
  from iffD1 [OF unat_add_lem this] have "unat (sz + (2 ^ k - 1)) = ?n" by (simp only: one)
  moreover have "sz + 2 ^ k - 1 = sz + (2 ^ k - 1)" by simp
  ultimately have val: "unat (ar_round_up sz (2 ^ k)) = ?n - ?n mod 2 ^ k"
    unfolding ar_round_up_def
    by (metis mask_eq_exp_minus_1 unat_and_not_mask)
  show "2 ^ k dvd unat (ar_round_up sz (2 ^ k))" unfolding val by (rule dvd_minus_mod)
  have "?n mod 2 ^ k < 2 ^ k" by simp
  then show "unat sz \<le> unat (ar_round_up sz (2 ^ k))" unfolding val by linarith
  show "unat (ar_round_up sz (2 ^ k)) < unat sz + 2 ^ k"
    unfolding val using zero_less_power [of "2::nat" k] by linarith
qed

section \<open>The free list\<close>

fun node_chain :: "(nat \<Rightarrow> nat option option) \<Rightarrow> nat option \<Rightarrow> nat list \<Rightarrow> bool" where
  "node_chain nodes h [] \<longleftrightarrow> h = None"
| "node_chain nodes h (f # fs) \<longleftrightarrow>
     h = Some f \<and> (\<exists>nx. nodes f = Some nx \<and> node_chain nodes nx fs)"

lemma node_chain_upd [simp]:
  "a \<notin> set fs \<Longrightarrow> node_chain (nodes(a := v)) h fs = node_chain nodes h fs"
  by (induction fs arbitrary: h) auto

text \<open>The slots of an arena, and the state with a given geometry and free list.\<close>

definition slot_addrs :: "nat \<Rightarrow> nat \<Rightarrow> nat \<Rightarrow> nat list" where
  "slot_addrs buf slot_size n = map (\<lambda>i. buf + i * slot_size) [0..<n]"

definition arena_holds :: "nat \<Rightarrow> u64 \<Rightarrow> u64 \<Rightarrow> arena \<Rightarrow> nat list \<Rightarrow> bool" where
  "arena_holds buf ss cap st fs \<longleftrightarrow>
     ar_buffer st = buf \<and> ar_slot_size st = ss \<and> ar_capacity st = cap \<and>
     node_chain (ar_nodes st) (ar_freelist st) fs"

lemma slot_addrs_distinct: "0 < ss \<Longrightarrow> distinct (slot_addrs buf ss n)"
  by (simp add: slot_addrs_def distinct_map inj_on_def)

lemma ar_init_loop_geometry [simp]:
  "ar_slot_size (ar_init_loop n st) = ar_slot_size st"
  "ar_capacity (ar_init_loop n st) = ar_capacity st"
  by (induction n arbitrary: st) (simp_all add: ar_push_def)

lemma ar_init_loop_holds:
  "node_chain (ar_nodes st) (ar_freelist st) fs \<Longrightarrow> distinct (slot_addrs (ar_buffer st)
     (unat (ar_slot_size st)) n @ fs) \<Longrightarrow>
   arena_holds (ar_buffer st) (ar_slot_size st) (ar_capacity st) (ar_init_loop n st)
     (slot_addrs (ar_buffer st) (unat (ar_slot_size st)) n @ fs)"
proof (induction n arbitrary: st fs)
  case 0
  then show ?case by (simp add: arena_holds_def slot_addrs_def)
next
  case (Suc n)
  let ?p = "ar_buffer st + n * unat (ar_slot_size st)"
  let ?st = "ar_push ?p st"
  have geom: "ar_buffer ?st = ar_buffer st" "ar_slot_size ?st = ar_slot_size st"
    "ar_capacity ?st = ar_capacity st" by (simp_all add: ar_push_def)
  have snoc: "slot_addrs (ar_buffer st) (unat (ar_slot_size st)) (Suc n) =
      slot_addrs (ar_buffer st) (unat (ar_slot_size st)) n @ [?p]"
    by (simp add: slot_addrs_def)
  have "?p \<notin> set fs" using Suc.prems(2) snoc by auto
  then have "node_chain (ar_nodes ?st) (ar_freelist ?st) (?p # fs)"
    using Suc.prems(1) by (simp add: ar_push_def)
  moreover have "distinct (slot_addrs (ar_buffer ?st) (unat (ar_slot_size ?st)) n @ ?p # fs)"
    using Suc.prems(2) unfolding snoc geom by simp
  ultimately have "arena_holds (ar_buffer ?st) (ar_slot_size ?st) (ar_capacity ?st)
      (ar_init_loop n ?st) (slot_addrs (ar_buffer ?st) (unat (ar_slot_size ?st)) n @ ?p # fs)"
    by (rule Suc.IH)
  then show ?case unfolding geom snoc by simp
qed

interpretation arena: slot_allocator "set (slot_addrs buf (unat ss) (unat cap))"
  "arena_holds buf ss cap" ar_allocate "\<lambda>a st. Some (ar_deallocate a st)" for buf ss cap
  by unfold_locales
    (auto simp: arena_holds_def ar_allocate_def ar_deallocate_def ar_push_def)

section \<open>The geometry after \<open>init\<close>\<close>

lemma ar_init_geometry:
  fixes ss cap obj_size buf_bytes :: u64 and buf k :: nat
  assumes "unat obj_size + 2 ^ k \<le> 2 ^ 64" and "k < 64" and "0 < unat obj_size"
  defines "ss \<equiv> ar_slot_size (ar_init buf buf_bytes obj_size (2 ^ k))"
    and "cap \<equiv> ar_capacity (ar_init buf buf_bytes obj_size (2 ^ k))"
  shows "arena_holds buf ss cap (ar_init buf buf_bytes obj_size (2 ^ k))
      (slot_addrs buf (unat ss) (unat cap))"
    and "2 ^ k dvd unat ss" and "unat obj_size \<le> unat ss" and "8 \<le> unat ss"
    and "unat cap * unat ss \<le> unat buf_bytes"
proof -
  let ?r = "ar_round_up obj_size (2 ^ k)"
  let ?ss = "if ?r < FREE_NODE_SIZE then FREE_NODE_SIZE else ?r"
  note round = ar_round_up_spec [OF assms(1,2)]
  let ?st = "\<lparr>ar_buffer = buf, ar_slot_size = ?ss, ar_capacity = buf_bytes div ?ss,
    ar_freelist = None, ar_nodes = (\<lambda>_. None)\<rparr>"
  have eight: "8 \<le> unat ?ss" by (auto simp: FREE_NODE_SIZE_def word_less_nat_alt)
  then have "distinct (slot_addrs (ar_buffer ?st) (unat (ar_slot_size ?st))
      (unat (buf_bytes div ?ss)) @ [])"
    using slot_addrs_distinct by simp
  from ar_init_loop_holds [OF _ this]
  have unfold: "arena_holds buf ?ss (buf_bytes div ?ss) (ar_init buf buf_bytes obj_size (2 ^ k))
      (slot_addrs buf (unat ?ss) (unat (buf_bytes div ?ss)))"
    by (simp add: ar_init_def Let_def)
  then have eqs: "ss = ?ss" "cap = buf_bytes div ?ss"
    unfolding ss_def cap_def arena_holds_def by blast+
  show "arena_holds buf ss cap (ar_init buf buf_bytes obj_size (2 ^ k))
      (slot_addrs buf (unat ss) (unat cap))"
    using unfold by (simp add: eqs)
  show "8 \<le> unat ss" using eight by (simp only: eqs)
  show "unat obj_size \<le> unat ss" using round(2) by (auto simp: eqs word_less_nat_alt)
  show "unat cap * unat ss \<le> unat buf_bytes"
    by (simp add: eqs(2) unat_div eqs(1)[symmetric])
  show "2 ^ k dvd unat ss"
  proof (cases "?r < FREE_NODE_SIZE")
    case True
    have "2 ^ k \<le> unat ?r" using round assms(3) by (intro dvd_imp_le) auto
    also have "\<dots> < 2 ^ 3" using True by (simp add: FREE_NODE_SIZE_def word_less_nat_alt)
    finally have "k < 3" using power_less_imp_less_exp [of "2::nat" k 3] by simp
    then have "2 ^ k dvd (2 ^ 3 :: nat)" by (intro le_imp_power_dvd) simp
    then show ?thesis using True by (simp add: eqs FREE_NODE_SIZE_def)
  next
    case False
    then show ?thesis using round(1) by (simp add: eqs)
  qed
qed

section \<open>Properties\<close>

lemma slot_addrs_iff: "a \<in> set (slot_addrs buf ss n) \<longleftrightarrow> (\<exists>i < n. a = buf + i * ss)"
  by (auto simp: slot_addrs_def)

lemma slot_in_buffer:
  assumes "a \<in> set (slot_addrs buf ss n)" and "n * ss \<le> bytes"
  shows "buf \<le> a" and "a + ss \<le> buf + bytes" and "ss dvd a - buf"
proof -
  obtain i where i: "i < n" "a = buf + i * ss" using assms(1) slot_addrs_iff by blast
  then have "Suc i * ss \<le> n * ss" by (intro mult_le_mono1) simp
  with i assms(2) show "buf \<le> a" "a + ss \<le> buf + bytes" "ss dvd a - buf" by simp_all
qed

lemma slots_apart:
  assumes "a \<in> set (slot_addrs buf ss n)" and "b \<in> set (slot_addrs buf ss n)" and "a < b"
  shows "a + ss \<le> b"
proof -
  obtain i where i: "a = buf + i * ss" using assms(1) by (auto simp: slot_addrs_iff)
  obtain j where j: "b = buf + j * ss" using assms(2) by (auto simp: slot_addrs_iff)
  note ij = i j
  with assms(3) have "i < j" by simp
  then have "Suc i * ss \<le> j * ss" by (intro mult_le_mono1) simp
  with ij show ?thesis by simp
qed

lemma slot_owned:
  assumes "arena_holds buf ss cap st fs" and "a \<in> set (slot_addrs buf (unat ss) (unat cap))"
    and "0 < unat ss"
  shows "ar_owns a st"
proof -
  have "ar_buffer st = buf" "ar_slot_size st = ss" "ar_capacity st = cap"
    using assms(1) unfolding arena_holds_def by blast+
  then show ?thesis unfolding ar_owns_def
    using slot_in_buffer(1,2) [OF assms(2) order_refl] assms(3) by simp
qed

text \<open>
  (C30) Whatever sequence of allocations and deallocations a client makes on an initialised
  arena, the objects it holds lie inside the buffer, at multiples of the alignment from its
  start, do not overlap, and are recognised by \<open>owns\<close>.
\<close>

theorem arena_objects_disjoint:
  assumes "unat obj_size + 2 ^ k \<le> 2 ^ 64" and "k < 64" and "0 < unat obj_size"
  shows "\<exists>own st. client_run ar_allocate (\<lambda>a st. Some (ar_deallocate a st)) ops
      ([], ar_init buf buf_bytes obj_size (2 ^ k)) = Some (own, st) \<and> distinct own \<and>
    (\<forall>a \<in> set own. buf \<le> a \<and> a + unat obj_size \<le> buf + unat buf_bytes \<and> 2 ^ k dvd a - buf \<and>
       ar_owns a st) \<and>
    (\<forall>a \<in> set own. \<forall>b \<in> set own. a < b \<longrightarrow> a + unat obj_size \<le> b)"
proof -
  define ss where "ss = ar_slot_size (ar_init buf buf_bytes obj_size (2 ^ k))"
  define cap where "cap = ar_capacity (ar_init buf buf_bytes obj_size (2 ^ k))"
  note geom = ar_init_geometry [OF assms, of buf buf_bytes, folded ss_def cap_def]
  have "arena.split_slots buf ss cap [] (slot_addrs buf (unat ss) (unat cap))"
    using geom(4) slot_addrs_distinct by (auto simp: arena.split_slots_def)
  from arena.client_ownership [OF geom(1) this, of ops] obtain own st fs where
    run: "client_run ar_allocate (\<lambda>a st. Some (ar_deallocate a st)) ops
      ([], ar_init buf buf_bytes obj_size (2 ^ k)) = Some (own, st)"
    and holds: "arena_holds buf ss cap st fs" and split: "arena.split_slots buf ss cap own fs"
    by blast
  have slot: "a \<in> set (slot_addrs buf (unat ss) (unat cap))" if "a \<in> set own" for a
    using split that by (auto simp: arena.split_slots_def)
  have "buf \<le> a \<and> a + unat obj_size \<le> buf + unat buf_bytes \<and> 2 ^ k dvd a - buf \<and> ar_owns a st"
    if "a \<in> set own" for a
    using slot_in_buffer [OF slot [OF that] geom(5)] slot_owned [OF holds slot [OF that]]
      geom(2-4) by (auto intro: dvd_trans)
  moreover have "a + unat obj_size \<le> b" if "a \<in> set own" "b \<in> set own" "a < b" for a b
    using slots_apart [OF slot [OF that(1)] slot [OF that(2)] that(3)] geom(3) by simp
  ultimately show ?thesis using run split by (auto simp: arena.split_slots_def)
qed

theorem arena_objects_disjoint_witness:
  "\<exists>own st. client_run ar_allocate (\<lambda>a st. Some (ar_deallocate a st)) [Take, Take, Give 0, Take]
      ([], ar_init 0 4096 100 16) = Some (own, st) \<and> distinct own"
  using arena_objects_disjoint [of 100 4 "[Take, Take, Give 0, Take]" 0 4096] by auto

text \<open>
  While the arena has a free slot, allocating one node takes its first slot without
  calling \<open>operator new\<close>, and deallocating that node gives the slot back without calling
  \<open>operator delete\<close>: the free list is as before.
\<close>

lemma pool_allocator_roundtrip:
  assumes "arena_holds buf ss cap st (f # fs)" and "distinct (f # fs)"
    and "f \<in> set (slot_addrs buf (unat ss) (unat cap))" and "0 < unat ss"
  shows "\<exists>st1 st2. pa_allocate op_new sizeof_T 1 (st, h) = Some (f, st1, h) \<and>
    pa_deallocate op_delete f (st1, h) = (st2, h) \<and> arena_holds buf ss cap st2 (f # fs)"
proof -
  obtain st1 where one: "ar_allocate st = Some (Some f, st1)" "arena_holds buf ss cap st1 fs"
    using arena.take_some [OF assms(1)] by blast
  from slot_owned [OF one(2) assms(3,4)] have own: "ar_owns f st1" .
  have "arena_holds buf ss cap (ar_deallocate f st1) (f # fs)"
    using arena.give_holds [OF one(2) assms(3)] assms(2) by simp
  with one(1) own show ?thesis by (simp add: pa_allocate_def pa_deallocate_def)
qed

theorem pool_allocator_roundtrip_witness:
  "\<exists>st1 st2. pa_allocate (\<lambda>_ h. (h, h + 1)) 64 1 (ar_init 0 512 256 16, 1000) = Some (0, st1, 1000) \<and>
     pa_deallocate (\<lambda>_ h. h - 1) 0 (st1, 1000) = (st2, 1000 :: nat)"
proof -
  let ?st = "ar_init 0 512 256 16"
  have ss: "ar_slot_size ?st = 256" and cap: "ar_capacity ?st = 2" by code_simp+
  have "arena_holds 0 256 2 ?st (0 # [256])"
    using ar_init_geometry(1) [of 256 4 0 512] by (simp add: ss cap slot_addrs_def upt_rec)
  from pool_allocator_roundtrip [OF this, of "\<lambda>_ h. (h, h + 1)" 64 1000 "\<lambda>_ h. h - 1"]
  show ?thesis by (auto simp: slot_addrs_def)
qed

text \<open>
  Equality of allocators is what the standard requires of it: a node allocated through one can be
  given back through an equal one, here its rebound copy, with every arena as before; given back through an
  allocator of another arena, whose buffer lies elsewhere, it reaches \<open>operator delete\<close>.
\<close>

lemma pal_eq_equivalence:
  "pal_eq (pal_rebind a) a" "pal_eq a a" "pal_eq a b \<Longrightarrow> pal_eq b a"
  "pal_eq a b \<Longrightarrow> pal_eq b c \<Longrightarrow> pal_eq a c" "pal_neq a b \<longleftrightarrow> a \<noteq> b"
  by (auto simp: pal_eq_def pal_neq_def pal_rebind_def)

lemma pal_equal_gives_back:
  assumes "arena_holds buf ss cap (arenas (pal_arena a)) (f # fs)" and "distinct (f # fs)"
    and "f \<in> set (slot_addrs buf (unat ss) (unat cap))" and "0 < unat ss" and "pal_eq a b"
  shows "\<exists>arenas1 arenas2. pal_allocate op_new sizeof_T a 1 (arenas, h) = Some (f, arenas1, h) \<and>
    pal_deallocate op_delete b f (arenas1, h) = (arenas2, h) \<and>
    arena_holds buf ss cap (arenas2 (pal_arena a)) (f # fs) \<and>
    (\<forall>p. p \<noteq> pal_arena a \<longrightarrow> arenas2 p = arenas p)"
proof -
  obtain st1 st2 where "pa_allocate op_new sizeof_T 1 (arenas (pal_arena a), h) = Some (f, st1, h)"
    "pa_deallocate op_delete f (st1, h) = (st2, h)" "arena_holds buf ss cap st2 (f # fs)"
    using pool_allocator_roundtrip [OF assms(1-4), of op_new sizeof_T h op_delete] by blast
  with assms(5) show ?thesis by (simp add: pal_allocate_def pal_deallocate_def pal_eq_def)
qed

lemma pal_unequal_deletes:
  "\<not> ar_owns f (arenas (pal_arena b)) \<Longrightarrow>
   pal_deallocate op_delete b f (arenas, h) = (arenas, op_delete f h)"
  by (simp add: pal_deallocate_def pa_deallocate_def)

text \<open>
  When the arena is exhausted, or for more than one node, the allocator returns
  exactly what \<open>operator new\<close> returns for the whole size, and a pointer outside the arena
  goes to \<open>operator delete\<close> with the arena unchanged.
\<close>

lemma pool_allocator_falls_back:
  assumes "arena_holds buf ss cap st [] \<or> n \<noteq> 1" and "op_new (n * sizeof_T) h = (p, h')"
    and "\<not> ar_owns p st"
  shows "pa_allocate op_new sizeof_T n (st, h) = Some (p, st, h') \<and>
    pa_deallocate op_delete p (st, h') = (st, op_delete p h')"
proof -
  have "ar_allocate st = Some (None, st)" if "n = 1"
    using assms(1) that arena.take_none by blast
  with assms(2,3) show ?thesis
    by (cases "n = 1") (simp_all add: pa_allocate_def pa_deallocate_def Let_def)
qed

lemma pool_allocator_falls_back_witness:
  "pa_allocate (\<lambda>_ h. (h, h + 1)) 64 2 (ar_init 0 512 256 16, 1000) =
     Some (1000, ar_init 0 512 256 16, 1001 :: nat)"
proof -
  have "\<not> ar_owns 1000 (ar_init 0 512 256 16)" by code_simp
  then show ?thesis
    using pool_allocator_falls_back [where n = 2 and op_new = "\<lambda>_ h. (h, h + 1)" and p = 1000
      and h = 1000 and h' = 1001 and op_delete = "\<lambda>_ h. h - 1" and sizeof_T = 64
      and st = "ar_init 0 512 256 16"] by simp
qed

text \<open>The arenas of the order book, for every alignment up to 256.\<close>

lemma book_arena_holds:
  assumes "k \<le> 8"
  shows "arena_holds buf 256 512 (book_arena (2 ^ k) buf) (slot_addrs buf 256 512)"
proof -
  let ?st = "book_arena (2 ^ k) buf"
  have pre: "unat MAP_SLOT_MAX_BYTES + 2 ^ k \<le> 2 ^ 64" "k < 64" "0 < unat MAP_SLOT_MAX_BYTES"
    using assms power_increasing [of k 8 "2::nat"] by (simp_all add: MAP_SLOT_MAX_BYTES_def)
  note geom = ar_init_geometry [OF pre, of buf ARENA_BYTES, folded book_arena_def]
  have "2 ^ k dvd (2 ^ 8 :: nat)" using assms by (intro le_imp_power_dvd)
  then obtain c :: nat where c: "256 = 2 ^ k * c" by (auto simp: dvd_def)
  obtain r where r: "unat (ar_round_up MAP_SLOT_MAX_BYTES (2 ^ k)) = 2 ^ k * r"
    using ar_round_up_spec(1) [OF pre(1,2)] by (auto simp: dvd_def)
  have "2 ^ k * c \<le> 2 ^ k * r \<and> 2 ^ k * r < 2 ^ k * Suc c"
    using ar_round_up_spec(2,3) [OF pre(1,2)] c r by (simp add: MAP_SLOT_MAX_BYTES_def)
  then have "c \<le> r \<and> r < Suc c" unfolding mult_le_cancel1 mult_less_cancel1 by simp
  then have "r = c" by simp
  then have "ar_round_up MAP_SLOT_MAX_BYTES (2 ^ k) = 256"
    using r c by (simp add: word_unat_eq_iff)
  then have ss: "ar_slot_size ?st = 256" "ar_capacity ?st = 512"
    by (simp_all add: book_arena_def ar_init_def Let_def FREE_NODE_SIZE_def ARENA_BYTES_def
        MAX_PRICE_LEVELS_def MAP_SLOT_MAX_BYTES_def)
  show ?thesis using geom(1) by (simp add: ss)
qed

text \<open>
  The arena of each side of the order book serves exactly 512 price levels, for every
  alignment up to 256; the next one comes from \<open>operator new\<close>.
\<close>

lemma book_arena_serves_512:
  assumes "k \<le> 8"
  shows "\<exists>st. client_run ar_allocate (\<lambda>a st. Some (ar_deallocate a st)) (replicate 512 Take)
      ([], book_arena (2 ^ k) buf) = Some (rev (slot_addrs buf 256 512), st) \<and>
    ar_allocate st = Some (None, st) \<and>
    pa_allocate op_new sizeof_T 1 (st, h) =
      (case op_new sizeof_T h of (p, h') \<Rightarrow> Some (p, st, h'))"
proof -
  note holds = book_arena_holds [OF assms, of buf]
  have "length (slot_addrs buf 256 512) = 512" by (simp add: slot_addrs_def)
  with arena.take_all [OF holds, of "[]"] obtain st where
    run: "client_run ar_allocate (\<lambda>a st. Some (ar_deallocate a st)) (replicate 512 Take)
      ([], book_arena (2 ^ k) buf) = Some (rev (slot_addrs buf 256 512), st)"
    and empty: "arena_holds buf 256 512 st []" by auto
  from arena.take_none [OF empty] run show ?thesis
    by (auto simp: pa_allocate_def split: prod.splits)
qed

theorem book_arena_serves_512_witness:
  "\<exists>st. client_run ar_allocate (\<lambda>a st. Some (ar_deallocate a st)) (replicate 512 Take)
      ([], book_arena (2 ^ 4) 0) = Some (rev (slot_addrs 0 256 512), st) \<and>
    pa_allocate (\<lambda>_ h. (h, Suc h)) 64 1 (st, 1000) = Some (1000, st, Suc 1000)"
proof -
  have four: "4 \<le> (8 :: nat)" by simp
  let ?heap = "\<lambda>_ h. (h, Suc h)"
  obtain st where
    run: "client_run ar_allocate (\<lambda>a st. Some (ar_deallocate a st)) (replicate 512 Take)
      ([], book_arena (2 ^ 4) 0) = Some (rev (slot_addrs 0 256 512), st)"
    and last: "pa_allocate ?heap 64 1 (st, 1000) =
      (case ?heap (64 :: u64) 1000 of (p, h') \<Rightarrow> Some (p, st, h'))"
    using book_arena_serves_512 [OF four, where buf = 0 and h = 1000 and sizeof_T = 64
        and op_new = ?heap] by blast
  from last have "pa_allocate ?heap 64 1 (st, 1000) = Some (1000, st, Suc 1000)"
    by (simp only: prod.case)
  with run show ?thesis by blast
qed

end
