(* ===== verification/Risk_Engine.thy ===== *)
theory Risk_Engine
  imports Core_Types
begin

text \<open>
  \<^verbatim>\<open>include/nexus/risk/limits.hpp\<close>, \<^verbatim>\<open>risk_engine.hpp\<close> and \<^verbatim>\<open>src/risk/risk_engine.cpp\<close>: the
  pre-trade checks, in the order the code makes them and in its 64-bit arithmetic, and the
  global kill switch. The state of one engine is its limits; the kill switch is static, so
  a \<open>risk_state\<close> carries both.
\<close>

section \<open>Limits and checks\<close>

record RiskLimits =
  max_order_qty :: Quantity
  max_notional :: u64
  max_price_deviation_pct :: u8

definition RiskLimits_default :: RiskLimits where
  "RiskLimits_default =
     \<lparr>max_order_qty = 10000, max_notional = 1000000000, max_price_deviation_pct = 5\<rparr>"

datatype RejectReason =
    NoReject
  | MaxOrderQtyExceeded
  | MaxNotionalExceeded
  | PriceCollarExceeded
  | KillSwitchActive
  | UnknownError

fun reject_reason_byte :: "RejectReason \<Rightarrow> u8" where
  "reject_reason_byte NoReject = 0"
| "reject_reason_byte MaxOrderQtyExceeded = 1"
| "reject_reason_byte MaxNotionalExceeded = 2"
| "reject_reason_byte PriceCollarExceeded = 3"
| "reject_reason_byte KillSwitchActive = 4"
| "reject_reason_byte UnknownError = 5"

record risk_state =
  rs_limits :: RiskLimits
  rs_kill_switch :: bool

definition check_order :: "Price \<Rightarrow> Quantity \<Rightarrow> Side \<Rightarrow> Price \<Rightarrow> risk_state \<Rightarrow> RejectReason" where
  "check_order price qty side reference_price st =
     (if rs_kill_switch st then KillSwitchActive
      else if qty > max_order_qty (rs_limits st) then MaxOrderQtyExceeded
      else
        (let notional = price * qty
         in if notional > max_notional (rs_limits st) then MaxNotionalExceeded
            else if reference_price > 0
            then (let max_deviation =
                    (reference_price * ucast (max_price_deviation_pct (rs_limits st))) div 100
                  in (case side of
                        Buy \<Rightarrow> if price > reference_price + max_deviation
                               then PriceCollarExceeded else NoReject
                      | Sell \<Rightarrow> if price < reference_price - max_deviation
                                then PriceCollarExceeded else NoReject))
            else NoReject))"

definition trip_kill_switch :: "risk_state \<Rightarrow> risk_state" where
  "trip_kill_switch st = st\<lparr>rs_kill_switch := True\<rparr>"

definition reset_kill_switch :: "risk_state \<Rightarrow> risk_state" where
  "reset_kill_switch st = st\<lparr>rs_kill_switch := False\<rparr>"

definition is_kill_switch_active :: "risk_state \<Rightarrow> bool" where
  "is_kill_switch_active st = rs_kill_switch st"

definition update_limits :: "RiskLimits \<Rightarrow> risk_state \<Rightarrow> risk_state" where
  "update_limits l st = st\<lparr>rs_limits := l\<rparr>"

text \<open>
  The static kill switch is off when the program starts; constructing an engine sets its limits
  and leaves the switch as it finds it.
\<close>

definition global_kill_switch_initial :: bool where
  "global_kill_switch_initial = False"

definition RiskEngine_new :: "bool \<Rightarrow> RiskLimits \<Rightarrow> risk_state" where
  "RiskEngine_new kill_switch l = \<lparr>rs_limits = l, rs_kill_switch = kill_switch\<rparr>"

section \<open>Sessions\<close>

text \<open>Calls on the engine, from any thread, in the order they take effect.\<close>

datatype risk_call =
    Trip
  | Reset
  | Update RiskLimits
  | Check Price Quantity Side Price

fun risk_run :: "risk_call list \<Rightarrow> risk_state \<Rightarrow> RejectReason list \<times> risk_state" where
  "risk_run [] st = ([], st)"
| "risk_run (Trip # cs) st = risk_run cs (trip_kill_switch st)"
| "risk_run (Reset # cs) st = risk_run cs (reset_kill_switch st)"
| "risk_run (Update l # cs) st = risk_run cs (update_limits l st)"
| "risk_run (Check p q s r # cs) st =
     (let (rs, st') = risk_run cs st in (check_order p q s r st # rs, st'))"

section \<open>The checks in exact arithmetic\<close>

text \<open>What the checks mean, over natural numbers.\<close>

definition within_limits :: "RiskLimits \<Rightarrow> nat \<Rightarrow> nat \<Rightarrow> Side \<Rightarrow> nat \<Rightarrow> bool" where
  "within_limits l price qty side ref \<longleftrightarrow>
     qty \<le> unat (max_order_qty l) \<and> price * qty \<le> unat (max_notional l) \<and>
     (ref = 0 \<or> (let dev = ref * unat (max_price_deviation_pct l) div 100
                 in case side of Buy \<Rightarrow> price \<le> ref + dev | Sell \<Rightarrow> ref \<le> price + dev))"

lemma unat_pct: "unat (ucast (p :: u8) :: u64) = unat p"
proof -
  have "unat p < 2 ^ LENGTH(8)" by (rule unsigned_less)
  then show ?thesis by (simp add: unsigned_ucast_eq take_bit_nat_eq_self)
qed

lemma max_deviation_exact:
  assumes "unat ref * unat (p :: u8) < 2 ^ 64"
  shows "unat ((ref * ucast p) div 100 :: u64) = unat ref * unat p div 100"
proof -
  have "unat (ref * ucast p :: u64) = unat ref * unat p"
    using assms unat_mult_exact [of ref "ucast p :: u64"] by (simp add: unat_pct)
  then show ?thesis by (simp add: unat_div)
qed

section \<open>Properties\<close>

text \<open>
  (C25) Without overflow the engine accepts an order exactly when the kill switch is off and
  the order is within the size, notional and price-collar limits in exact arithmetic.
\<close>

theorem check_order_exact:
  assumes "unat price * unat qty < 2 ^ 64"
    and "unat ref * unat (max_price_deviation_pct (rs_limits st)) < 2 ^ 64"
    and "unat ref + unat ref * unat (max_price_deviation_pct (rs_limits st)) div 100 < 2 ^ 64"
    and "unat (max_price_deviation_pct (rs_limits st)) \<le> 100"
  shows "check_order price qty side ref st = NoReject \<longleftrightarrow>
    \<not> is_kill_switch_active st \<and> within_limits (rs_limits st) (unat price) (unat qty) side (unat ref)"
proof -
  let ?dev = "(ref * ucast (max_price_deviation_pct (rs_limits st))) div 100"
  have dev: "unat ?dev = unat ref * unat (max_price_deviation_pct (rs_limits st)) div 100"
    by (rule max_deviation_exact [OF assms(2)])
  have "unat ?dev \<le> unat ref * 100 div 100"
    unfolding dev using assms(4) by (intro div_le_mono mult_le_mono2)
  then have le: "?dev \<le> ref" by (simp add: word_le_nat_alt)
  have "unat (price * qty) = unat price * unat qty"
    using assms(1) by (intro unat_mult_exact) simp
  moreover have "unat (ref + ?dev) = unat ref + unat ?dev"
    using assms(3) dev by (intro unat_add_exact) simp
  moreover have "unat (ref - ?dev) = unat ref - unat ?dev" by (rule unat_diff [OF le])
  moreover have "ref > 0 \<longleftrightarrow> unat ref \<noteq> 0" by (simp add: word_gt_0_iff unat_eq_zero)
  ultimately show ?thesis
    using dev by (cases side)
      (auto simp: check_order_def within_limits_def is_kill_switch_active_def Let_def
        word_less_nat_alt not_less)
qed


theorem check_order_exact_witness:
  "check_order 10000 100 Buy 9800 (RiskEngine_new global_kill_switch_initial RiskLimits_default) = NoReject"
  by (subst check_order_exact)
    (simp_all add: RiskEngine_new_def global_kill_switch_initial_def RiskLimits_default_def within_limits_def
      is_kill_switch_active_def)

text \<open>
  The first failing check decides the reason: the kill switch before the size, the size
  before the notional value, the notional value before the price collar.
\<close>

lemma check_order_precedence:
  "(check_order price qty side ref st = KillSwitchActive \<longleftrightarrow> is_kill_switch_active st) \<and>
   (check_order price qty side ref st = MaxOrderQtyExceeded \<longleftrightarrow>
      \<not> is_kill_switch_active st \<and> max_order_qty (rs_limits st) < qty) \<and>
   (check_order price qty side ref st = MaxNotionalExceeded \<longleftrightarrow>
      \<not> is_kill_switch_active st \<and> \<not> max_order_qty (rs_limits st) < qty \<and>
      max_notional (rs_limits st) < price * qty) \<and>
   (check_order price qty side ref st = PriceCollarExceeded \<longrightarrow> ref \<noteq> 0) \<and>
   check_order price qty side ref st \<noteq> UnknownError"
  by (cases side)
    (auto simp: check_order_def is_kill_switch_active_def Let_def word_gt_0_iff split: if_splits)

lemma risk_run_killed:
  "rs_kill_switch st \<Longrightarrow> Reset \<notin> set cs \<Longrightarrow>
     set (fst (risk_run cs st)) \<subseteq> {KillSwitchActive} \<and> rs_kill_switch (snd (risk_run cs st))"
proof (induction cs arbitrary: st)
  case (Cons c cs)
  show ?case
  proof (cases c)
    case (Check p q s r)
    obtain rs st' where "risk_run cs st = (rs, st')" by (metis surj_pair)
    with Cons.IH [of st] Cons.prems Check show ?thesis by (simp add: check_order_def)
  qed (use Cons in \<open>auto simp: trip_kill_switch_def update_limits_def\<close>)
qed simp

text \<open>
  The kill switch holds until it is reset: after a trip, and whatever limit updates,
  trips and checks follow without a reset, every check answers \<open>KillSwitchActive\<close>.
\<close>

lemma kill_switch_holds_until_reset:
  assumes "Reset \<notin> set cs"
  shows "set (fst (risk_run cs (trip_kill_switch st))) \<subseteq> {KillSwitchActive} \<and>
    is_kill_switch_active (snd (risk_run cs (trip_kill_switch st))) \<and>
    check_order price qty side ref
      (reset_kill_switch (snd (risk_run cs (trip_kill_switch st)))) \<noteq> KillSwitchActive"
proof -
  have "rs_kill_switch (trip_kill_switch st)" by (simp add: trip_kill_switch_def)
  from risk_run_killed [OF this assms] show ?thesis
    by (cases side)
      (auto simp: is_kill_switch_active_def reset_kill_switch_def check_order_def Let_def)
qed

theorem kill_switch_holds_until_reset_witness:
  "set (fst (risk_run [Check 1 1 Buy 0, Update RiskLimits_default, Check 5 5 Sell 4]
     (trip_kill_switch (RiskEngine_new global_kill_switch_initial RiskLimits_default)))) \<subseteq> {KillSwitchActive}"
  using kill_switch_holds_until_reset
    [of "[Check 1 1 Buy 0, Update RiskLimits_default, Check 5 5 Sell 4]"] by simp

text \<open>
  The notional check is made on the product modulo 2^64: an order whose true notional
  value is far above the limit passes when the product wraps. With the default limits, an
  order of 8192 at price 2^51 has notional 2^64 and is accepted.
\<close>

lemma notional_check_wraps:
  assumes "\<not> is_kill_switch_active st" and "qty \<le> max_order_qty (rs_limits st)"
  shows "check_order price qty side 0 st = NoReject \<longleftrightarrow>
    (unat price * unat qty) mod 2 ^ 64 \<le> unat (max_notional (rs_limits st))"
proof -
  have "unat (price * qty) = (unat price * unat qty) mod 2 ^ 64"
    by (simp add: unat_word_ariths)
  with assms show ?thesis
    by (auto simp: check_order_def is_kill_switch_active_def word_less_nat_alt word_le_nat_alt not_less)
qed

theorem notional_check_wraps_witness:
  "check_order (2 ^ 51) 8192 Buy 0 (RiskEngine_new global_kill_switch_initial RiskLimits_default) = NoReject \<and>
   unat (max_notional RiskLimits_default) < unat (2 ^ 51 :: Price) * unat (8192 :: Quantity)"
proof
  show "check_order (2 ^ 51) 8192 Buy 0 (RiskEngine_new global_kill_switch_initial RiskLimits_default) = NoReject"
    by (subst notional_check_wraps)
      (simp_all add: RiskEngine_new_def global_kill_switch_initial_def RiskLimits_default_def is_kill_switch_active_def)
  show "unat (max_notional RiskLimits_default) < unat (2 ^ 51 :: Price) * unat (8192 :: Quantity)"
    by (simp add: RiskLimits_default_def)
qed

text \<open>
  With a deviation limit that exceeds the reference price the lower collar wraps below
  zero: every sell at or below the reference price is rejected.
\<close>

lemma sell_collar_underflow:
  assumes "\<not> is_kill_switch_active st" and "qty \<le> max_order_qty (rs_limits st)"
    and "price * qty \<le> max_notional (rs_limits st)" and "price \<le> ref"
    and "unat ref * unat (max_price_deviation_pct (rs_limits st)) < 2 ^ 64"
    and "unat ref < unat ref * unat (max_price_deviation_pct (rs_limits st)) div 100"
  shows "check_order price qty Sell ref st = PriceCollarExceeded"
proof -
  let ?dev = "(ref * ucast (max_price_deviation_pct (rs_limits st))) div 100"
  have dev: "unat ?dev = unat ref * unat (max_price_deviation_pct (rs_limits st)) div 100"
    by (rule max_deviation_exact [OF assms(5)])
  then have "unat ref < unat ?dev" using assms(6) by simp
  moreover have "unat ?dev < 2 ^ LENGTH(64)" by (rule unsigned_less)
  moreover from calculation have "unat (ref - ?dev) = unat ref + 2 ^ LENGTH(64) - unat ?dev"
    by (subst unat_sub_if') auto
  ultimately have "unat ref < unat (ref - ?dev)" by linarith
  then have "ref < ref - ?dev" by (simp only: word_less_nat_alt)
  with assms(1-4) have "price < ref - ?dev" by simp
  moreover have "ref > 0" using assms(6) by (cases "unat ref") (auto simp: word_gt_0_iff)
  ultimately show ?thesis using assms(1-3)
    by (simp add: check_order_def is_kill_switch_active_def Let_def not_less)
qed

lemma sell_collar_underflow_witness:
  "check_order 100 1 Sell 100 (RiskEngine_new global_kill_switch_initial
     \<lparr>max_order_qty = 10000, max_notional = 1000000000, max_price_deviation_pct = 150\<rparr>) =
   PriceCollarExceeded"
  by (rule sell_collar_underflow) (simp_all add: RiskEngine_new_def global_kill_switch_initial_def is_kill_switch_active_def)

text \<open>A tripped switch stays tripped when another engine is made: it rejects every order too.\<close>

lemma new_engine_keeps_kill_switch:
  "check_order p q s r (RiskEngine_new (is_kill_switch_active (trip_kill_switch st)) l) = KillSwitchActive"
  by (simp add: RiskEngine_new_def is_kill_switch_active_def trip_kill_switch_def check_order_def)

end
