(* ===== verification/SPSC_Queue.thy ===== *)
theory SPSC_Queue
  imports Nexus_Prelude
begin

unbundle bit_operations_syntax

text \<open>
  \<^verbatim>\<open>include/nexus/concurrency/spsc_queue.hpp\<close>: the single-producer single-consumer ring
  buffer, first as two sequential operations, then as the micro-steps of a producer and a
  consumer thread in any interleaving: every atomic load and store and every buffer access
  is one step. Each index is written by one thread only and the release store of an index
  comes after the buffer access it publishes, so the steps are taken in program order and
  an acquire load reads the index's current or, through the cached copies, an older value.
  \<open>SPSC_Release_Acquire\<close> drops that assumption: there every load may return an older value.
\<close>

section \<open>The queue and its operations\<close>

record 'a spsc =
  sq_capacity :: u64
  sq_mask :: u64
  sq_buffer :: "'a list"
  sq_head :: u64
  sq_cached_tail :: u64
  sq_tail :: u64
  sq_cached_head :: u64

text \<open>\<open>None\<close> is the failed assertion that the capacity is a power of two; \<open>d\<close> is \<open>T()\<close>.\<close>

definition sq_new :: "'a \<Rightarrow> u64 \<Rightarrow> 'a spsc option" where
  "sq_new d capacity =
     (if capacity > 0 \<and> capacity AND (capacity - 1) = 0
      then Some \<lparr>sq_capacity = capacity, sq_mask = capacity - 1,
                 sq_buffer = replicate (unat capacity) d, sq_head = 0, sq_cached_tail = 0,
                 sq_tail = 0, sq_cached_head = 0\<rparr>
      else None)"

text \<open>\<open>None\<close> is an access outside the buffer.\<close>

definition buf_write :: "u64 \<Rightarrow> 'a \<Rightarrow> 'a spsc \<Rightarrow> 'a spsc option" where
  "buf_write i x q =
     (if unat i < length (sq_buffer q) then Some (q\<lparr>sq_buffer := (sq_buffer q)[unat i := x]\<rparr>)
      else None)"

definition buf_read :: "u64 \<Rightarrow> 'a spsc \<Rightarrow> 'a option" where
  "buf_read i q = (if unat i < length (sq_buffer q) then Some (sq_buffer q ! unat i) else None)"

definition sq_push :: "'a \<Rightarrow> 'a spsc \<Rightarrow> (bool \<times> 'a spsc) option" where
  "sq_push item q =
     (let head = sq_head q;
          next_head = (head + 1) AND sq_mask q;
          store = (\<lambda>q. case buf_write head item q of
                         None \<Rightarrow> None
                       | Some q' \<Rightarrow> Some (True, q'\<lparr>sq_head := next_head\<rparr>))
      in if next_head = sq_cached_tail q
         then (let q1 = q\<lparr>sq_cached_tail := sq_tail q\<rparr>
               in if next_head = sq_cached_tail q1 then Some (False, q1) else store q1)
         else store q)"

definition sq_pop :: "'a spsc \<Rightarrow> ('a option \<times> 'a spsc) option" where
  "sq_pop q =
     (let tail = sq_tail q;
          load = (\<lambda>q. case buf_read tail q of
                        None \<Rightarrow> None
                      | Some item \<Rightarrow> Some (Some item, q\<lparr>sq_tail := (tail + 1) AND sq_mask q\<rparr>))
      in if tail = sq_cached_head q
         then (let q1 = q\<lparr>sq_cached_head := sq_head q\<rparr>
               in if tail = sq_cached_head q1 then Some (None, q1) else load q1)
         else load q)"

section \<open>Two threads\<close>

text \<open>
  The producer's and the consumer's place in their code, with their local variables, and
  the items whose \<open>push\<close> returned true and whose \<open>pop\<close> returned, in order.
\<close>

datatype 'a producer =
    P_Idle
  | P_Refresh 'a u64 u64  \<comment> \<open>the tail must be loaded: item, head, next head\<close>
  | P_Write 'a u64 u64    \<comment> \<open>the item must be written\<close>
  | P_Publish 'a u64      \<comment> \<open>the head must be stored\<close>

datatype 'a consumer =
    C_Idle
  | C_Refresh u64         \<comment> \<open>the head must be loaded: tail\<close>
  | C_Read u64            \<comment> \<open>the item must be read\<close>
  | C_Publish 'a u64      \<comment> \<open>the tail must be stored\<close>

record 'a threads =
  th_queue :: "'a spsc"
  th_producer :: "'a producer"
  th_consumer :: "'a consumer"
  th_pushed :: "'a list"
  th_popped :: "'a list"

datatype 'a result = Running | Push_Returns bool | Pop_Returns "'a option" | Bad_Access

text \<open>One step of the producer; \<open>x\<close> is the item of the \<open>push\<close> call it makes when idle.\<close>

definition producer_step :: "'a \<Rightarrow> 'a threads \<Rightarrow> 'a result \<times> 'a threads" where
  "producer_step x t =
     (let q = th_queue t in
      case th_producer t of
        P_Idle \<Rightarrow>
          (let head = sq_head q; next_head = (head + 1) AND sq_mask q
           in (Running, t\<lparr>th_producer := if next_head = sq_cached_tail q
                                          then P_Refresh x head next_head
                                          else P_Write x head next_head\<rparr>))
      | P_Refresh item head next_head \<Rightarrow>
          (let q1 = q\<lparr>sq_cached_tail := sq_tail q\<rparr>
           in if next_head = sq_cached_tail q1
              then (Push_Returns False, t\<lparr>th_queue := q1, th_producer := P_Idle\<rparr>)
              else (Running, t\<lparr>th_queue := q1, th_producer := P_Write item head next_head\<rparr>))
      | P_Write item head next_head \<Rightarrow>
          (case buf_write head item q of
             None \<Rightarrow> (Bad_Access, t)
           | Some q1 \<Rightarrow> (Running, t\<lparr>th_queue := q1, th_producer := P_Publish item next_head\<rparr>))
      | P_Publish item next_head \<Rightarrow>
          (Push_Returns True, t\<lparr>th_queue := q\<lparr>sq_head := next_head\<rparr>, th_producer := P_Idle,
             th_pushed := th_pushed t @ [item]\<rparr>))"

definition consumer_step :: "'a threads \<Rightarrow> 'a result \<times> 'a threads" where
  "consumer_step t =
     (let q = th_queue t in
      case th_consumer t of
        C_Idle \<Rightarrow>
          (let tail = sq_tail q
           in (Running, t\<lparr>th_consumer := if tail = sq_cached_head q
                                          then C_Refresh tail else C_Read tail\<rparr>))
      | C_Refresh tail \<Rightarrow>
          (let q1 = q\<lparr>sq_cached_head := sq_head q\<rparr>
           in if tail = sq_cached_head q1
              then (Pop_Returns None, t\<lparr>th_queue := q1, th_consumer := C_Idle\<rparr>)
              else (Running, t\<lparr>th_queue := q1, th_consumer := C_Read tail\<rparr>))
      | C_Read tail \<Rightarrow>
          (case buf_read tail q of
             None \<Rightarrow> (Bad_Access, t)
           | Some item \<Rightarrow> (Running, t\<lparr>th_consumer := C_Publish item tail\<rparr>))
      | C_Publish item tail \<Rightarrow>
          (Pop_Returns (Some item), t\<lparr>th_queue := q\<lparr>sq_tail := (tail + 1) AND sq_mask q\<rparr>,
             th_consumer := C_Idle, th_popped := th_popped t @ [item]\<rparr>))"

definition threads_of :: "'a spsc \<Rightarrow> 'a threads" where
  "threads_of q = \<lparr>th_queue = q, th_producer = P_Idle, th_consumer = C_Idle,
     th_pushed = [], th_popped = []\<rparr>"

inductive spsc_reach :: "'a spsc \<Rightarrow> 'a threads \<Rightarrow> bool" for q where
  start: "spsc_reach q (threads_of q)"
| produce: "spsc_reach q t \<Longrightarrow> spsc_reach q (snd (producer_step x t))"
| consume: "spsc_reach q t \<Longrightarrow> spsc_reach q (snd (consumer_step t))"

section \<open>Powers of two\<close>

lemma and_pred_nat: "0 < n \<Longrightarrow> n AND (n - 1) = 0 \<Longrightarrow> \<exists>k. n = 2 ^ k" for n :: nat
proof (induction n rule: less_induct)
  case (less n)
  show ?case
  proof (cases "even n")
    case True
    then obtain m where m: "n = 2 * m" by (auto elim: evenE)
    with less.prems(1) have pos: "0 < m" by simp
    then have "(2 * m - Suc 0) div 2 = m - Suc 0" by presburger
    then have "n AND (n - 1) = 2 * (m AND (m - 1))"
      using pos by (subst and_nat_unfold) (auto simp: m)
    with less.prems(2) have "m AND (m - 1) = 0" by simp
    with less.IH [of m] pos m obtain k where "m = 2 ^ k" by auto
    then have "n = 2 ^ Suc k" by (simp add: m)
    then show ?thesis by blast
  next
    case False
    then obtain m where m: "n = 2 * m + 1" by (auto elim: oddE)
    have "n AND (n - 1) = 2 * m"
      by (subst and_nat_unfold) (auto simp: m)
    with less.prems(2) m have "n = 2 ^ 0" by simp
    then show ?thesis by blast
  qed
qed

lemma and_pred_word:
  assumes "0 < c" and "c AND (c - 1) = (0 :: u64)"
  obtains k where "c = 2 ^ k" and "k < 64" and "unat c = 2 ^ k"
proof -
  have "unat c AND (unat c - 1) = unat (c AND (c - 1))"
    using assms(1) by (simp add: unsigned_and_eq unat_diff word_le_nat_alt word_less_nat_alt Suc_leI)
  with assms and_pred_nat [of "unat c"] obtain k where k: "unat c = 2 ^ k"
    by (auto simp: word_less_nat_alt)
  have "(2 :: nat) ^ k < 2 ^ 64" using unsigned_less [of c, where 'a = nat] k by simp
  then have "k < 64" by (rule power_less_imp_less_exp [rotated]) simp
  moreover have "c = 2 ^ k"
  proof -
    have "c = word_of_nat (unat c)" by simp
    also have "\<dots> = 2 ^ k" unfolding k by simp
    finally show ?thesis .
  qed
  ultimately show thesis using k that by blast
qed

lemma next_index:
  assumes "k < 64" shows "unat ((i + 1) AND (2 ^ k - 1) :: u64) = Suc (unat i) mod 2 ^ k"
proof -
  have "(i + 1) AND (2 ^ k - 1) = take_bit k (i + 1)" by (simp add: take_bit_eq_mask mask_eq_exp_minus_1)
  then have "unat ((i + 1) AND (2 ^ k - 1)) = unat (i + 1) mod 2 ^ k"
    by (simp add: unsigned_take_bit_eq flip: take_bit_eq_mod)
  also have "unat (i + 1) = Suc (unat i) mod 2 ^ 64" by (simp add: unat_word_ariths)
  also have "Suc (unat i) mod 2 ^ 64 mod 2 ^ k = Suc (unat i) mod (2 ^ k :: nat)"
    using assms by (intro mod_mod_cancel le_imp_power_dvd) simp
  finally show ?thesis .
qed

section \<open>The invariant\<close>

text \<open>
  With \<open>H\<close> completed pushes and \<open>T\<close> completed pops, the indices are these counts modulo the
  capacity; the cached tail is an older count \<open>CT \<le> T\<close> that still bounds \<open>H\<close>, the cached head
  a count \<open>CH\<close> between \<open>T\<close> and \<open>H\<close>; and the buffer holds the items in between.
\<close>

fun producer_ok :: "nat \<Rightarrow> nat \<Rightarrow> nat \<Rightarrow> 'a spsc \<Rightarrow> 'a producer \<Rightarrow> bool" where
  "producer_ok n H CT q P_Idle \<longleftrightarrow> True"
| "producer_ok n H CT q (P_Refresh x head nxt) \<longleftrightarrow> head = sq_head q \<and> unat nxt = Suc H mod n"
| "producer_ok n H CT q (P_Write x head nxt) \<longleftrightarrow>
     head = sq_head q \<and> unat nxt = Suc H mod n \<and> Suc H < CT + n"
| "producer_ok n H CT q (P_Publish x nxt) \<longleftrightarrow>
     unat nxt = Suc H mod n \<and> Suc H < CT + n \<and> sq_buffer q ! (H mod n) = x"

fun consumer_ok :: "nat \<Rightarrow> nat \<Rightarrow> 'a list \<Rightarrow> 'a spsc \<Rightarrow> 'a consumer \<Rightarrow> bool" where
  "consumer_ok T CH pushed q C_Idle \<longleftrightarrow> True"
| "consumer_ok T CH pushed q (C_Refresh tail) \<longleftrightarrow> tail = sq_tail q"
| "consumer_ok T CH pushed q (C_Read tail) \<longleftrightarrow> tail = sq_tail q \<and> T < CH"
| "consumer_ok T CH pushed q (C_Publish x tail) \<longleftrightarrow>
     tail = sq_tail q \<and> T < CH \<and> x = pushed ! T"

definition ring_ok :: "nat \<Rightarrow> 'a list \<Rightarrow> nat \<Rightarrow> nat \<Rightarrow> nat \<Rightarrow> 'a spsc \<Rightarrow> bool" where
  "ring_ok k pushed T CT CH q \<longleftrightarrow> k < 64 \<and>
     sq_mask q = 2 ^ k - 1 \<and> length (sq_buffer q) = 2 ^ k \<and>
     unat (sq_head q) = length pushed mod 2 ^ k \<and> unat (sq_tail q) = T mod 2 ^ k \<and>
     unat (sq_cached_tail q) = CT mod 2 ^ k \<and> unat (sq_cached_head q) = CH mod 2 ^ k \<and>
     CT \<le> T \<and> T \<le> CH \<and> CH \<le> length pushed \<and> length pushed < CT + 2 ^ k \<and>
     (\<forall>i. T \<le> i \<longrightarrow> i < length pushed \<longrightarrow> sq_buffer q ! (i mod 2 ^ k) = pushed ! i)"

definition spsc_inv :: "nat \<Rightarrow> nat \<Rightarrow> nat \<Rightarrow> 'a threads \<Rightarrow> bool" where
  "spsc_inv k CT CH t \<longleftrightarrow>
     ring_ok k (th_pushed t) (length (th_popped t)) CT CH (th_queue t) \<and>
     th_popped t = take (length (th_popped t)) (th_pushed t) \<and>
     producer_ok (2 ^ k) (length (th_pushed t)) CT (th_queue t) (th_producer t) \<and>
     consumer_ok (length (th_popped t)) CH (th_pushed t) (th_queue t) (th_consumer t)"

lemma mod_inj_near:
  assumes "a mod n = b mod n" and "a \<le> b" and "b < a + n" shows "a = (b :: nat)"
proof -
  have "n dvd b - a" using assms(1,2) mod_eq_dvd_iff_nat by metis
  with assms(2,3) show ?thesis by (metis add.commute dvd_imp_le le_antisym less_diff_conv2
      not_less zero_less_diff)
qed

lemma next_head_full:
  assumes "Suc H mod n = c mod n" and "c \<le> H" and "H < c + n" shows "Suc H = c + n"
proof -
  have "c + n = Suc H" if "c + n \<le> Suc H" using that assms(3) by simp
  moreover have False if "Suc H < c + n"
    using mod_inj_near [of c n "Suc H"] assms(1,2) that by simp
  ultimately show ?thesis by (metis not_less)
qed

lemma spsc_inv_new:
  assumes "sq_new d c = Some q"
  obtains k where "unat c = 2 ^ k" and "spsc_inv k 0 0 (threads_of q)"
proof -
  from assms have c: "0 < c" "c AND (c - 1) = 0"
    and q: "q = \<lparr>sq_capacity = c, sq_mask = c - 1, sq_buffer = replicate (unat c) d, sq_head = 0,
      sq_cached_tail = 0, sq_tail = 0, sq_cached_head = 0\<rparr>"
    by (auto simp: sq_new_def split: if_splits)
  obtain k where k: "c = 2 ^ k" "k < 64" "unat c = 2 ^ k" by (rule and_pred_word [OF c])
  then have "spsc_inv k 0 0 (threads_of q)"
    by (simp add: spsc_inv_def ring_ok_def threads_of_def q)
  with k(3) show thesis by (rule that)
qed

lemma producer_step_inv:
  assumes inv: "spsc_inv k CT CH t"
  obtains CT' where "spsc_inv k CT' CH (snd (producer_step x t))"
    and "fst (producer_step x t) \<noteq> Bad_Access"
    and "fst (producer_step x t) = Push_Returns False \<Longrightarrow>
      length (th_pushed t) = length (th_popped t) + (2 ^ k - 1)"
proof -
  let ?q = "th_queue t" and ?H = "length (th_pushed t)" and ?T = "length (th_popped t)"
  have ring: "ring_ok k (th_pushed t) ?T CT CH ?q" using inv by (simp add: spsc_inv_def)
  have k: "k < 64" and head: "unat (sq_head ?q) = ?H mod 2 ^ k"
    and tail: "unat (sq_tail ?q) = ?T mod 2 ^ k" and ct: "unat (sq_cached_tail ?q) = CT mod 2 ^ k"
    and len: "length (sq_buffer ?q) = 2 ^ k"
    and order: "CT \<le> ?T" "?T \<le> CH" "CH \<le> ?H" "?H < CT + 2 ^ k"
    using ring by (simp_all add: ring_ok_def)
  have nxt: "unat ((sq_head ?q + 1) AND sq_mask ?q) = Suc ?H mod 2 ^ k"
    using next_index [OF k, of "sq_head ?q"] ring head
    by (simp add: ring_ok_def mod_Suc_eq)
  show thesis
  proof (cases "th_producer t")
    case P_Idle
    have "Suc ?H < CT + 2 ^ k" if "(sq_head ?q + 1) AND sq_mask ?q \<noteq> sq_cached_tail ?q"
    proof (rule ccontr)
      assume "\<not> ?thesis"
      with order have "Suc ?H = CT + 2 ^ k" by simp
      with nxt ct have "unat ((sq_head ?q + 1) AND sq_mask ?q) = unat (sq_cached_tail ?q)" by simp
      with that show False by (simp add: word_unat_eq_iff)
    qed
    with inv nxt P_Idle show thesis by (intro that [of CT]) (auto simp: spsc_inv_def Let_def producer_step_def)
  next
    case (P_Refresh item h n)
    then have pc: "h = sq_head ?q" "unat n = Suc ?H mod 2 ^ k" using inv by (simp_all add: spsc_inv_def)
    have full: "?H = ?T + (2 ^ k - 1)" if "n = sq_tail ?q"
    proof -
      have "Suc ?H = ?T + 2 ^ k"
        using that pc(2) tail order by (intro next_head_full) auto
      then show ?thesis using zero_less_power [of "2::nat" k] by linarith
    qed
    have room: "Suc ?H < ?T + 2 ^ k" if "n \<noteq> sq_tail ?q"
    proof (rule ccontr)
      assume "\<not> ?thesis"
      with order have "Suc ?H = ?T + 2 ^ k" by simp
      with pc(2) tail have "unat n = unat (sq_tail ?q)" by simp
      with that show False by (simp add: word_unat_eq_iff)
    qed
    have "ring_ok k (th_pushed t) ?T ?T CH (?q\<lparr>sq_cached_tail := sq_tail ?q\<rparr>)"
      using ring order by (simp add: ring_ok_def)
    moreover have "consumer_ok ?T CH (th_pushed t) (?q\<lparr>sq_cached_tail := sq_tail ?q\<rparr>) (th_consumer t)"
      using inv by (cases "th_consumer t") (simp_all add: spsc_inv_def)
    ultimately show thesis
      using inv P_Refresh pc full room
      by (intro that [of ?T]; cases "n = sq_tail ?q") (simp_all add: spsc_inv_def Let_def producer_step_def)
  next
    case (P_Write item h n)
    then have pc: "h = sq_head ?q" "unat n = Suc ?H mod 2 ^ k" "Suc ?H < CT + 2 ^ k"
      using inv by (simp_all add: spsc_inv_def)
    let ?q' = "?q\<lparr>sq_buffer := (sq_buffer ?q)[?H mod 2 ^ k := item]\<rparr>"
    have written: "buf_write h item ?q = Some ?q'"
      using pc(1) head len by (simp add: buf_write_def)
    have "i mod 2 ^ k \<noteq> ?H mod 2 ^ k" if "?T \<le> i" "i < ?H" for i
      using mod_inj_near [of i "2 ^ k" ?H] that order by auto
    then have "\<forall>i. ?T \<le> i \<longrightarrow> i < ?H \<longrightarrow> sq_buffer ?q' ! (i mod 2 ^ k) = th_pushed t ! i"
      using ring by (simp add: ring_ok_def) (metis nth_list_update_neq)
    then have "ring_ok k (th_pushed t) ?T CT CH ?q'"
      using ring by (simp add: ring_ok_def)
    moreover have "consumer_ok ?T CH (th_pushed t) ?q' (th_consumer t)"
      using inv by (cases "th_consumer t") (simp_all add: spsc_inv_def)
    ultimately show thesis
      using inv P_Write pc len written by (intro that [of CT]) (auto simp: spsc_inv_def Let_def producer_step_def)
  next
    case (P_Publish item n)
    then have pc: "unat n = Suc ?H mod 2 ^ k" "Suc ?H < CT + 2 ^ k"
      "sq_buffer ?q ! (?H mod 2 ^ k) = item"
      using inv by (simp_all add: spsc_inv_def)
    have "ring_ok k (th_pushed t @ [item]) ?T CT CH (?q\<lparr>sq_head := n\<rparr>)"
      using ring pc order by (auto simp: ring_ok_def nth_append less_Suc_eq)
    moreover have "consumer_ok ?T CH (th_pushed t @ [item]) (?q\<lparr>sq_head := n\<rparr>) (th_consumer t)"
      using inv order by (cases "th_consumer t") (auto simp: spsc_inv_def nth_append)
    ultimately show thesis
      using inv P_Publish order by (intro that [of CT]) (auto simp: spsc_inv_def Let_def producer_step_def)
  qed
qed

lemma consumer_step_inv:
  assumes inv: "spsc_inv k CT CH t"
  obtains CH' where "spsc_inv k CT CH' (snd (consumer_step t))"
    and "fst (consumer_step t) \<noteq> Bad_Access"
    and "fst (consumer_step t) = Pop_Returns None \<Longrightarrow> th_popped t = th_pushed t"
proof -
  let ?q = "th_queue t" and ?H = "length (th_pushed t)" and ?T = "length (th_popped t)"
  have ring: "ring_ok k (th_pushed t) ?T CT CH ?q" using inv by (simp add: spsc_inv_def)
  have k: "k < 64" and head: "unat (sq_head ?q) = ?H mod 2 ^ k"
    and tail: "unat (sq_tail ?q) = ?T mod 2 ^ k" and ch: "unat (sq_cached_head ?q) = CH mod 2 ^ k"
    and len: "length (sq_buffer ?q) = 2 ^ k"
    and order: "CT \<le> ?T" "?T \<le> CH" "CH \<le> ?H" "?H < CT + 2 ^ k"
    using ring by (simp_all add: ring_ok_def)
  show thesis
  proof (cases "th_consumer t")
    case C_Idle
    have "?T < CH" if "sq_tail ?q \<noteq> sq_cached_head ?q"
      using that tail ch order(2) by (cases "?T = CH") (auto simp: word_unat_eq_iff)
    with inv C_Idle show thesis by (intro that [of CH]) (auto simp: spsc_inv_def Let_def consumer_step_def)
  next
    case (C_Refresh tl)
    then have pc: "tl = sq_tail ?q" using inv by (simp add: spsc_inv_def)
    let ?q' = "?q\<lparr>sq_cached_head := sq_head ?q\<rparr>"
    have pre: "th_popped t = take ?T (th_pushed t)" using inv unfolding spsc_inv_def by blast
    have empty: "th_popped t = th_pushed t" if "tl = sq_head ?q"
    proof -
      have "?T mod 2 ^ k = ?H mod 2 ^ k" using that pc head tail by metis
      then have "?T = ?H" by (rule mod_inj_near) (use order in linarith)+
      with pre show ?thesis by (metis order_refl take_all)
    qed
    have some: "?T < ?H" if "tl \<noteq> sq_head ?q"
      using that pc head tail order by (cases "?T = ?H") (auto simp: word_unat_eq_iff)
    have "ring_ok k (th_pushed t) ?T CT ?H ?q'"
      using ring order by (simp add: ring_ok_def)
    moreover have "producer_ok (2 ^ k) ?H CT ?q' (th_producer t)"
      using inv by (cases "th_producer t") (simp_all add: spsc_inv_def)
    ultimately show thesis
      using inv C_Refresh pc empty some
      by (intro that [of ?H]; cases "tl = sq_head ?q") (simp_all add: spsc_inv_def Let_def consumer_step_def)
  next
    case (C_Read tl)
    then have pc: "tl = sq_tail ?q" "?T < CH" using inv by (simp_all add: spsc_inv_def)
    have "buf_read tl ?q = Some (th_pushed t ! ?T)"
      using ring pc tail len order by (simp add: buf_read_def ring_ok_def)
    with inv C_Read pc show thesis by (intro that [of CH]) (simp_all add: spsc_inv_def Let_def consumer_step_def)
  next
    case (C_Publish item tl)
    then have pc: "tl = sq_tail ?q" "?T < CH" "item = th_pushed t ! ?T"
      using inv by (simp_all add: spsc_inv_def)
    let ?q' = "?q\<lparr>sq_tail := (tl + 1) AND sq_mask ?q\<rparr>"
    have "unat ((tl + 1) AND sq_mask ?q) = Suc ?T mod 2 ^ k"
      using next_index [OF k, of tl] ring pc(1) tail by (simp add: ring_ok_def mod_Suc_eq)
    then have "ring_ok k (th_pushed t) (Suc ?T) CT CH ?q'"
      using ring pc order by (simp add: ring_ok_def)
    moreover have "th_popped t @ [item] = take (Suc ?T) (th_pushed t)"
      using inv pc order by (simp add: spsc_inv_def take_Suc_conv_app_nth)
    moreover have "producer_ok (2 ^ k) ?H CT ?q' (th_producer t)"
      using inv by (cases "th_producer t") (simp_all add: spsc_inv_def)
    moreover have "min ?H (Suc ?T) = Suc ?T" using pc(2) order by simp
    ultimately show thesis
      using inv C_Publish by (intro that [of CH]) (simp_all add: spsc_inv_def Let_def consumer_step_def)
  qed
qed

lemma spsc_reach_inv:
  assumes "sq_new d c = Some q" and "spsc_reach q t"
  obtains k CT CH where "unat c = 2 ^ k" and "spsc_inv k CT CH t"
proof -
  obtain k where k: "unat c = 2 ^ k" "spsc_inv k 0 0 (threads_of q)"
    by (rule spsc_inv_new [OF assms(1)])
  from assms(2) have "\<exists>CT CH. spsc_inv k CT CH t"
  proof (induction rule: spsc_reach.induct)
    case start
    with k(2) show ?case by blast
  next
    case (produce t x)
    then obtain CT CH where "spsc_inv k CT CH t" by blast
    then show ?case by (rule producer_step_inv [of k CT CH t x]) blast
  next
    case (consume t)
    then obtain CT CH where "spsc_inv k CT CH t" by blast
    then show ?case by (rule consumer_step_inv) blast
  qed
  with k(1) that show thesis by blast
qed

section \<open>Properties\<close>

text \<open>
  Under every interleaving of the two threads the queue is a FIFO channel: the items
  popped are the first items pushed, in order, none lost, duplicated or overwritten, and at
  most \<open>capacity - 1\<close> are in flight.
\<close>

lemma spsc_is_fifo:
  assumes "sq_new d c = Some q" and "spsc_reach q t"
  shows "th_popped t = take (length (th_popped t)) (th_pushed t) \<and>
    length (th_popped t) \<le> length (th_pushed t) \<and>
    length (th_pushed t) - length (th_popped t) \<le> unat c - 1"
proof -
  obtain k CT CH where k: "unat c = 2 ^ k" and inv: "spsc_inv k CT CH t"
    by (rule spsc_reach_inv [OF assms])
  then show ?thesis by (auto simp: spsc_inv_def ring_ok_def)
qed

theorem spsc_is_fifo_witness:
  "\<exists>q. sq_new (0::nat) 4 = Some q \<and> th_popped (threads_of q) = []"
proof -
  obtain q where q: "sq_new (0::nat) 4 = Some q" by (auto simp: sq_new_def)
  from spsc_is_fifo [OF q spsc_reach.start] q show ?thesis by (auto simp: threads_of_def)
qed

text \<open>
  No access leaves the buffer, and \<open>push\<close> and \<open>pop\<close> fail only when they must: a \<open>push\<close>
  that returns false found \<open>capacity - 1\<close> items in flight at its load of the tail, a \<open>pop\<close>
  that returns false found the queue empty at its load of the head.
\<close>

lemma spsc_fails_only_when_full_or_empty:
  assumes "sq_new d c = Some q" and "spsc_reach q t"
  shows "fst (producer_step x t) \<noteq> Bad_Access \<and> fst (consumer_step t) \<noteq> Bad_Access \<and>
    (fst (producer_step x t) = Push_Returns False \<longrightarrow>
       length (th_pushed t) = length (th_popped t) + (unat c - 1)) \<and>
    (fst (consumer_step t) = Pop_Returns None \<longrightarrow> th_popped t = th_pushed t)"
proof -
  obtain k CT CH where k: "unat c = 2 ^ k" and inv: "spsc_inv k CT CH t"
    by (rule spsc_reach_inv [OF assms])
  show ?thesis unfolding k
    by (rule producer_step_inv [OF inv, of x], rule consumer_step_inv [OF inv]) blast
qed

theorem spsc_fails_only_when_full_or_empty_witness:
  "\<exists>q. sq_new (0::nat) 4 = Some q \<and> fst (producer_step 7 (threads_of q)) \<noteq> Bad_Access"
proof -
  obtain q where q: "sq_new (0::nat) 4 = Some q" by (auto simp: sq_new_def)
  from spsc_fails_only_when_full_or_empty [OF q spsc_reach.start] q show ?thesis by blast
qed

text \<open>
  The threads never touch the same buffer slot at the same time: when the producer is
  about to write and the consumer about to read, their indices differ.
\<close>

lemma spsc_race_free:
  assumes "sq_new d c = Some q" and "spsc_reach q t"
    and "th_producer t = P_Write x i nxt" and "th_consumer t = C_Read j"
  shows "i \<noteq> j"
proof -
  obtain k CT CH where inv: "spsc_inv k CT CH t"
    by (rule spsc_reach_inv [OF assms(1,2)])
  then have *: "unat i = length (th_pushed t) mod 2 ^ k" "unat j = length (th_popped t) mod 2 ^ k"
    "length (th_popped t) < length (th_pushed t)"
    "length (th_pushed t) < length (th_popped t) + 2 ^ k"
    using assms(3,4) by (auto simp: spsc_inv_def ring_ok_def)
  then show ?thesis
    using mod_inj_near [of "length (th_popped t)" "2 ^ k" "length (th_pushed t)"] by auto
qed

text \<open>The witness's schedule: a complete push, a second up to its write, a pop up to its read.\<close>

lemma sq_new_4: "sq_new d 4 = Some \<lparr>sq_capacity = 4, sq_mask = 3, sq_buffer = [d, d, d, d],
    sq_head = 0, sq_cached_tail = 0, sq_tail = 0, sq_cached_head = 0\<rparr>"
proof -
  have "replicate 4 d = [d, d, d, d]" by (simp add: numeral_eq_Suc)
  then show ?thesis by (simp add: sq_new_def)
qed

fun run_schedule :: "'a option list \<Rightarrow> 'a threads \<Rightarrow> 'a threads" where
  "run_schedule [] t = t"
| "run_schedule (Some x # ss) t = run_schedule ss (snd (producer_step x t))"
| "run_schedule (None # ss) t = run_schedule ss (snd (consumer_step t))"

lemma run_schedule_reach: "spsc_reach q t \<Longrightarrow> spsc_reach q (run_schedule ss t)"
  by (induction ss t rule: run_schedule.induct) (auto intro: spsc_reach.intros)

theorem spsc_race_free_witness:
  "\<exists>q t x i nxt j. sq_new (0::nat) 4 = Some q \<and> spsc_reach q t \<and>
     th_producer t = P_Write x i nxt \<and> th_consumer t = C_Read j \<and> i \<noteq> j"
proof -
  obtain q where q: "sq_new (0::nat) 4 = Some q"
    and q': "q = \<lparr>sq_capacity = 4, sq_mask = 3, sq_buffer = [0, 0, 0, 0], sq_head = 0,
      sq_cached_tail = 0, sq_tail = 0, sq_cached_head = 0\<rparr>"
    by (rule that [OF sq_new_4 refl])
  let ?t = "run_schedule [Some 5, Some 5, Some 5, Some 9, None, None] (threads_of q)"
  have pc: "th_producer ?t = P_Write 9 1 2 \<and> th_consumer ?t = C_Read 0"
    by (simp add: q' threads_of_def buf_write_def producer_step_def consumer_step_def)
  have "spsc_reach q ?t" by (intro run_schedule_reach spsc_reach.start)
  with spsc_race_free [OF q this, of 9 1 2 0] pc q show ?thesis by blast
qed

section \<open>The queue as an interface\<close>

text \<open>
  What the gateway and the engine rely on when each call runs to its end: a bounded FIFO.
  \<open>holds q xs\<close> says that the items \<open>xs\<close> are in flight.
\<close>

locale bounded_fifo =
  fixes holds :: "'q \<Rightarrow> 'a list \<Rightarrow> bool"
    and push :: "'a \<Rightarrow> 'q \<Rightarrow> (bool \<times> 'q) option"
    and pop :: "'q \<Rightarrow> ('a option \<times> 'q) option"
    and room :: nat
  assumes push_room: "holds q xs \<Longrightarrow> length xs < room \<Longrightarrow>
      \<exists>q'. push x q = Some (True, q') \<and> holds q' (xs @ [x])"
    and push_full: "holds q xs \<Longrightarrow> length xs = room \<Longrightarrow>
      \<exists>q'. push x q = Some (False, q') \<and> holds q' xs"
    and pop_empty: "holds q [] \<Longrightarrow> \<exists>q'. pop q = Some (None, q') \<and> holds q' []"
    and pop_first: "holds q (x # xs) \<Longrightarrow> \<exists>q'. pop q = Some (Some x, q') \<and> holds q' xs"
    and holds_bound: "holds q xs \<Longrightarrow> length xs \<le> room"
begin

lemma push_pop_first:
  assumes "holds q xs" and "length xs < room"
  shows "\<exists>q1 q2. push x q = Some (True, q1) \<and> pop q1 = Some (Some (hd (xs @ [x])), q2) \<and>
    holds q2 (tl (xs @ [x]))"
proof -
  obtain q1 where q1: "push x q = Some (True, q1)" "holds q1 (xs @ [x])"
    using push_room [OF assms] by blast
  obtain y ys where "xs @ [x] = y # ys" by (cases "xs @ [x]") auto
  with q1 pop_first [of q1 y ys] show ?thesis by auto
qed

lemma pop_makes_room:
  assumes "holds q (y # ys)"
  shows "\<exists>q1 q2. pop q = Some (Some y, q1) \<and> push x q1 = Some (True, q2) \<and> holds q2 (ys @ [x])"
proof -
  obtain q1 where q1: "pop q = Some (Some y, q1)" "holds q1 ys" using pop_first [OF assms] by blast
  have "length ys < room" using holds_bound [OF assms] by simp
  from push_room [OF q1(2) this] q1(1) show ?thesis by blast
qed

end

section \<open>The sequential operations are the steps run to the end\<close>

fun run_producer :: "nat \<Rightarrow> 'a \<Rightarrow> 'a threads \<Rightarrow> (bool \<times> 'a threads) option" where
  "run_producer 0 x t = None"
| "run_producer (Suc n) x t =
     (case producer_step x t of
        (Running, t') \<Rightarrow> run_producer n x t'
      | (Push_Returns b, t') \<Rightarrow> Some (b, t')
      | _ \<Rightarrow> None)"

fun run_consumer :: "nat \<Rightarrow> 'a threads \<Rightarrow> ('a option \<times> 'a threads) option" where
  "run_consumer 0 t = None"
| "run_consumer (Suc n) t =
     (case consumer_step t of
        (Running, t') \<Rightarrow> run_consumer n t'
      | (Pop_Returns r, t') \<Rightarrow> Some (r, t')
      | _ \<Rightarrow> None)"

lemma run_producer_push:
  assumes "th_producer t = P_Idle"
  shows "run_producer 4 x t = (case sq_push x (th_queue t) of None \<Rightarrow> None
    | Some (b, q') \<Rightarrow> Some (b, t\<lparr>th_queue := q',
        th_pushed := th_pushed t @ (if b then [x] else [])\<rparr>))"
  using assms
  by (cases t) (auto simp: numeral_eq_Suc sq_push_def Let_def buf_write_def producer_step_def)

lemma run_consumer_pop:
  assumes "th_consumer t = C_Idle"
  shows "run_consumer 4 t = (case sq_pop (th_queue t) of None \<Rightarrow> None
    | Some (r, q') \<Rightarrow> Some (r, t\<lparr>th_queue := q',
        th_popped := th_popped t @ (case r of None \<Rightarrow> [] | Some x \<Rightarrow> [x])\<rparr>))"
  using assms
  by (cases t) (auto simp: numeral_eq_Suc sq_pop_def Let_def buf_read_def consumer_step_def)

lemma producer_step_frame:
  "fst (producer_step x t) = Running \<Longrightarrow> th_pushed (snd (producer_step x t)) = th_pushed t \<and>
     th_popped (snd (producer_step x t)) = th_popped t"
  by (auto simp: producer_step_def Let_def split: producer.splits option.splits if_splits)

lemma consumer_step_frame:
  "fst (consumer_step t) = Running \<Longrightarrow> th_pushed (snd (consumer_step t)) = th_pushed t \<and>
     th_popped (snd (consumer_step t)) = th_popped t"
  by (auto simp: consumer_step_def Let_def split: consumer.splits option.splits if_splits)

lemma producer_step_true:
  assumes "spsc_inv k CT CH t" and "fst (producer_step x t) = Push_Returns True"
  shows "Suc (length (th_pushed t)) < length (th_popped t) + 2 ^ k"
  using assms
  by (auto simp: producer_step_def spsc_inv_def ring_ok_def Let_def
      split: producer.splits option.splits if_splits)

lemma consumer_step_some:
  assumes "spsc_inv k CT CH t" and "fst (consumer_step t) = Pop_Returns (Some x)"
  shows "length (th_popped t) < length (th_pushed t) \<and> x = th_pushed t ! length (th_popped t)"
  using assms
  by (auto simp: consumer_step_def spsc_inv_def ring_ok_def Let_def
      split: consumer.splits option.splits if_splits)

lemma run_producer_inv:
  "spsc_inv k CT CH t \<Longrightarrow> run_producer n x t = Some (b, t') \<Longrightarrow>
     (\<exists>CT' CH'. spsc_inv k CT' CH' t') \<and>
     (if b then Suc (length (th_pushed t)) < length (th_popped t) + 2 ^ k
      else length (th_pushed t) = length (th_popped t) + (2 ^ k - 1))"
proof (induction n arbitrary: t CT)
  case (Suc n)
  obtain r t1 where step: "producer_step x t = (r, t1)" by (metis surj_pair)
  obtain CT1 where inv1: "spsc_inv k CT1 CH t1"
    and full: "r = Push_Returns False \<Longrightarrow> length (th_pushed t) = length (th_popped t) + (2 ^ k - 1)"
    by (rule producer_step_inv [OF Suc.prems(1), of x]) (simp add: step)
  show ?case
  proof (cases r)
    case Running
    then have "run_producer n x t1 = Some (b, t')" using Suc.prems(2) by (simp add: step)
    from Suc.IH [OF inv1 this] producer_step_frame [of x t] step Running show ?thesis
      by (cases b) simp_all
  next
    case (Push_Returns b')
    then have "b' = b" "t1 = t'" using Suc.prems(2) by (simp_all add: step)
    with inv1 full producer_step_true [OF Suc.prems(1), of x] step Push_Returns show ?thesis
      by (cases b) auto
  qed (use Suc.prems(2) step in simp_all)
qed simp

lemma run_consumer_inv:
  "spsc_inv k CT CH t \<Longrightarrow> run_consumer n t = Some (r, t') \<Longrightarrow>
     (\<exists>CT' CH'. spsc_inv k CT' CH' t') \<and>
     (case r of None \<Rightarrow> th_popped t = th_pushed t
      | Some x \<Rightarrow> length (th_popped t) < length (th_pushed t) \<and>
          x = th_pushed t ! length (th_popped t))"
proof (induction n arbitrary: t CH)
  case (Suc n)
  obtain s t1 where step: "consumer_step t = (s, t1)" by (metis surj_pair)
  obtain CH1 where inv1: "spsc_inv k CT CH1 t1"
    and empty: "s = Pop_Returns None \<Longrightarrow> th_popped t = th_pushed t"
    by (rule consumer_step_inv [OF Suc.prems(1)]) (simp add: step)
  show ?case
  proof (cases s)
    case Running
    then have "run_consumer n t1 = Some (r, t')" using Suc.prems(2) by (simp add: step)
    from Suc.IH [OF inv1 this] consumer_step_frame [of t] step Running show ?thesis
      by (cases r) auto
  next
    case (Pop_Returns r')
    then have "r' = r" "t1 = t'" using Suc.prems(2) by (simp_all add: step)
    with inv1 empty consumer_step_some [OF Suc.prems(1)] step Pop_Returns show ?thesis
      by (cases r) auto
  qed (use Suc.prems(2) step in simp_all)
qed simp

lemma ring_ok_no_bad_access:
  "ring_ok k pushed T CT CH q \<Longrightarrow> sq_push x q \<noteq> None \<and> sq_pop q \<noteq> None"
  by (auto simp: ring_ok_def sq_push_def sq_pop_def buf_write_def buf_read_def Let_def)

lemma spsc_inv_ring:
  "spsc_inv k CT CH t \<Longrightarrow> ring_ok k (th_pushed t) (length (th_popped t)) CT CH (th_queue t)"
  unfolding spsc_inv_def by blast

text \<open>The items in flight between complete calls.\<close>

definition spsc_holds :: "u64 \<Rightarrow> 'a spsc \<Rightarrow> 'a list \<Rightarrow> bool" where
  "spsc_holds c q xs \<longleftrightarrow> (\<exists>k CT CH t. unat c = 2 ^ k \<and> spsc_inv k CT CH t \<and> th_queue t = q \<and>
     th_producer t = P_Idle \<and> th_consumer t = C_Idle \<and>
     xs = drop (length (th_popped t)) (th_pushed t))"

lemma spsc_holdsI:
  "unat c = 2 ^ k \<Longrightarrow> spsc_inv k CT CH t \<Longrightarrow> th_queue t = q \<Longrightarrow> th_producer t = P_Idle \<Longrightarrow>
     th_consumer t = C_Idle \<Longrightarrow> xs = drop (length (th_popped t)) (th_pushed t) \<Longrightarrow> spsc_holds c q xs"
  unfolding spsc_holds_def by blast

lemma spsc_holds_new:
  assumes "sq_new d c = Some q" shows "spsc_holds c q []"
proof -
  obtain k where "unat c = 2 ^ k" "spsc_inv k 0 0 (threads_of q)"
    by (rule spsc_inv_new [OF assms])
  then show ?thesis by (rule spsc_holdsI) (simp_all add: threads_of_def)
qed

lemma spsc_holds_bound: "spsc_holds c q xs \<Longrightarrow> length xs \<le> unat c - 1"
  unfolding spsc_holds_def by (auto dest!: spsc_inv_ring simp: ring_ok_def)

lemma spsc_push_holds:
  assumes "spsc_holds c q xs"
  obtains b q' where "sq_push x q = Some (b, q')" and "b \<longleftrightarrow> length xs < unat c - 1"
    and "spsc_holds c q' (if b then xs @ [x] else xs)"
proof -
  obtain k CT CH t where c: "unat c = 2 ^ k" and inv: "spsc_inv k CT CH t" and q: "th_queue t = q"
    and idle: "th_producer t = P_Idle" "th_consumer t = C_Idle"
    and xs: "xs = drop (length (th_popped t)) (th_pushed t)"
    using assms unfolding spsc_holds_def by blast
  have "sq_push x q \<noteq> None"
    using ring_ok_no_bad_access [OF spsc_inv_ring [OF inv]] q by simp
  then obtain b q' where run: "sq_push x q = Some (b, q')" by fastforce
  let ?t = "t\<lparr>th_queue := q', th_pushed := th_pushed t @ (if b then [x] else [])\<rparr>"
  have "run_producer 4 x t = Some (b, ?t)"
    using run_producer_push [OF idle(1), of x] q run by simp
  from run_producer_inv [OF inv this] obtain CT' CH' where inv': "spsc_inv k CT' CH' ?t"
    and room: "if b then Suc (length (th_pushed t)) < length (th_popped t) + 2 ^ k
      else length (th_pushed t) = length (th_popped t) + (2 ^ k - 1)" by blast
  have le: "length (th_popped t) \<le> length (th_pushed t)"
    using spsc_inv_ring [OF inv] by (simp add: ring_ok_def)
  have "b \<longleftrightarrow> length xs < unat c - 1"
    using room le by (cases b) (auto simp: xs c)
  moreover have "spsc_holds c q' (if b then xs @ [x] else xs)"
    using idle le by (intro spsc_holdsI [OF c inv']) (simp_all add: xs)
  ultimately show thesis using run that by blast
qed

lemma spsc_pop_holds:
  assumes "spsc_holds c q xs"
  obtains q' where "sq_pop q = Some (if xs = [] then None else Some (hd xs), q')"
    and "spsc_holds c q' (tl xs)"
proof -
  obtain k CT CH t where c: "unat c = 2 ^ k" and inv: "spsc_inv k CT CH t" and q: "th_queue t = q"
    and idle: "th_producer t = P_Idle" "th_consumer t = C_Idle"
    and xs: "xs = drop (length (th_popped t)) (th_pushed t)"
    using assms unfolding spsc_holds_def by blast
  have "sq_pop q \<noteq> None"
    using ring_ok_no_bad_access [OF spsc_inv_ring [OF inv]] q by simp
  then obtain r q' where run: "sq_pop q = Some (r, q')" by fastforce
  let ?t = "t\<lparr>th_queue := q', th_popped := th_popped t @ (case r of None \<Rightarrow> [] | Some x \<Rightarrow> [x])\<rparr>"
  have "run_consumer 4 t = Some (r, ?t)"
    using run_consumer_pop [OF idle(2)] q run by simp
  from run_consumer_inv [OF inv this] obtain CT' CH' where inv': "spsc_inv k CT' CH' ?t"
    and res: "case r of None \<Rightarrow> th_popped t = th_pushed t
      | Some x \<Rightarrow> length (th_popped t) < length (th_pushed t) \<and>
          x = th_pushed t ! length (th_popped t)" by blast
  have "r = (if xs = [] then None else Some (hd xs))"
    using res by (cases r) (auto simp: xs hd_drop_conv_nth)
  moreover have "spsc_holds c q' (tl xs)"
    using idle res
    by (intro spsc_holdsI [OF c inv']) (cases r; simp add: xs tl_drop drop_Suc)+
  ultimately show thesis using run that by blast
qed

interpretation ring: bounded_fifo "spsc_holds c" sq_push sq_pop "unat c - 1" for c
proof
  fix q :: "'a spsc" and xs x
  assume h: "spsc_holds c q xs"
  obtain b q' where r: "sq_push x q = Some (b, q')" "b \<longleftrightarrow> length xs < unat c - 1"
    "spsc_holds c q' (if b then xs @ [x] else xs)" by (rule spsc_push_holds [OF h])
  show "\<exists>q'. sq_push x q = Some (True, q') \<and> spsc_holds c q' (xs @ [x])"
    if "length xs < unat c - 1" using r that by simp
  show "\<exists>q'. sq_push x q = Some (False, q') \<and> spsc_holds c q' xs"
    if "length xs = unat c - 1" using r that by simp
next
  fix q :: "'a spsc" and xs x
  show "\<exists>q'. sq_pop q = Some (None, q') \<and> spsc_holds c q' []" if "spsc_holds c q []"
    by (rule spsc_pop_holds [OF that]) simp
  show "\<exists>q'. sq_pop q = Some (Some x, q') \<and> spsc_holds c q' xs" if "spsc_holds c q (x # xs)"
    by (rule spsc_pop_holds [OF that]) simp
qed (rule spsc_holds_bound)

end
