(* ===== verification/Binary_Protocol.thy ===== *)
theory Binary_Protocol
  imports Core_Types
begin

text \<open>
  \<^verbatim>\<open>include/nexus/network/binary_protocol.hpp\<close>: the wire messages as records, and their
  memory image. The structs are packed and cast to and from bytes without a conversion, so
  the image of a message is its fields in order, integers in little-endian order and enums
  as their one byte.
\<close>

section \<open>Messages\<close>

datatype MsgType = NewOrder | CancelOrder | ExecReport | MarketDataL2

fun msg_type_byte :: "MsgType \<Rightarrow> u8" where
  "msg_type_byte NewOrder = 1"
| "msg_type_byte CancelOrder = 2"
| "msg_type_byte ExecReport = 3"
| "msg_type_byte MarketDataL2 = 4"

record MsgHeader =
  mh_length :: u16
  mh_type :: MsgType
  mh_version :: u8

record NewOrderMsg =
  no_header :: MsgHeader
  no_client_order_id :: OrderId
  no_price :: Price
  no_qty :: Quantity
  no_side :: Side
  no_order_type :: OrderType

text \<open>The new-order message the examples send.\<close>

definition demo_msg :: "u64 \<Rightarrow> NewOrderMsg" where
  "demo_msg i = \<lparr>no_header = \<lparr>mh_length = 30, mh_type = NewOrder, mh_version = 1\<rparr>,
     no_client_order_id = i, no_price = 10000, no_qty = 5, no_side = Buy, no_order_type = Limit\<rparr>"

record CancelOrderMsg =
  co_header :: MsgHeader
  co_client_order_id :: OrderId
  co_target_order_id :: OrderId

record ExecutionReportMsg =
  ex_header :: MsgHeader
  ex_client_order_id :: OrderId
  ex_exec_id :: OrderId
  ex_executed_qty :: Quantity
  ex_leaves_qty :: Quantity
  ex_price :: Price
  ex_exec_type :: u8

section \<open>Little-endian integers\<close>

fun le_bytes :: "nat \<Rightarrow> nat \<Rightarrow> u8 list" where
  "le_bytes 0 v = []"
| "le_bytes (Suc n) v = word_of_nat (v mod 256) # le_bytes n (v div 256)"

fun le_value :: "u8 list \<Rightarrow> nat" where
  "le_value [] = 0"
| "le_value (b # bs) = unat b + 256 * le_value bs"

lemma le_bytes_length [simp]: "length (le_bytes n v) = n"
  by (induction n arbitrary: v) auto

lemma unat_byte_mod [simp]: "unat (word_of_nat (v mod 256) :: u8) = v mod 256"
  by (simp add: unat_of_nat)

lemma le_value_bytes: "le_value (le_bytes n v) = v mod 256 ^ n"
proof (induction n arbitrary: v)
  case (Suc n)
  have "v mod (256 * 256 ^ n) = 256 * (v div 256 mod 256 ^ n) + v mod 256"
    by (rule mod_mult2_eq)
  with Suc show ?case by simp
qed simp

lemma le_bytes_value: "length bs = n \<Longrightarrow> le_bytes n (le_value bs) = bs"
proof (induction bs arbitrary: n)
  case (Cons b bs)
  have "unat b < 256" using unsigned_less [of b, where 'a = nat] by simp
  then show ?case using Cons by auto
qed simp

definition le16 :: "u16 \<Rightarrow> u8 list" where "le16 x = le_bytes 2 (unat x)"
definition le64 :: "u64 \<Rightarrow> u8 list" where "le64 x = le_bytes 8 (unat x)"
definition of_le16 :: "u8 list \<Rightarrow> u16" where "of_le16 bs = word_of_nat (le_value bs)"
definition of_le64 :: "u8 list \<Rightarrow> u64" where "of_le64 bs = word_of_nat (le_value bs)"

lemma le_lengths [simp]: "length (le16 x) = 2" "length (le64 y) = 8"
  by (simp_all add: le16_def le64_def)

lemma of_le16_le16 [simp]: "of_le16 (le16 x) = x"
proof -
  have "unat x < 2 ^ 16" using unsigned_less [of x, where 'a = nat] by simp
  then show ?thesis by (simp add: of_le16_def le16_def le_value_bytes)
qed

lemma of_le64_le64 [simp]: "of_le64 (le64 x) = x"
proof -
  have "unat x < 2 ^ 64" using unsigned_less [of x, where 'a = nat] by simp
  then show ?thesis by (simp add: of_le64_def le64_def le_value_bytes)
qed

section \<open>Images\<close>

definition header_image :: "MsgHeader \<Rightarrow> u8 list" where
  "header_image h = le16 (mh_length h) @ [msg_type_byte (mh_type h), mh_version h]"

definition new_order_image :: "NewOrderMsg \<Rightarrow> u8 list" where
  "new_order_image msg = header_image (no_header msg) @ le64 (no_client_order_id msg) @
     le64 (no_price msg) @ le64 (no_qty msg) @
     [side_byte (no_side msg), order_type_byte (no_order_type msg)]"

definition cancel_order_image :: "CancelOrderMsg \<Rightarrow> u8 list" where
  "cancel_order_image msg = header_image (co_header msg) @ le64 (co_client_order_id msg) @
     le64 (co_target_order_id msg)"

definition execution_report_image :: "ExecutionReportMsg \<Rightarrow> u8 list" where
  "execution_report_image msg = header_image (ex_header msg) @ le64 (ex_client_order_id msg) @
     le64 (ex_exec_id msg) @ le64 (ex_executed_qty msg) @ le64 (ex_leaves_qty msg) @
     le64 (ex_price msg) @ [ex_exec_type msg]"

text \<open>
  Reading a message back from its image; \<open>None\<close> is an image that is too short or holds a
  byte that is no enumerator.
\<close>

definition msg_type_of :: "u8 \<Rightarrow> MsgType option" where
  "msg_type_of b = (if b = 1 then Some NewOrder else if b = 2 then Some CancelOrder
     else if b = 3 then Some ExecReport else if b = 4 then Some MarketDataL2 else None)"

definition side_of :: "u8 \<Rightarrow> Side option" where
  "side_of b = (if b = 0 then Some Buy else if b = 1 then Some Sell else None)"

definition order_type_of :: "u8 \<Rightarrow> OrderType option" where
  "order_type_of b = (if b = 0 then Some Limit else if b = 1 then Some Market else None)"

lemma enum_bytes [simp]:
  "msg_type_of (msg_type_byte t) = Some t" "side_of (side_byte s) = Some s"
  "order_type_of (order_type_byte o') = Some o'"
  subgoal by (cases t) (simp_all add: msg_type_of_def)
  subgoal by (cases s) (simp_all add: side_of_def)
  subgoal by (cases o') (simp_all add: order_type_of_def)
  done

definition NEW_ORDER_SIZE :: nat where "NEW_ORDER_SIZE = 30"

definition read_header :: "u8 list \<Rightarrow> (MsgHeader \<times> u8 list) option" where
  "read_header bs =
     (if length bs < 4 then None
      else map_option (\<lambda>t. (\<lparr>mh_length = of_le16 (take 2 bs), mh_type = t, mh_version = bs ! 3\<rparr>,
        drop 4 bs)) (msg_type_of (bs ! 2)))"

definition read_u64 :: "u8 list \<Rightarrow> (u64 \<times> u8 list) option" where
  "read_u64 bs = (if length bs < 8 then None else Some (of_le64 (take 8 bs), drop 8 bs))"

definition read_new_order :: "u8 list \<Rightarrow> (NewOrderMsg \<times> u8 list) option" where
  "read_new_order bs =
     Option.bind (read_header bs) (\<lambda>(h, bs).
     Option.bind (read_u64 bs) (\<lambda>(i, bs).
     Option.bind (read_u64 bs) (\<lambda>(p, bs).
     Option.bind (read_u64 bs) (\<lambda>(q, bs).
     (case bs of
        s # t # rest \<Rightarrow>
          Option.bind (side_of s) (\<lambda>s. Option.bind (order_type_of t) (\<lambda>t.
            Some (\<lparr>no_header = h, no_client_order_id = i, no_price = p, no_qty = q,
                   no_side = s, no_order_type = t\<rparr>, rest)))
      | _ \<Rightarrow> None)))))"

lemma read_header_image [simp]: "read_header (header_image h @ rest) = Some (h, rest)"
  by (simp add: read_header_def header_image_def nth_append)

lemma read_u64_le64 [simp]: "read_u64 (le64 x @ rest) = Some (x, rest)"
  by (simp add: read_u64_def)

lemma image_lengths [simp]:
  "length (header_image h) = 4" "length (new_order_image msg) = NEW_ORDER_SIZE"
  by (simp_all add: header_image_def new_order_image_def NEW_ORDER_SIZE_def)

lemma read_new_order_image: "read_new_order (new_order_image msg @ rest) = Some (msg, rest)"
  by (simp add: read_new_order_def new_order_image_def)

section \<open>Properties\<close>

text \<open>
  The packed sizes of the messages are those of the wire format: 4 bytes of header, 30
  bytes for a new order, 20 for a cancel, 45 for an execution report.
\<close>

lemma message_sizes:
  "length (header_image h) = 4 \<and> length (new_order_image msg) = 30 \<and>
   length (cancel_order_image cmsg) = 20 \<and> length (execution_report_image xmsg) = 45"
  by (simp add: cancel_order_image_def execution_report_image_def NEW_ORDER_SIZE_def)

text \<open>
  The image of a new order determines it: reading a message back from the front of any
  byte sequence that starts with its image gives the message and the bytes behind it.
\<close>

lemma new_order_roundtrip:
  "read_new_order (new_order_image msg @ rest) = Some (msg, rest)"
  by (rule read_new_order_image)

end
