(* ===== verification/Tcp_Gateway.thy ===== *)
theory Tcp_Gateway
  imports SPSC_Queue Binary_Protocol
begin

text \<open>
  \<^verbatim>\<open>src/network/tcp_gateway.cpp\<close>: the session's back-pressure loop that pushes a parsed order
  message into the queue to the engine, and the gateway's start, stop and destructor. The
  engine's progress between two attempts is a parameter: how many items it pops at each yield.
  \<open>TcpSession::start\<close> and \<open>accept_connections\<close> have empty bodies in the source.
\<close>

section \<open>The session\<close>

fun pop_n :: "nat \<Rightarrow> 'a spsc \<Rightarrow> ('a list \<times> 'a spsc) option" where
  "pop_n 0 q = Some ([], q)"
| "pop_n (Suc n) q =
     (case sq_pop q of
        None \<Rightarrow> None
      | Some (None, q') \<Rightarrow> pop_n n q'
      | Some (Some x, q') \<Rightarrow> map_option (\<lambda>(xs, q2). (x # xs, q2)) (pop_n n q'))"

text \<open>
  The loop \<open>while (!queue_.push(msg)) yield()\<close>, with the pops of the engine during each
  yield; the result says whether the loop has ended when the yields are over, with what the
  engine received meanwhile.
\<close>

fun on_message_received ::
  "NewOrderMsg \<Rightarrow> nat list \<Rightarrow> NewOrderMsg spsc \<Rightarrow>
     (bool \<times> NewOrderMsg list \<times> NewOrderMsg spsc) option" where
  "on_message_received msg yields q =
     (case sq_push msg q of
        None \<Rightarrow> None
      | Some (True, q1) \<Rightarrow> Some (True, [], q1)
      | Some (False, q1) \<Rightarrow>
          (case yields of
             [] \<Rightarrow> Some (False, [], q1)
           | n # rest \<Rightarrow>
               (case pop_n n q1 of
                  None \<Rightarrow> None
                | Some (xs, q2) \<Rightarrow>
                    map_option (\<lambda>(ok, ys, q3). (ok, xs @ ys, q3))
                      (on_message_received msg rest q2))))"

declare on_message_received.simps [simp del]

section \<open>The gateway\<close>

text \<open>
  \<open>None\<close> is \<open>std::terminate\<close>, which assigning a new thread to a joinable \<open>std::thread\<close>
  calls. The I/O thread's loop ends once \<open>running_\<close> is false, so \<open>join\<close> returns.
\<close>

record gateway =
  gw_running :: bool
  gw_joinable :: bool

definition gateway_new :: gateway where
  "gateway_new = \<lparr>gw_running = False, gw_joinable = False\<rparr>"

definition gateway_start :: "gateway \<Rightarrow> gateway option" where
  "gateway_start g =
     (let g1 = g\<lparr>gw_running := True\<rparr>
      in if gw_joinable g1 then None else Some (g1\<lparr>gw_joinable := True\<rparr>))"

definition gateway_stop :: "gateway \<Rightarrow> gateway" where
  "gateway_stop g =
     (let g1 = g\<lparr>gw_running := False\<rparr>
      in if gw_joinable g1 then g1\<lparr>gw_joinable := False\<rparr> else g1)"

text \<open>
  The destructor calls \<open>stop\<close>; then the member \<open>io_thread_\<close> is destroyed, which calls
  \<open>std::terminate\<close> if it is joinable.
\<close>

definition gateway_destroy :: "gateway \<Rightarrow> unit option" where
  "gateway_destroy g = (if gw_joinable (gateway_stop g) then None else Some ())"

datatype gateway_call = Start | Stop

fun gateway_run :: "gateway_call list \<Rightarrow> gateway \<Rightarrow> gateway option" where
  "gateway_run [] g = Some g"
| "gateway_run (Start # cs) g =
     (case gateway_start g of None \<Rightarrow> None | Some g' \<Rightarrow> gateway_run cs g')"
| "gateway_run (Stop # cs) g = gateway_run cs (gateway_stop g)"

text \<open>No two starts without a stop in between; \<open>r\<close> says that one is running.\<close>

fun alternates :: "bool \<Rightarrow> gateway_call list \<Rightarrow> bool" where
  "alternates r [] \<longleftrightarrow> True"
| "alternates r (Start # cs) \<longleftrightarrow> \<not> r \<and> alternates True cs"
| "alternates r (Stop # cs) \<longleftrightarrow> alternates False cs"

section \<open>Lemmas\<close>

lemma pop_n_holds:
  "spsc_holds c q xs \<Longrightarrow> \<exists>q'. pop_n n q = Some (take n xs, q') \<and> spsc_holds c q' (drop n xs)"
proof (induction n arbitrary: q xs)
  case (Suc n)
  show ?case
  proof (cases xs)
    case Nil
    with Suc.prems ring.pop_empty obtain q' where "sq_pop q = Some (None, q')" "spsc_holds c q' []"
      by blast
    with Suc.IH [of q' "[]"] Nil show ?thesis by auto
  next
    case (Cons y ys)
    from Suc.prems have "spsc_holds c q (y # ys)" by (simp only: Cons)
    from ring.pop_first [OF this] obtain q' where
      "sq_pop q = Some (Some y, q')" "spsc_holds c q' ys" by blast
    with Suc.IH [of q' ys] Cons show ?thesis by auto
  qed
qed simp

lemma on_message_received_holds:
  "spsc_holds c q xs \<Longrightarrow> 1 < unat c \<Longrightarrow> \<exists>ok ys q' zs. on_message_received msg yields q = Some (ok, ys, q') \<and>
     spsc_holds c q' zs \<and> ys @ zs = xs @ (if ok then [msg] else []) \<and>
     (ok \<longleftrightarrow> length xs < unat c - 1 \<or> (\<exists>n \<in> set yields. 0 < n))"
proof (induction yields arbitrary: q xs)
  case Nil
  show ?case
  proof (rule spsc_push_holds [OF Nil.prems(1), of msg])
    fix b q' assume "sq_push msg q = Some (b, q')" "b \<longleftrightarrow> length xs < unat c - 1"
      "spsc_holds c q' (if b then xs @ [msg] else xs)"
    then show ?thesis by (cases b) (auto simp: on_message_received.simps [of msg "[]" q])
  qed
next
  case (Cons n rest)
  show ?case
  proof (rule spsc_push_holds [OF Cons.prems(1), of msg])
    fix b q1 assume push: "sq_push msg q = Some (b, q1)" "b \<longleftrightarrow> length xs < unat c - 1"
      "spsc_holds c q1 (if b then xs @ [msg] else xs)"
    show ?thesis
    proof (cases b)
      case True
      with push show ?thesis by (auto simp: on_message_received.simps [of msg "n # rest" q])
    next
      case False
      then have full: "length xs = unat c - 1"
        using push(2) spsc_holds_bound [OF Cons.prems(1)] by simp
      obtain q2 where q2: "pop_n n q1 = Some (take n xs, q2)" "spsc_holds c q2 (drop n xs)"
        using pop_n_holds [of c q1 xs n] push(3) False by auto
      obtain ok ys q3 zs where rec: "on_message_received msg rest q2 = Some (ok, ys, q3)"
        "spsc_holds c q3 zs" "ys @ zs = drop n xs @ (if ok then [msg] else [])"
        "ok \<longleftrightarrow> length (drop n xs) < unat c - 1 \<or> (\<exists>n \<in> set rest. 0 < n)"
        using Cons.IH [OF q2(2) Cons.prems(2)] by blast
      have "on_message_received msg (n # rest) q = Some (ok, take n xs @ ys, q3)"
        using push(1) False q2(1) rec(1) by (simp add: on_message_received.simps [of msg "n # rest" q])
      moreover have "(take n xs @ ys) @ zs = xs @ (if ok then [msg] else [])"
        using rec(3) by (metis append.assoc append_take_drop_id)
      moreover have "length (drop n xs) < unat c - 1 \<longleftrightarrow> 0 < n"
        using full Cons.prems(2) by auto
      then have "ok \<longleftrightarrow> length xs < unat c - 1 \<or> (\<exists>k \<in> set (n # rest). 0 < k)"
        using rec(4) full by simp
      ultimately show ?thesis using rec(2) by blast
    qed
  qed
qed

section \<open>Properties\<close>

text \<open>
  (C35) Back-pressure loses nothing and ends as soon as it can: on a queue of at least two
  slots, the engine's received messages followed by the ones in flight are the old ones
  followed by the new message if the loop has ended, and it has ended exactly when there was
  room at first or the engine popped during some yield.
\<close>

theorem session_backpressure:
  assumes "spsc_holds c q xs" and "1 < unat c"
  shows "\<exists>ok received q' inflight. on_message_received msg yields q = Some (ok, received, q') \<and>
    spsc_holds c q' inflight \<and> received @ inflight = xs @ (if ok then [msg] else []) \<and>
    (ok \<longleftrightarrow> length xs < unat c - 1 \<or> (\<exists>n \<in> set yields. 0 < n))"
  by (rule on_message_received_holds [OF assms])

theorem session_backpressure_witness:
  "\<exists>q ok received q'. sq_new (demo_msg 0) 2 = Some q \<and>
     on_message_received (demo_msg 7) [] q = Some (ok, received, q') \<and> ok"
proof -
  obtain q where q: "sq_new (demo_msg 0) 2 = Some q" by (auto simp: sq_new_def)
  from session_backpressure [OF spsc_holds_new [OF q], of "demo_msg 7" "[]"] q show ?thesis by fastforce
qed

text \<open>
  The gateway can be started and stopped any number of times, but a second start
  without a stop in between calls \<open>std::terminate\<close>.
\<close>

lemma gateway_runs_iff_alternating:
  "gateway_run cs gateway_new \<noteq> None \<longleftrightarrow> alternates False cs"
proof -
  have "gateway_run cs g \<noteq> None \<longleftrightarrow> alternates (gw_joinable g) cs" for g
    by (induction cs g rule: gateway_run.induct)
      (auto simp: gateway_start_def gateway_stop_def Let_def)
  then show ?thesis by (simp add: gateway_new_def)
qed

text \<open>
  After any calls that did not terminate the program the destructor joins the I/O thread, also
  when the last call was a start.
\<close>

lemma gateway_destroy_joins: "gateway_destroy g = Some ()"
  by (simp add: gateway_destroy_def gateway_stop_def Let_def)

end
