(* ===== verification/Mmap_WAL.thy ===== *)
theory Mmap_WAL
  imports Binary_Protocol
begin

text \<open>
  \<^verbatim>\<open>include/nexus/persistence/mmap_wal.hpp\<close> and \<^verbatim>\<open>src/persistence/mmap_wal.cpp\<close>, on
  POSIX systems and on Windows: the memory-mapped write-ahead log. The file is mapped shared, so the mapping and
  the file are one byte list, \<open>None\<close> while the file does not exist. Whether \<open>open\<close>,
  \<open>ftruncate\<close> and \<open>mmap\<close> succeed is decided by the operating system: an \<open>os_result\<close>
  parameter.
\<close>

section \<open>The log and its operations\<close>

record os_result =
  os_open_ok :: bool
  os_ftruncate_ok :: bool
  os_mmap_ok :: bool

record wal =
  wal_file_size :: nat
  wal_write_offset :: nat
  wal_mapped :: bool
  wal_fd_open :: bool

type_synonym disk_file = "u8 list option"

definition wal_new :: "nat \<Rightarrow> wal" where
  "wal_new initial_size = \<lparr>wal_file_size = initial_size, wal_write_offset = 0,
     wal_mapped = False, wal_fd_open = False\<rparr>"

text \<open>\<open>O_CREAT\<close> makes an empty file; \<open>ftruncate\<close> cuts it or fills it up with zeros.\<close>

definition ftruncate :: "nat \<Rightarrow> u8 list \<Rightarrow> u8 list" where
  "ftruncate n bs = take n bs @ replicate (n - length bs) 0"

definition wal_open :: "os_result \<Rightarrow> wal \<times> disk_file \<Rightarrow> bool \<times> wal \<times> disk_file" where
  "wal_open os = (\<lambda>(w, f).
     (if \<not> os_open_ok os then (False, w\<lparr>wal_fd_open := False\<rparr>, f)
      else
        (let w1 = w\<lparr>wal_fd_open := True\<rparr>;
             created = (case f of None \<Rightarrow> [] | Some bs \<Rightarrow> bs)
         in if \<not> os_ftruncate_ok os then (False, w1, Some created)
            else
              (let sized = Some (ftruncate (wal_file_size w1) created)
               in if \<not> os_mmap_ok os then (False, w1\<lparr>wal_mapped := False\<rparr>, sized)
                  else (True, w1\<lparr>wal_mapped := True\<rparr>, sized)))))"

definition wal_close :: "wal \<Rightarrow> wal" where
  "wal_close w = (if wal_mapped w then w\<lparr>wal_fd_open := False, wal_mapped := False\<rparr> else w)"

text \<open>
  The Windows branch keeps two handles. The results of \<open>SetFilePointerEx\<close> and \<open>SetEndOfFile\<close>
  are not looked at; what they make of the file is the parameter \<open>win_resize\<close>.
\<close>

record win_result =
  win_create_ok :: bool
  win_mapping_ok :: bool
  win_view_ok :: bool
  win_resize :: "nat \<Rightarrow> u8 list \<Rightarrow> u8 list"

record win_wal =
  ww_file_size :: nat
  ww_write_offset :: nat
  ww_mapped :: bool
  ww_file_handle :: bool
  ww_mapping_handle :: bool

definition wal_open_windows :: "win_result \<Rightarrow> win_wal \<times> disk_file \<Rightarrow> bool \<times> win_wal \<times> disk_file" where
  "wal_open_windows os = (\<lambda>(w, f).
     (if \<not> win_create_ok os then (False, w\<lparr>ww_file_handle := False\<rparr>, f)
      else
        (let w1 = w\<lparr>ww_file_handle := True\<rparr>;
             created = (case f of None \<Rightarrow> [] | Some bs \<Rightarrow> bs);
             sized = Some (win_resize os (ww_file_size w1) created)
         in if \<not> win_mapping_ok os then (False, w1\<lparr>ww_mapping_handle := False\<rparr>, sized)
            else
              (let w2 = w1\<lparr>ww_mapping_handle := True\<rparr>
               in if \<not> win_view_ok os then (False, w2\<lparr>ww_mapped := False\<rparr>, sized)
                  else (True, w2\<lparr>ww_mapped := True\<rparr>, sized)))))"

definition wal_close_windows :: "win_wal \<Rightarrow> win_wal" where
  "wal_close_windows w =
     (if ww_mapped w
      then w\<lparr>ww_mapping_handle := False, ww_file_handle := False, ww_mapped := False\<rparr> else w)"

text \<open>\<open>memcpy\<close> of \<open>bytes\<close> to an offset of the mapping.\<close>

definition memcpy_at :: "nat \<Rightarrow> u8 list \<Rightarrow> u8 list \<Rightarrow> u8 list" where
  "memcpy_at off bytes bs = take off bs @ bytes @ drop (off + length bytes) bs"

definition append_order :: "NewOrderMsg \<Rightarrow> wal \<times> disk_file \<Rightarrow> bool \<times> wal \<times> disk_file" where
  "append_order msg = (\<lambda>(w, f).
     (if \<not> wal_mapped w \<or> wal_write_offset w + NEW_ORDER_SIZE > wal_file_size w
      then (False, w, f)
      else (True, w\<lparr>wal_write_offset := wal_write_offset w + NEW_ORDER_SIZE\<rparr>,
            map_option (memcpy_at (wal_write_offset w) (new_order_image msg)) f)))"

definition wal_written_bytes :: "wal \<Rightarrow> nat" where
  "wal_written_bytes w = wal_write_offset w"

text \<open>\<open>data\<close> and \<open>size\<close>: the mapping, \<open>None\<close> for a null pointer; the destructor closes the log.\<close>

definition wal_data :: "wal \<times> disk_file \<Rightarrow> u8 list option" where
  "wal_data = (\<lambda>(w, f). if wal_mapped w then f else None)"

definition wal_size :: "wal \<Rightarrow> nat" where
  "wal_size w = wal_file_size w"

definition wal_destroy :: "wal \<Rightarrow> wal" where
  "wal_destroy w = wal_close w"

fun append_orders :: "NewOrderMsg list \<Rightarrow> wal \<times> disk_file \<Rightarrow> bool list \<times> wal \<times> disk_file" where
  "append_orders [] st = ([], st)"
| "append_orders (msg # msgs) st =
     (let (ok, st1) = append_order msg st; (oks, st2) = append_orders msgs st1
      in (ok # oks, st2))"

text \<open>
  Recovery as a reader of \<open>data()\<close> and \<open>written_bytes()\<close> does it: the messages in the first
  \<open>n\<close> records.
\<close>

fun read_orders :: "nat \<Rightarrow> u8 list \<Rightarrow> NewOrderMsg list option" where
  "read_orders 0 bs = Some []"
| "read_orders (Suc n) bs =
     (case read_new_order bs of
        None \<Rightarrow> None
      | Some (msg, rest) \<Rightarrow> map_option ((#) msg) (read_orders n rest))"

section \<open>What the log holds\<close>

definition wal_holds :: "NewOrderMsg list \<Rightarrow> wal \<times> disk_file \<Rightarrow> bool" where
  "wal_holds msgs = (\<lambda>(w, f). wal_mapped w \<and> (\<exists>bs. f = Some bs \<and> length bs = wal_file_size w \<and>
     wal_write_offset w = NEW_ORDER_SIZE * length msgs \<and> wal_write_offset w \<le> wal_file_size w \<and>
     take (wal_write_offset w) bs = concat (map new_order_image msgs)))"

lemma length_ftruncate [simp]: "length (ftruncate n bs) = n"
  by (simp add: ftruncate_def)

lemma concat_images_length [simp]:
  "length (concat (map new_order_image msgs)) = NEW_ORDER_SIZE * length msgs"
  by (induction msgs) (auto simp: algebra_simps)

lemma read_orders_images:
  "read_orders (length msgs) (concat (map new_order_image msgs) @ rest) = Some msgs"
  by (induction msgs) (auto simp: read_new_order_image)

lemma append_order_holds:
  assumes holds: "wal_holds msgs st"
    and room: "NEW_ORDER_SIZE * Suc (length msgs) \<le> wal_file_size (fst st)"
  obtains w' f' where "append_order msg st = (True, w', f')" and "wal_holds (msgs @ [msg]) (w', f')"
    and "wal_file_size w' = wal_file_size (fst st)"
proof -
  obtain w f where st: "st = (w, f)" by (cases st)
  obtain bs where bs: "f = Some bs" "length bs = wal_file_size w" "wal_mapped w"
    and off: "wal_write_offset w = NEW_ORDER_SIZE * length msgs"
    and pre: "take (wal_write_offset w) bs = concat (map new_order_image msgs)"
    using holds by (auto simp: wal_holds_def st)
  have le: "wal_write_offset w + NEW_ORDER_SIZE \<le> wal_file_size w"
    using room off by (simp add: st)
  let ?w = "w\<lparr>wal_write_offset := wal_write_offset w + NEW_ORDER_SIZE\<rparr>"
  let ?bs = "memcpy_at (wal_write_offset w) (new_order_image msg) bs"
  have run: "append_order msg st = (True, ?w, Some ?bs)"
    using bs le by (simp add: append_order_def st)
  have "length ?bs = length bs" using le bs(2) by (simp add: memcpy_at_def)
  moreover have "take (wal_write_offset w + NEW_ORDER_SIZE) ?bs =
      concat (map new_order_image (msgs @ [msg]))"
    using le bs(2) pre off by (simp add: memcpy_at_def)
  ultimately have "wal_holds (msgs @ [msg]) (?w, Some ?bs)"
    using bs off le by (simp add: wal_holds_def)
  with run show thesis by (rule that) (simp add: st)
qed

lemma append_orders_holds:
  "wal_holds old st \<Longrightarrow> NEW_ORDER_SIZE * (length old + length msgs) \<le> wal_file_size (fst st) \<Longrightarrow>
     \<exists>st'. append_orders msgs st = (replicate (length msgs) True, st') \<and> wal_holds (old @ msgs) st'"
proof (induction msgs arbitrary: st old)
  case (Cons msg msgs)
  obtain w1 f1 where one: "append_order msg st = (True, w1, f1)" "wal_holds (old @ [msg]) (w1, f1)"
    "wal_file_size w1 = wal_file_size (fst st)"
    by (rule append_order_holds [OF Cons.prems(1)]) (use Cons.prems(2) in \<open>auto simp: distrib_left\<close>)
  from Cons.IH [OF one(2)] Cons.prems(2) one(1,3) show ?case by auto
qed simp

lemma wal_holds_read:
  assumes "wal_holds msgs (w, f)"
  obtains bs where "f = Some bs" and "wal_written_bytes w = NEW_ORDER_SIZE * length msgs"
    and "read_orders (length msgs) bs = Some msgs"
proof -
  obtain bs where bs: "f = Some bs" "wal_write_offset w = NEW_ORDER_SIZE * length msgs"
    "take (wal_write_offset w) bs = concat (map new_order_image msgs)"
    using assms by (auto simp: wal_holds_def)
  have "bs = concat (map new_order_image msgs) @ drop (wal_write_offset w) bs"
    using bs(3) append_take_drop_id [of "wal_write_offset w" bs] by simp
  with read_orders_images have "read_orders (length msgs) bs = Some msgs" by metis
  with bs show thesis by (intro that) (simp_all add: wal_written_bytes_def)
qed

definition os_ok :: os_result where
  "os_ok = \<lparr>os_open_ok = True, os_ftruncate_ok = True, os_mmap_ok = True\<rparr>"

lemma wal_open_holds:
  "wal_open os_ok (wal_new n, f) = (ok, w, f') \<Longrightarrow> ok \<and> wal_holds [] (w, f') \<and> wal_file_size w = n"
  by (auto simp: wal_open_def os_ok_def wal_new_def wal_holds_def Let_def)

text \<open>A new log opened on the file of one that holds messages finds them at its start.\<close>

lemma wal_reopen_holds:
  assumes h: "wal_holds msgs (w, f)" and f: "f = Some bs" and m: "NEW_ORDER_SIZE * length msgs \<le> m"
  obtains w2 where "wal_open os_ok (wal_new m, f) = (True, w2, Some (ftruncate m bs))"
    and "wal_holds msgs (w2\<lparr>wal_write_offset := NEW_ORDER_SIZE * length msgs\<rparr>, Some (ftruncate m bs))"
proof (rule that)
  let ?w = "\<lparr>wal_file_size = m, wal_write_offset = 0, wal_mapped = True, wal_fd_open = True\<rparr>"
  show "wal_open os_ok (wal_new m, f) = (True, ?w, Some (ftruncate m bs))"
    by (simp add: f wal_open_def os_ok_def wal_new_def)
  show "wal_holds msgs (?w\<lparr>wal_write_offset := NEW_ORDER_SIZE * length msgs\<rparr>, Some (ftruncate m bs))"
    using h m by (auto simp: f wal_holds_def ftruncate_def min_def)
qed

text \<open>
  Offsets and sizes are natural numbers here and \<open>size_t\<close> in the source. The guard of an append is
  the same in 64-bit arithmetic while the file size leaves 30 bytes of the address space, which
  every file that can be mapped does.
\<close>

lemma size_t_guard:
  assumes "unat off \<le> unat fsize" and "unat fsize + NEW_ORDER_SIZE < 2 ^ 64"
  shows "off + of_nat NEW_ORDER_SIZE > (fsize :: u64) \<longleftrightarrow> unat off + NEW_ORDER_SIZE > unat fsize"
  using assms by (simp add: word_less_nat_alt unat_word_ariths NEW_ORDER_SIZE_def)

section \<open>Properties\<close>

text \<open>
  (C32) What was appended can be recovered: after opening a log and appending messages that
  fit into it, every append succeeded, \<open>written_bytes\<close> counts 30 bytes for each, and reading
  that many records gives the messages in order, from the mapping and also, after the destructor
  has closed the log, from a new log object of any size that holds them, opened on the file.
\<close>

theorem wal_append_recovers:
  assumes "wal_open os_ok (wal_new n, f) = (ok, st)" and "30 * length msgs \<le> n"
    and "30 * length msgs \<le> m"
  shows "\<exists>w bs w2 bs2. append_orders msgs st = (replicate (length msgs) True, w, Some bs) \<and>
    wal_written_bytes w = 30 * length msgs \<and> read_orders (length msgs) bs = Some msgs \<and>
    \<not> wal_fd_open (wal_destroy w) \<and> \<not> wal_mapped (wal_destroy w) \<and>
    wal_open os_ok (wal_new m, Some bs) = (True, w2, Some bs2) \<and>
    wal_data (w2, Some bs2) = Some bs2 \<and> length bs2 = wal_size w2 \<and> wal_size w2 = m \<and>
    read_orders (length msgs) bs2 = Some msgs"
proof -
  obtain w0 f0 where st: "st = (w0, f0)" by (cases st)
  from wal_open_holds assms(1) st have h0: "wal_holds [] st" "wal_file_size (fst st) = n" by auto
  obtain w f' where run: "append_orders msgs st = (replicate (length msgs) True, w, f')"
    and h: "wal_holds msgs (w, f')"
    using append_orders_holds [OF h0(1), of msgs] h0(2) assms(2) by (auto simp: NEW_ORDER_SIZE_def)
  obtain bs where bs: "f' = Some bs" "wal_written_bytes w = NEW_ORDER_SIZE * length msgs"
    "read_orders (length msgs) bs = Some msgs" by (rule wal_holds_read [OF h])
  obtain w2 where w2: "wal_open os_ok (wal_new m, f') = (True, w2, Some (ftruncate m bs))"
    "wal_holds msgs (w2\<lparr>wal_write_offset := NEW_ORDER_SIZE * length msgs\<rparr>, Some (ftruncate m bs))"
    by (rule wal_reopen_holds [OF h bs(1)]) (use assms(3) in \<open>simp add: NEW_ORDER_SIZE_def\<close>)
  have "read_orders (length msgs) (ftruncate m bs) = Some msgs"
    using wal_holds_read [OF w2(2)] by (metis option.inject)
  moreover have "wal_mapped w" using h by (simp add: wal_holds_def)
  ultimately show ?thesis
    using run bs w2(1) wal_open_holds [of m "Some bs" True w2]
    by (simp add: NEW_ORDER_SIZE_def wal_close_def wal_destroy_def wal_data_def wal_size_def
        wal_holds_def ftruncate_def)
qed

theorem wal_append_recovers_witness:
  "\<exists>w bs w2 bs2. append_orders [demo_msg 1, demo_msg 2] (snd (wal_open os_ok (wal_new 64, None))) =
     ([True, True], w, Some bs) \<and> read_orders 2 bs = Some [demo_msg 1, demo_msg 2] \<and>
     wal_open os_ok (wal_new 100, Some bs) = (True, w2, Some bs2) \<and>
     read_orders 2 bs2 = Some [demo_msg 1, demo_msg 2]"
  using wal_append_recovers [of 64 None "fst (wal_open os_ok (wal_new 64, None))"
      "snd (wal_open os_ok (wal_new 64, None))" "[demo_msg 1, demo_msg 2]" 100]
  by (simp add: numeral_2_eq_2) blast

text \<open>
  An append that does not fit, or on a log that is not open, fails and changes neither
  the log nor the file; one that succeeds never writes past the end of the mapping.
\<close>

lemma wal_append_bounds:
  "append_order msg (w, f) = (ok, w', f') \<Longrightarrow>
     (ok \<longleftrightarrow> wal_mapped w \<and> wal_write_offset w + 30 \<le> wal_file_size w) \<and>
     (\<not> ok \<longrightarrow> w' = w \<and> f' = f) \<and>
     (ok \<longrightarrow> wal_write_offset w' \<le> wal_file_size w' \<and>
        (\<forall>bs. f = Some bs \<longrightarrow> length bs = wal_file_size w \<longrightarrow>
          (\<exists>bs'. f' = Some bs' \<and> length bs' = wal_file_size w' \<and>
             take (wal_write_offset w) bs' = take (wal_write_offset w) bs)))"
  by (auto simp: append_order_def NEW_ORDER_SIZE_def memcpy_at_def split: if_splits)

theorem wal_append_bounds_witness:
  "fst (append_order (demo_msg 1) (wal_new 100, None)) = False"
  using wal_append_bounds [of "demo_msg 1" "wal_new 100" None
      "fst (append_order (demo_msg 1) (wal_new 100, None))"
      "fst (snd (append_order (demo_msg 1) (wal_new 100, None)))"
      "snd (snd (append_order (demo_msg 1) (wal_new 100, None)))"]
  by (simp add: wal_new_def)

text \<open>
  (C33) Reopening does not recover: a new log object opened on a file that holds messages
  starts with \<open>written_bytes = 0\<close>, and its first append overwrites the first message.
\<close>

theorem wal_reopen_overwrites:
  assumes "wal_holds (old # olds) (w, f)" and "wal_file_size w = n"
    and "wal_open os_ok (wal_new n, f) = (ok, w1, f1)"
  shows "wal_written_bytes w1 = 0 \<and>
    (\<exists>w2 bs. append_order msg (w1, f1) = (True, w2, Some bs) \<and>
       read_orders (Suc (length olds)) bs = Some (msg # olds))"
proof -
  obtain bs where bs: "f = Some bs" "length bs = n"
    "take (NEW_ORDER_SIZE * Suc (length olds)) bs = concat (map new_order_image (old # olds))"
    and room: "NEW_ORDER_SIZE * Suc (length olds) \<le> n"
    using assms(1,2) by (auto simp: wal_holds_def)
  have open1: "w1 = \<lparr>wal_file_size = n, wal_write_offset = 0, wal_mapped = True, wal_fd_open = True\<rparr>"
    "f1 = Some bs"
    using assms(3) bs by (auto simp: wal_open_def os_ok_def wal_new_def ftruncate_def Let_def)
  let ?bs = "new_order_image msg @ drop NEW_ORDER_SIZE bs"
  have run: "append_order msg (w1, f1) =
      (True, w1\<lparr>wal_write_offset := NEW_ORDER_SIZE\<rparr>, Some ?bs)"
    using room by (simp add: append_order_def open1 memcpy_at_def)
  have "bs = (new_order_image old @ concat (map new_order_image olds)) @
      drop (NEW_ORDER_SIZE * Suc (length olds)) bs"
    using bs(3) append_take_drop_id [of "NEW_ORDER_SIZE * Suc (length olds)" bs] by simp
  then have "drop NEW_ORDER_SIZE bs = concat (map new_order_image olds) @
      drop (NEW_ORDER_SIZE * Suc (length olds)) bs"
    by (metis append_eq_conv_conj append_assoc image_lengths(2))
  then have "read_orders (Suc (length olds)) ?bs = Some (msg # olds)"
    by (simp add: read_new_order_image read_orders_images)
  with run open1 show ?thesis by (simp add: wal_written_bytes_def)
qed

theorem wal_reopen_overwrites_witness:
  "\<exists>w f ok w1 f1 w2 bs. wal_holds [demo_msg 1, demo_msg 2] (w, f) \<and>
     wal_open os_ok (wal_new 64, f) = (ok, w1, f1) \<and>
     append_order (demo_msg 3) (w1, f1) = (True, w2, Some bs) \<and>
     read_orders 2 bs = Some [demo_msg 3, demo_msg 2]"
proof -
  obtain ok0 w0 f0 where o0: "wal_open os_ok (wal_new 64, None) = (ok0, w0, f0)"
    by (metis surj_pair)
  note h0 = wal_open_holds [OF o0]
  obtain w f where h: "wal_holds [demo_msg 1, demo_msg 2] (w, f)"
    and run: "append_orders [demo_msg 1, demo_msg 2] (w0, f0) = ([True, True], w, f)"
    using append_orders_holds [of "[]" "(w0, f0)" "[demo_msg 1, demo_msg 2]"] h0
    by (auto simp: NEW_ORDER_SIZE_def)
  have size: "wal_file_size w = 64"
    using run h0 by (auto simp: append_order_def split: if_splits)
  obtain ok w1 f1 where o1: "wal_open os_ok (wal_new 64, f) = (ok, w1, f1)" by (metis surj_pair)
  from wal_reopen_overwrites [OF h size o1, of "demo_msg 3"] h o1
  show ?thesis by (fastforce simp: numeral_2_eq_2)
qed

text \<open>
  Only a log whose mapping succeeded is ever closed: when \<open>open\<close> gets the descriptor and then
  fails, neither \<open>close\<close> nor the destructor, which calls it, releases the descriptor; on
  Windows the same holds of both handles.
\<close>

lemma wal_failed_open_leaks:
  "\<not> wal_mapped w \<Longrightarrow> wal_open os (w, f) = (ok, w', f') \<Longrightarrow>
     wal_fd_open (wal_close w') \<longleftrightarrow> os_open_ok os \<and> \<not> ok"
  by (auto simp: wal_open_def wal_close_def Let_def split: if_splits)

lemma wal_failed_open_leaks_windows:
  "\<not> ww_mapped w \<Longrightarrow> wal_open_windows os (w, f) = (ok, w', f') \<Longrightarrow>
     ww_file_handle (wal_close_windows w') \<longleftrightarrow> win_create_ok os \<and> \<not> ok"
  by (auto simp: wal_open_windows_def wal_close_windows_def Let_def split: if_splits)

text \<open>A closed log accepts nothing until it is opened again, and closing twice is harmless.\<close>

lemma wal_close_twice: "wal_close (wal_close w) = wal_close w"
  by (simp add: wal_close_def)

lemma append_after_close: "append_order msg (wal_close w, f) = (False, wal_close w, f)"
  by (simp add: wal_close_def append_order_def)

end
