(* ===== verification/Order_Tracker.thy ===== *)
theory Order_Tracker
  imports Core_Types
begin

text \<open>
  \<^verbatim>\<open>include/nexus/oms/order_tracker.hpp\<close>: the client's view of an order, with the quantity
  that remains, computed in 64-bit arithmetic.
\<close>

datatype OrderState =
    PendingNew
  | NewState
  | PartiallyFilled
  | Filled
  | PendingCancel
  | Canceled
  | Rejected

fun order_state_byte :: "OrderState \<Rightarrow> u8" where
  "order_state_byte PendingNew = 0"
| "order_state_byte NewState = 1"
| "order_state_byte PartiallyFilled = 2"
| "order_state_byte Filled = 3"
| "order_state_byte PendingCancel = 4"
| "order_state_byte Canceled = 5"
| "order_state_byte Rejected = 6"

record OrderTracker =
  ot_order_id :: OrderId
  ot_side :: Side
  ot_price :: Price
  ot_original_qty :: Quantity
  ot_executed_qty :: Quantity
  ot_state :: OrderState

definition OrderTracker_new :: "OrderId \<Rightarrow> Side \<Rightarrow> Price \<Rightarrow> Quantity \<Rightarrow> OrderTracker" where
  "OrderTracker_new i s p q = \<lparr>ot_order_id = i, ot_side = s, ot_price = p, ot_original_qty = q,
     ot_executed_qty = 0, ot_state = PendingNew\<rparr>"

definition remaining_qty :: "OrderTracker \<Rightarrow> Quantity" where
  "remaining_qty t = ot_original_qty t - ot_executed_qty t"

lemma order_state_byte_inj: "inj order_state_byte"
proof (rule injI)
  fix x y assume "order_state_byte x = order_state_byte y"
  then show "x = y" by (cases x; cases y) simp_all
qed

text \<open>The remaining quantity is exact as long as no more than the order was executed.\<close>

lemma remaining_qty_exact:
  "ot_executed_qty t \<le> ot_original_qty t \<Longrightarrow>
     unat (remaining_qty t) = unat (ot_original_qty t) - unat (ot_executed_qty t)"
  by (simp add: remaining_qty_def unat_diff)

end
