(* ===== verification/Portfolio.thy ===== *)
theory Portfolio
  imports Float64 "HOL-Library.Monad_Syntax"
begin

text \<open>
  \<^verbatim>\<open>oms/portfolio.cpp\<close>: position and profit of one instrument. The \<open>int64_t\<close> members are
  integers whose results are checked against their range (overflow is undefined behaviour,
  \<open>None\<close>), the average open price is a \<open>double\<close>. Every floating-point operation rounds
  on its own (no contraction to fused operations).
\<close>

record portfolio =
  pf_net_position :: int
  pf_gross_notional :: u64
  pf_average_open_price :: f64
  pf_realized_pnl :: int
  pf_unrealized_pnl :: int

definition portfolio_new :: portfolio where
  "portfolio_new = \<lparr>pf_net_position = 0, pf_gross_notional = 0, pf_average_open_price = 0,
     pf_realized_pnl = 0, pf_unrealized_pnl = 0\<rparr>"

section \<open>Fills\<close>

text \<open>Opening, adding, reducing or flipping; \<open>gross\<close> is updated first, the position last.\<close>

definition add_to_position :: "int \<Rightarrow> f64 \<Rightarrow> portfolio \<Rightarrow> portfolio option" where
  "add_to_position fill_qty fill_price p = do {
     net \<leftarrow> i64 \<bar>pf_net_position p\<bar>;
     fill \<leftarrow> i64 \<bar>fill_qty\<bar>;
     let total_value = f64_of_int net * pf_average_open_price p + f64_of_int fill * fill_price;
     total_qty \<leftarrow> i64 (net + fill);
     Some (p\<lparr>pf_average_open_price := total_value / f64_of_int total_qty\<rparr>)
   }"

definition reduce_position :: "int \<Rightarrow> f64 \<Rightarrow> portfolio \<Rightarrow> portfolio option" where
  "reduce_position fill_qty fill_price p = do {
     current_qty \<leftarrow> i64 \<bar>pf_net_position p\<bar>;
     fill \<leftarrow> i64 \<bar>fill_qty\<bar>;
     let reduce_qty = min current_qty fill;
     let avg = pf_average_open_price p;
     gain \<leftarrow> f64_to_i64
       ((if pf_net_position p > 0 then fill_price - avg else avg - fill_price) * f64_of_int reduce_qty);
     realized \<leftarrow> i64 (pf_realized_pnl p + gain);
     let p1 = p\<lparr>pf_realized_pnl := realized\<rparr>;
     Some (if current_qty < fill then p1\<lparr>pf_average_open_price := fill_price\<rparr>
           else if fill = current_qty then p1\<lparr>pf_average_open_price := 0\<rparr>
           else p1)
   }"

definition process_fill :: "Side \<Rightarrow> Price \<Rightarrow> Quantity \<Rightarrow> portfolio \<Rightarrow> portfolio option" where
  "process_fill side price qty p0 = do {
     fill_qty \<leftarrow> (if side = Buy then Some (sint qty) else i64 (- sint qty));
     let fill_price = f64_of_u64 price;
     let p = p0\<lparr>pf_gross_notional := pf_gross_notional p0 + qty * price\<rparr>;
     let net = pf_net_position p;
     p1 \<leftarrow> (if net = 0 then Some (p\<lparr>pf_average_open_price := fill_price\<rparr>)
             else if net > 0 \<and> fill_qty > 0 \<or> net < 0 \<and> fill_qty < 0
             then add_to_position fill_qty fill_price p
             else reduce_position fill_qty fill_price p);
     net' \<leftarrow> i64 (net + fill_qty);
     Some (p1\<lparr>pf_net_position := net'\<rparr>)
   }"

section \<open>Marking to market\<close>

definition update_market_price :: "Price \<Rightarrow> portfolio \<Rightarrow> portfolio option" where
  "update_market_price mid_price p =
     (let net = pf_net_position p; avg = pf_average_open_price p; current_price = f64_of_u64 mid_price
      in if net = 0 then Some (p\<lparr>pf_unrealized_pnl := 0\<rparr>)
         else if net > 0 then do {
           u \<leftarrow> f64_to_i64 ((current_price - avg) * f64_of_int net);
           Some (p\<lparr>pf_unrealized_pnl := u\<rparr>) }
         else do {
           q \<leftarrow> i64 \<bar>net\<bar>;
           u \<leftarrow> f64_to_i64 ((avg - current_price) * f64_of_int q);
           Some (p\<lparr>pf_unrealized_pnl := u\<rparr>) })"

definition get_total_pnl :: "portfolio \<Rightarrow> int option" where
  "get_total_pnl p = i64 (pf_realized_pnl p + pf_unrealized_pnl p)"

type_synonym fill = "Side \<times> Price \<times> Quantity"

fun portfolio_run :: "fill list \<Rightarrow> portfolio \<Rightarrow> portfolio option" where
  "portfolio_run [] p = Some p"
| "portfolio_run ((side, price, qty) # fs) p = Option.bind (process_fill side price qty p) (portfolio_run fs)"

section \<open>The ledger\<close>

text \<open>
  The exact account of a sequence of fills: the signed quantity of a fill, the position, and
  the cash paid and received. \<open>whole_averages\<close> says that each time a fill adds to a position
  the new average price is a whole number of ticks.
\<close>

fun fill_signed :: "fill \<Rightarrow> int" where
  "fill_signed (Buy, _, qty) = uint qty"
| "fill_signed (Sell, _, qty) = - uint qty"

fun fill_price :: "fill \<Rightarrow> int" where
  "fill_price (_, price, _) = uint price"

definition ledger_net :: "fill list \<Rightarrow> int" where
  "ledger_net fs = (\<Sum>f\<leftarrow>fs. fill_signed f)"

definition ledger_cash :: "fill list \<Rightarrow> int" where
  "ledger_cash fs = (\<Sum>f\<leftarrow>fs. - fill_signed f * fill_price f)"

definition next_average :: "int \<Rightarrow> int \<Rightarrow> int \<Rightarrow> int \<Rightarrow> int" where
  "next_average net avg q price =
     (if net = 0 \<or> \<bar>net\<bar> < \<bar>q\<bar> \<and> (net > 0 \<longleftrightarrow> q < 0) then price
      else if net > 0 \<and> q > 0 \<or> net < 0 \<and> q < 0
      then (\<bar>net\<bar> * avg + \<bar>q\<bar> * price) div (\<bar>net\<bar> + \<bar>q\<bar>)
      else if \<bar>q\<bar> = \<bar>net\<bar> then 0 else avg)"

fun whole_averages :: "int \<Rightarrow> int \<Rightarrow> fill list \<Rightarrow> bool" where
  "whole_averages net avg [] = True"
| "whole_averages net avg (f # fs) \<longleftrightarrow>
     (net > 0 \<and> fill_signed f > 0 \<or> net < 0 \<and> fill_signed f < 0 \<longrightarrow>
        \<bar>net\<bar> + \<bar>fill_signed f\<bar> dvd \<bar>net\<bar> * avg + \<bar>fill_signed f\<bar> * fill_price f) \<and>
     whole_averages (net + fill_signed f) (next_average net avg (fill_signed f) (fill_price f)) fs"

section \<open>One fill in whole numbers\<close>

lemma i64_small [simp]: "\<bar>i\<bar> < 2 ^ 62 \<Longrightarrow> i64 i = Some i"
  by (auto simp: i64_def in_i64_def)

lemma i64_53: "\<bar>i\<bar> < 2 ^ 53 \<Longrightarrow> i64 i = Some i"
  by (auto simp: i64_def in_i64_def)

lemma sint_small: "uint (w :: u64) < 2 ^ 53 \<Longrightarrow> sint w = uint w"
  unfolding sint_uint using order_trans [OF _ uint_ge_0 [of w], of "- (2 ^ 63)"]
  by (intro signed_take_bit_int_eq_self) simp_all

text \<open>
  \<open>pf_ledger P net avg r p\<close>: the portfolio has position \<open>net\<close>, realized profit \<open>r\<close>, and
  its average price is the whole number \<open>avg\<close>, at most \<open>P\<close>.
\<close>

definition pf_ledger :: "int \<Rightarrow> int \<Rightarrow> int \<Rightarrow> int \<Rightarrow> portfolio \<Rightarrow> bool" where
  "pf_ledger P net avg r p \<longleftrightarrow> pf_net_position p = net \<and> f64_int (pf_average_open_price p) avg \<and>
     0 \<le> avg \<and> avg \<le> P \<and> pf_realized_pnl p = r"

lemma mult_le_bound:
  fixes n x P B :: int
  shows "\<bar>x\<bar> \<le> P \<Longrightarrow> 0 \<le> n \<Longrightarrow> n * P < B \<Longrightarrow> \<bar>n * x\<bar> < B"
  using mult_left_mono [of "\<bar>x\<bar>" P n] by (simp add: abs_mult)

lemma add_to_position_whole:
  assumes "f64_int (pf_average_open_price p) a" and "f64_int fp pr"
    and "0 \<le> a" "a \<le> P" "0 \<le> pr" "pr \<le> P"
    and bound: "(\<bar>pf_net_position p\<bar> + \<bar>q\<bar>) * P < 2 ^ 53" "\<bar>pf_net_position p\<bar> + \<bar>q\<bar> < 2 ^ 53"
    and "pf_net_position p \<noteq> 0"
    and dvd: "\<bar>pf_net_position p\<bar> * a + \<bar>q\<bar> * pr = a' * (\<bar>pf_net_position p\<bar> + \<bar>q\<bar>)"
  obtains avg where "add_to_position q fp p = Some (p\<lparr>pf_average_open_price := avg\<rparr>)"
    and "f64_int avg a'"
proof -
  let ?n = "\<bar>pf_net_position p\<bar>" and ?k = "\<bar>q\<bar>"
  let ?avg = "(f64_of_int ?n * pf_average_open_price p + f64_of_int ?k * fp) / f64_of_int (?n + ?k)"
  have split: "?n * P + ?k * P < 2 ^ 53" using bound(1) by (simp add: distrib_right)
  have nonneg: "0 \<le> ?n * a" "0 \<le> ?k * pr" using assms(3,5) by simp_all
  have le: "?n * a \<le> ?n * P" "?k * pr \<le> ?k * P" using assms(4,6) by (simp_all add: mult_left_mono)
  have "f64_int (f64_of_int ?n * pf_average_open_price p) (?n * a)"
    using assms(1) bound(2) split nonneg le by (intro f64_int_mul f64_int_of_int) linarith+
  moreover have "f64_int (f64_of_int ?k * fp) (?k * pr)"
    using assms(2) bound(2) split nonneg le by (intro f64_int_mul f64_int_of_int) linarith+
  ultimately have "f64_int (f64_of_int ?n * pf_average_open_price p + f64_of_int ?k * fp)
      (a' * (?n + ?k))"
    unfolding dvd [symmetric] using split nonneg le by (intro f64_int_add) linarith+
  then have "f64_int ?avg a'"
    using bound(2) assms(9) by (intro f64_int_div [of _ a' "?n + ?k"] f64_int_of_int) linarith+
  moreover have "add_to_position q fp p = Some (p\<lparr>pf_average_open_price := ?avg\<rparr>)"
    using bound(2) by (simp add: add_to_position_def)
  ultimately show ?thesis using that by blast
qed

lemma reduce_position_whole:
  fixes p :: portfolio and q :: int
  defines "n \<equiv> \<bar>pf_net_position p\<bar>" and "k \<equiv> \<bar>q\<bar>"
  assumes "f64_int (pf_average_open_price p) a" and "f64_int fp pr"
    and "0 \<le> a" "a \<le> P" "0 \<le> pr" "pr \<le> P"
    and bound: "(n + k) * P < 2 ^ 53" "n + k < 2 ^ 53"
    and "\<bar>pf_realized_pnl p\<bar> < 2 * 2 ^ 53"
  defines "gain \<equiv> (if 0 < pf_net_position p then pr - a else a - pr) * min n k"
  shows "reduce_position q fp p = Some (p\<lparr>pf_realized_pnl := pf_realized_pnl p + gain,
     pf_average_open_price := (if n < k then fp else if k = n then 0 else pf_average_open_price p)\<rparr>)"
proof -
  let ?d = "if 0 < pf_net_position p then pr - a else a - pr"
  let ?x = "if 0 < pf_net_position p then fp - pf_average_open_price p else pf_average_open_price p - fp"
  have nk: "0 \<le> n" "0 \<le> k" by (simp_all add: n_def k_def)
  have P: "P < 2 ^ 53 \<or> n + k = 0"
    using bound(1) nk mult_right_mono [of 1 "n + k" P] assms(5,6) by (cases "n + k = 0") auto
  have d: "\<bar>?d\<bar> \<le> P" using assms(5-8) by auto
  have "min n k * P \<le> (n + k) * P" using nk assms(5,6) by (intro mult_right_mono) auto
  then have m: "min n k * P < 2 ^ 53" using bound(1) by linarith
  have small: "\<bar>a\<bar> < 2 ^ 53" "\<bar>pr\<bar> < 2 ^ 53" using assms(3,4) by (simp_all add: f64_int_def)
  then have dd: "\<bar>?d\<bar> < 2 ^ 53" using assms(5,7) by auto
  have "f64_int ?x ?d" using assms(3,4) dd by (auto intro: f64_int_sub)
  moreover have gain: "\<bar>gain\<bar> < 2 ^ 53"
    unfolding gain_def using mult_le_bound [OF d _ m] nk by (simp add: mult.commute)
  moreover have "f64_int (f64_of_int (min n k)) (min n k)"
    using bound(2) nk by (intro f64_int_of_int) linarith
  ultimately have "f64_int (?x * f64_of_int (min n k)) gain"
    unfolding gain_def by (intro f64_int_mul)
  from f64_int_to_i64 [OF this]
  have conv: "f64_to_i64 (?x * f64_of_int (min n k)) = Some gain" .
  have "i64 n = Some n" "i64 k = Some k" "i64 (pf_realized_pnl p + gain) = Some (pf_realized_pnl p + gain)"
    using bound(2) nk gain assms(11) by (simp_all add: i64_def in_i64_def abs_less_iff)
  then show ?thesis
    using conv unfolding reduce_position_def Let_def n_def [symmetric] k_def [symmetric]
    by (cases "n < k"; cases "k = n") simp_all
qed

lemma fill_signed_abs [simp]: "\<bar>fill_signed (s, price, qty)\<bar> = uint qty"
  by (cases s) simp_all

text \<open>
  A fill keeps the account: the realized profit changes by the cash of the fill plus the
  change of the position's value at its average price.
\<close>

lemma process_fill_whole:
  fixes price qty :: u64 and side :: Side
  defines "q \<equiv> fill_signed (side, price, qty)"
  assumes led: "pf_ledger P net a r p" and "uint price \<le> P" and "P < 2 ^ 53"
    and bound: "(\<bar>net\<bar> + uint qty) * P < 2 ^ 53" "\<bar>net\<bar> + uint qty < 2 ^ 53" "\<bar>r\<bar> < 2 * 2 ^ 53"
    and whole: "net > 0 \<and> q > 0 \<or> net < 0 \<and> q < 0 \<Longrightarrow>
      \<bar>net\<bar> + \<bar>q\<bar> dvd \<bar>net\<bar> * a + \<bar>q\<bar> * uint price"
  obtains p' where "process_fill side price qty p = Some p'"
    and "pf_ledger P (net + q) (next_average net a q (uint price))
      (r - q * uint price + (net + q) * next_average net a q (uint price) - net * a) p'"
proof -
  let ?p = "p\<lparr>pf_gross_notional := pf_gross_notional p + qty * price\<rparr>"
  have q: "\<bar>q\<bar> = uint qty" by (simp add: q_def)
  have qty: "uint qty < 2 ^ 53" using bound(2) by linarith
  have fq: "(if side = Buy then Some (sint qty) else i64 (- sint qty)) = Some q"
    using sint_small [OF qty] qty by (cases side) (auto simp: q_def)
  have net': "i64 (net + q) = Some (net + q)"
    using bound(2) q by (intro i64_53) linarith
  have price: "f64_int (f64_of_u64 price) (uint price)"
    using assms(3,4) by (intro f64_int_of_u64) linarith
  from led have p: "pf_net_position ?p = net" "f64_int (pf_average_open_price ?p) a" "0 \<le> a" "a \<le> P"
    "pf_realized_pnl ?p = r" by (simp_all add: pf_ledger_def)
  have zero: "pf_net_position p = net" using p(1) by simp
  consider (flat) "net = 0" | (adding) "net > 0 \<and> q > 0 \<or> net < 0 \<and> q < 0"
    | (reducing) "net \<noteq> 0" "\<not> (net > 0 \<and> q > 0 \<or> net < 0 \<and> q < 0)" by blast
  then show ?thesis
  proof cases
    case flat
    show ?thesis
    proof (rule that)
      show "process_fill side price qty p =
          Some (?p\<lparr>pf_average_open_price := f64_of_u64 price, pf_net_position := net + q\<rparr>)"
        using flat net' by (simp add: process_fill_def fq zero)
    qed (use flat p price assms(3) in \<open>simp add: pf_ledger_def next_average_def\<close>)
  next
    case adding
    then have ne: "net \<noteq> 0" by auto
    obtain a' where a': "\<bar>net\<bar> * a + \<bar>q\<bar> * uint price = a' * (\<bar>net\<bar> + \<bar>q\<bar>)"
      using whole [OF adding] by (auto simp: dvd_def mult.commute)
    have pos: "\<bar>net\<bar> + \<bar>q\<bar> \<noteq> 0" using ne by linarith
    have na: "next_average net a q (uint price) = a'"
      using adding pos by (auto simp: next_average_def a')
    obtain avg where avg: "add_to_position q (f64_of_u64 price) ?p =
        Some (?p\<lparr>pf_average_open_price := avg\<rparr>)" "f64_int avg a'"
      by (rule add_to_position_whole [of ?p a "f64_of_u64 price" "uint price" P q a'])
        (use p price assms(3) bound q ne a' in simp_all)
    have "a' * (\<bar>net\<bar> + \<bar>q\<bar>) \<le> P * (\<bar>net\<bar> + \<bar>q\<bar>)" and "0 \<le> a' * (\<bar>net\<bar> + \<bar>q\<bar>)"
      unfolding a' [symmetric] using p(3,4) assms(3)
      by (simp_all add: distrib_left mult.commute [of P] add_mono mult_left_mono)
    moreover have "0 < \<bar>net\<bar> + \<bar>q\<bar>" using pos by linarith
    ultimately have range: "0 \<le> a'" "a' \<le> P"
      by (simp_all only: mult_le_cancel_right_pos zero_le_mult_iff) auto
    have total: "r - q * uint price + (net + q) * a' - net * a = r"
      using adding a' by (auto simp: algebra_simps)
    show ?thesis
    proof (rule that)
      show "process_fill side price qty p =
          Some (?p\<lparr>pf_average_open_price := avg, pf_net_position := net + q\<rparr>)"
        using adding ne net' avg(1) by (simp add: process_fill_def fq zero)
    qed (use p avg(2) range total in \<open>simp add: pf_ledger_def na\<close>)
  next
    case reducing
    let ?g = "(if 0 < net then uint price - a else a - uint price) * min \<bar>net\<bar> \<bar>q\<bar>"
    let ?avg = "if \<bar>net\<bar> < \<bar>q\<bar> then f64_of_u64 price else if \<bar>q\<bar> = \<bar>net\<bar> then 0 else pf_average_open_price ?p"
    have red: "reduce_position q (f64_of_u64 price) ?p =
        Some (?p\<lparr>pf_realized_pnl := r + ?g, pf_average_open_price := ?avg\<rparr>)"
      using reduce_position_whole [of ?p a "f64_of_u64 price" "uint price" P q] p price assms(3)
        bound q by (simp only: uint_ge_0 simp_thms)
    have na: "next_average net a q (uint price) =
        (if \<bar>net\<bar> < \<bar>q\<bar> then uint price else if \<bar>q\<bar> = \<bar>net\<bar> then 0 else a)"
      using reducing by (auto simp: next_average_def)
    have total: "r - q * uint price + (net + q) * next_average net a q (uint price) - net * a = r + ?g"
      unfolding na using reducing by (auto simp: algebra_simps abs_if min_def split: if_splits)
    show ?thesis
    proof (rule that)
      show "process_fill side price qty p =
          Some (?p\<lparr>pf_realized_pnl := r + ?g, pf_average_open_price := ?avg, pf_net_position := net + q\<rparr>)"
        using reducing net' red by (simp add: process_fill_def fq zero)
    qed (unfold total, use p price assms(3) in \<open>auto simp: pf_ledger_def na\<close>)
  qed
qed

section \<open>The account of a sequence of fills\<close>

definition fill_volume :: "fill list \<Rightarrow> int" where
  "fill_volume fs = (\<Sum>(_, _, qty)\<leftarrow>fs. uint qty)"

lemma fill_volume_nonneg [simp]: "0 \<le> fill_volume fs"
  unfolding fill_volume_def by (rule sum_list_nonneg) auto

lemma ledger_simps [simp]:
  "ledger_net [] = 0" "ledger_net (f # fs) = fill_signed f + ledger_net fs"
  "ledger_cash [] = 0" "ledger_cash (f # fs) = - fill_signed f * fill_price f + ledger_cash fs"
  "fill_volume [] = 0" "fill_volume ((s, price, qty) # fs) = uint qty + fill_volume fs"
  by (simp_all add: ledger_net_def ledger_cash_def fill_volume_def)

lemma ledger_bounds:
  "\<forall>f \<in> set fs. fill_price f \<le> P \<Longrightarrow>
   \<bar>ledger_net fs\<bar> \<le> fill_volume fs \<and> \<bar>ledger_cash fs\<bar> \<le> fill_volume fs * P"
proof (induction fs)
  case (Cons f fs)
  obtain s price qty where f: "f = (s, price, qty)" by (cases f)
  have q: "\<bar>fill_signed f\<bar> = uint qty" by (simp add: f)
  have "\<bar>fill_signed f * fill_price f\<bar> \<le> uint qty * P"
    using Cons.prems q by (simp add: f abs_mult mult_left_mono)
  moreover have "\<bar>ledger_net fs\<bar> \<le> fill_volume fs" "\<bar>ledger_cash fs\<bar> \<le> fill_volume fs * P"
    using Cons by simp_all
  moreover have "fill_volume (f # fs) = uint qty + fill_volume fs" by (simp add: f)
  ultimately show ?case using q
    unfolding ledger_simps(2,4) by (simp only: distrib_right) linarith
qed simp

lemma portfolio_run_whole:
  assumes "pf_ledger P net a (cash + net * a) p" and "\<bar>net\<bar> \<le> v" "\<bar>cash\<bar> \<le> v * P"
    and "(v + fill_volume fs) * P < 2 ^ 53" "v + fill_volume fs < 2 ^ 53" "P < 2 ^ 53"
    and "\<forall>f \<in> set fs. fill_price f \<le> P" and "whole_averages net a fs"
  shows "\<exists>p' a'. portfolio_run fs p = Some p' \<and>
    pf_ledger P (net + ledger_net fs) a'
      (cash + ledger_cash fs + (net + ledger_net fs) * a') p'"
  using assms
proof (induction fs arbitrary: net a cash p v)
  case Nil
  then show ?case by auto
next
  case (Cons f fs)
  obtain side price qty where f: "f = (side, price, qty)" by (cases f)
  let ?q = "fill_signed f" and ?a = "next_average net a (fill_signed f) (uint price)"
  have a: "0 \<le> a" "a \<le> P" and led: "pf_ledger P net a (cash + net * a) p"
    using Cons.prems(1) by (simp_all add: pf_ledger_def)
  have vol: "fill_volume (f # fs) = uint qty + fill_volume fs" by (simp add: f)
  have up: "(\<bar>net\<bar> + uint qty) * P \<le> (v + fill_volume (f # fs)) * P"
    using Cons.prems(2) a vol fill_volume_nonneg [of fs] by (intro mult_right_mono) linarith+
  have "\<bar>net * a\<bar> \<le> v * P" using Cons.prems(2) a by (simp add: abs_mult mult_mono)
  moreover have vP: "v * P \<le> (v + fill_volume (f # fs)) * P"
    using a vol fill_volume_nonneg [of fs] by (intro mult_right_mono) simp_all
  ultimately have r: "\<bar>cash + net * a\<bar> < 2 * 2 ^ 53"
    using Cons.prems(3,4) by linarith
  have price: "uint price \<le> P" using Cons.prems(7) by (simp add: f)
  have b1: "(\<bar>net\<bar> + uint qty) * P < 2 ^ 53" and b2: "\<bar>net\<bar> + uint qty < 2 ^ 53"
    using up Cons.prems(2,4,5) fill_volume_nonneg [of fs] vol by linarith+
  have whole: "\<bar>net\<bar> + \<bar>?q\<bar> dvd \<bar>net\<bar> * a + \<bar>?q\<bar> * uint price"
    if "net > 0 \<and> ?q > 0 \<or> net < 0 \<and> ?q < 0"
    using Cons.prems(8) that unfolding whole_averages.simps f fill_price.simps by blast
  obtain p1 where run: "process_fill side price qty p = Some p1"
    and led1: "pf_ledger P (net + ?q) ?a (cash + net * a - ?q * uint price + (net + ?q) * ?a - net * a) p1"
    by (rule process_fill_whole [OF led price Cons.prems(6) b1 b2 r, of side])
      (use whole in \<open>simp_all add: f\<close>)
  have r1: "cash + net * a - ?q * uint price + (net + ?q) * ?a - net * a =
      (cash - ?q * uint price) + (net + ?q) * ?a" by simp
  have q: "\<bar>?q\<bar> = uint qty" by (simp add: f)
  have c1: "\<bar>cash - ?q * uint price\<bar> \<le> (v + uint qty) * P"
  proof -
    have "\<bar>?q * uint price\<bar> \<le> uint qty * P" using price q by (simp add: abs_mult mult_left_mono)
    then show ?thesis using Cons.prems(3) by (simp add: distrib_right)
  qed
  have n1: "\<bar>net + ?q\<bar> \<le> v + uint qty" using Cons.prems(2) q by linarith
  have "\<exists>p' a'. portfolio_run fs p1 = Some p' \<and>
    pf_ledger P (net + ?q + ledger_net fs) a'
      (cash - ?q * uint price + ledger_cash fs + (net + ?q + ledger_net fs) * a') p'"
    using Cons.prems(4-8)
    by (intro Cons.IH [OF led1 [unfolded r1] n1 c1]) (simp_all add: f add.assoc)
  then show ?case using run by (simp add: f algebra_simps)
qed

lemma update_market_price_whole:
  assumes "pf_ledger P net a r p" and "uint mark \<le> P" and "P < 2 ^ 53"
    and bound: "\<bar>net\<bar> * P < 2 ^ 53" "\<bar>net\<bar> < 2 ^ 53"
  shows "update_market_price mark p = Some (p\<lparr>pf_unrealized_pnl := (uint mark - a) * net\<rparr>)"
proof -
  from assms(1) have p: "pf_net_position p = net" "f64_int (pf_average_open_price p) a" "0 \<le> a" "a \<le> P"
    by (simp_all add: pf_ledger_def)
  have mark: "f64_int (f64_of_u64 mark) (uint mark)"
    using assms(2,3) by (intro f64_int_of_u64) linarith
  have d: "\<bar>uint mark - a\<bar> \<le> P" "\<bar>a - uint mark\<bar> \<le> P" using p(3,4) assms(2) uint_ge_0 [of mark] by linarith+
  have n: "f64_int (f64_of_int \<bar>net\<bar>) \<bar>net\<bar>" using bound(2) by (intro f64_int_of_int) simp
  note m = mult_le_bound [OF d(1) _ bound(1)] mult_le_bound [OF d(2) _ bound(1)]
  have up: "f64_int ((f64_of_u64 mark - pf_average_open_price p) * f64_of_int \<bar>net\<bar>) ((uint mark - a) * \<bar>net\<bar>)"
    using m(1) d assms(3) by (intro f64_int_mul f64_int_sub mark p(2) n) (simp_all add: mult.commute)
  have dn: "f64_int ((pf_average_open_price p - f64_of_u64 mark) * f64_of_int \<bar>net\<bar>) ((a - uint mark) * \<bar>net\<bar>)"
    using m(2) d assms(3) by (intro f64_int_mul f64_int_sub mark p(2) n) (simp_all add: mult.commute)
  show ?thesis
    using f64_int_to_i64 [OF up] f64_int_to_i64 [OF dn] bound(2)
    by (cases net "0 :: int" rule: linorder_cases)
      (simp_all add: update_market_price_def Let_def p(1) algebra_simps)
qed

text \<open>
  (C8) The account is exact: for fills whose average prices stay whole numbers and whose
  volume times price stays below \<open>2 ^ 53\<close>, no step overflows, the position is the signed sum
  of the fills, and after marking to market the total profit is the cash received and paid
  plus the value of the position at the mark, in exact integers.
\<close>

theorem portfolio_accounts_exactly:
  assumes "whole_averages 0 0 fs" and "\<forall>f \<in> set fs. fill_price f \<le> P" and "uint mark \<le> P"
    and "fill_volume fs * P < 2 ^ 53" and "fill_volume fs < 2 ^ 53" and "P < 2 ^ 53"
  shows "\<exists>p p'. portfolio_run fs portfolio_new = Some p \<and> pf_net_position p = ledger_net fs \<and>
    update_market_price mark p = Some p' \<and>
    get_total_pnl p' = Some (ledger_cash fs + ledger_net fs * uint mark)"
proof -
  have P: "0 \<le> P" using assms(3) uint_ge_0 [of mark] by linarith
  then have "pf_ledger P 0 0 (0 + 0 * 0) portfolio_new"
    by (simp add: pf_ledger_def portfolio_new_def)
  from portfolio_run_whole [OF this, of 0 fs] assms obtain p a where
    run: "portfolio_run fs portfolio_new = Some p" and
    led: "pf_ledger P (ledger_net fs) a (ledger_cash fs + ledger_net fs * a) p" by auto
  have n: "\<bar>ledger_net fs\<bar> \<le> fill_volume fs" and c: "\<bar>ledger_cash fs\<bar> \<le> fill_volume fs * P"
    using ledger_bounds assms(2) by blast+
  have nP: "\<bar>ledger_net fs\<bar> * P \<le> fill_volume fs * P" using n P by (rule mult_right_mono)
  then have upd: "update_market_price mark p =
      Some (p\<lparr>pf_unrealized_pnl := (uint mark - a) * ledger_net fs\<rparr>)"
    using n assms by (intro update_market_price_whole [OF led]) linarith+
  have "\<bar>ledger_net fs * uint mark\<bar> \<le> \<bar>ledger_net fs\<bar> * P"
    using assms(3) by (simp add: abs_mult mult_left_mono)
  then have "\<bar>ledger_cash fs + ledger_net fs * uint mark\<bar> < 2 ^ 62"
    using c nP assms(4) by simp
  then have "get_total_pnl (p\<lparr>pf_unrealized_pnl := (uint mark - a) * ledger_net fs\<rparr>) =
      Some (ledger_cash fs + ledger_net fs * uint mark)"
    using led by (simp add: get_total_pnl_def pf_ledger_def algebra_simps)
  with run upd led show ?thesis by (auto simp: pf_ledger_def)
qed

theorem portfolio_accounts_exactly_witness:
  "\<exists>p p'. portfolio_run [(Buy, 100, 10), (Buy, 110, 10), (Sell, 120, 5), (Sell, 90, 30)]
       portfolio_new = Some p \<and> pf_net_position p = - 15 \<and>
     update_market_price 95 p = Some p' \<and> get_total_pnl p' = Some (- 225)"
proof -
  have "whole_averages 0 0 [(Buy, 100, 10), (Buy, 110, 10), (Sell, 120, 5), (Sell, 90, 30)]"
    by (simp add: next_average_def)
  from portfolio_accounts_exactly [OF this, of 200 95] show ?thesis by simp
qed

section \<open>What a fill leaves alone\<close>

lemma process_fill_frame:
  "process_fill side price qty p = Some p' \<Longrightarrow>
   pf_unrealized_pnl p' = pf_unrealized_pnl p \<and>
   pf_gross_notional p' = pf_gross_notional p + qty * price"
  by (auto simp: process_fill_def add_to_position_def reduce_position_def Let_def
      split: bind_splits if_splits)

lemma gross_notional_wraps:
  "portfolio_run fs p = Some p' \<Longrightarrow>
   pf_gross_notional p' = pf_gross_notional p + (\<Sum>(_, price, qty)\<leftarrow>fs. qty * price)"
proof (induction fs arbitrary: p)
  case (Cons f fs)
  obtain s price qty where f: "f = (s, price, qty)" by (cases f)
  from Cons.prems obtain p1 where "process_fill s price qty p = Some p1" "portfolio_run fs p1 = Some p'"
    by (auto simp: f split: bind_splits)
  with Cons.IH process_fill_frame [of s price qty p p1] show ?case by (simp add: f)
qed simp

text \<open>
  A fill does not refresh the unrealized profit: after a position has been marked and
  then closed at the mark, the total reports the profit twice, until the next market update.
\<close>

lemma closing_fill_counts_twice:
  assumes "uint price \<le> P" and "uint mark \<le> P" and "2 * uint qty * P < 2 ^ 53"
    and "0 < uint qty" "2 * uint qty < 2 ^ 53" and "P < 2 ^ 53"
  shows "\<exists>p1 p2 p3. process_fill Buy price qty portfolio_new = Some p1 \<and>
    update_market_price mark p1 = Some p2 \<and> process_fill Sell mark qty p2 = Some p3 \<and>
    pf_net_position p3 = 0 \<and> pf_realized_pnl p3 = (uint mark - uint price) * uint qty \<and>
    get_total_pnl p3 = Some (2 * ((uint mark - uint price) * uint qty))"
proof -
  let ?gain = "(uint mark - uint price) * uint qty"
  have P: "0 \<le> P" using assms(1) uint_ge_0 [of price] by linarith
  have half: "uint qty * P < 2 ^ 53" using assms(3) mult_nonneg_nonneg [OF uint_ge_0 [of qty] P] by linarith
  have new: "pf_ledger P 0 0 0 portfolio_new" using P by (simp add: pf_ledger_def portfolio_new_def)
  obtain p1 where p1: "process_fill Buy price qty portfolio_new = Some p1"
    and led1: "pf_ledger P (uint qty) (uint price) 0 p1"
    by (rule process_fill_whole [OF new assms(1,6), of qty Buy])
      (use assms half in \<open>simp_all add: next_average_def\<close>)
  let ?p2 = "p1\<lparr>pf_unrealized_pnl := ?gain\<rparr>"
  have p2: "update_market_price mark p1 = Some ?p2"
    using update_market_price_whole [OF led1 assms(2,6)] half assms(5) by simp
  have led2: "pf_ledger P (uint qty) (uint price) 0 ?p2" using led1 by (simp add: pf_ledger_def)
  have d: "\<bar>uint mark - uint price\<bar> \<le> P"
    using assms(1,2) uint_ge_0 [of mark] uint_ge_0 [of price] by linarith
  have gain: "\<bar>?gain\<bar> < 2 ^ 53" using mult_le_bound [OF d _ half] by (simp add: mult.commute)
  have twice: "(\<bar>uint qty\<bar> + uint qty) * P < 2 ^ 53" "\<bar>uint qty\<bar> + uint qty < 2 ^ 53"
    using assms(3,5) by simp_all
  obtain p3 where p3: "process_fill Sell mark qty ?p2 = Some p3" "pf_ledger P 0 0 ?gain p3"
    by (rule process_fill_whole [OF led2 assms(2,6) twice, of Sell])
      (use assms(4) in \<open>simp_all add: next_average_def algebra_simps\<close>)
  have "pf_unrealized_pnl p3 = ?gain" using process_fill_frame [OF p3(1)] by simp
  moreover have "i64 (g + g) = Some (2 * g)" if "\<bar>g\<bar> < 2 ^ 53" for g :: int
    using that by (auto simp: i64_def in_i64_def)
  from this [OF gain] have "i64 (?gain + ?gain) = Some (2 * ?gain)" .
  ultimately have "get_total_pnl p3 = Some (2 * ?gain)"
    using p3(2) by (simp only: get_total_pnl_def pf_ledger_def)
  with p1 p2 p3 show ?thesis by (auto simp: pf_ledger_def)
qed

theorem closing_fill_counts_twice_witness:
  "\<exists>p1 p2 p3. process_fill Buy 10000 50 portfolio_new = Some p1 \<and>
    update_market_price 10100 p1 = Some p2 \<and> process_fill Sell 10100 50 p2 = Some p3 \<and>
    pf_net_position p3 = 0 \<and> pf_realized_pnl p3 = 5000 \<and> get_total_pnl p3 = Some 10000"
  using closing_fill_counts_twice [of 10000 10100 10100 50] by simp

section \<open>Fractions of a tick are lost\<close>

lemma sell_unit_below_a_tick:
  assumes "f64_val (pf_average_open_price p) = Some v" and "pf_net_position p = n" "1 \<le> n" "n < 2 ^ 53"
    and "uint price < 2 ^ 53" and "v \<le> of_int (uint price)" and "of_int (uint price) - v \<le> 3 / 4"
    and "\<bar>pf_realized_pnl p\<bar> < 2 ^ 53"
  obtains p' where "process_fill Sell price 1 p = Some p'" and "pf_net_position p' = n - 1"
    and "pf_realized_pnl p' = pf_realized_pnl p"
    and "1 < n \<Longrightarrow> f64_val (pf_average_open_price p') = Some v"
proof -
  let ?p = "p\<lparr>pf_gross_notional := pf_gross_notional p + price\<rparr>"
  let ?d = "of_int (uint price) - v"
  let ?x = "(f64_of_u64 price - pf_average_open_price p) * f64_of_int 1"
  let ?avg = "if 1 = n then 0 else pf_average_open_price p"
  have fp: "f64_val (f64_of_u64 price) = Some (of_int (uint price))"
    using f64_int_of_u64 [OF assms(5)] by (simp only: f64_int_def)
  have one: "f64_val (f64_of_int 1) = Some 1" using f64_int_of_int [of 1] by (simp add: f64_int_def)
  have d: "0 \<le> ?d" "?d \<le> 3 / 4" using assms(6,7) by simp_all
  have rep: "f64_rep (3 / 4)"
    unfolding f64_rep_def by (intro exI [of _ 3] exI [of _ "- 2"]) simp
  have r1: "0 \<le> round64 ?d" "round64 ?d \<le> 3 / 4"
    using d round64_nonneg round64_mono [OF d(2)] round64_rep [OF rep] by simp_all
  then have r2: "0 \<le> round64 (round64 ?d)" "round64 (round64 ?d) \<le> 3 / 4"
    using round64_nonneg round64_mono [OF r1(2)] round64_rep [OF rep] by simp_all
  have "f64_val (f64_of_u64 price - pf_average_open_price p) = Some (round64 ?d)"
    using d by (intro f64_val_sub fp assms(1)) simp
  from f64_val_mul [OF this one] r1 have "f64_val ?x = Some (round64 (round64 ?d))" by simp
  moreover have "trunc0 (round64 (round64 ?d)) = 0" using r2 by (simp add: trunc0_def floor_eq_iff)
  ultimately have conv: "f64_to_i64 ?x = Some 0" by (simp add: f64_to_i64_def i64_def in_i64_def)
  have "process_fill Sell price 1 p = Some (?p\<lparr>pf_average_open_price := ?avg, pf_net_position := n - 1\<rparr>)"
    using assms(2-4,8) conv
    by (simp add: process_fill_def reduce_position_def Let_def i64_def in_i64_def abs_less_iff)
  then show ?thesis by (rule that) (use assms(1) in simp_all)
qed

lemma sell_units_below_a_tick:
  assumes "f64_val (pf_average_open_price p) = Some v" and "pf_net_position p = int n" "n < 2 ^ 53"
    and "uint price < 2 ^ 53" and "v \<le> of_int (uint price)" and "of_int (uint price) - v \<le> 3 / 4"
    and "\<bar>pf_realized_pnl p\<bar> < 2 ^ 53"
  shows "\<exists>p'. portfolio_run (replicate n (Sell, price, 1)) p = Some p' \<and> pf_net_position p' = 0 \<and>
    pf_realized_pnl p' = pf_realized_pnl p"
  using assms
proof (induction n arbitrary: p)
  case (Suc n)
  obtain p1 where p1: "process_fill Sell price 1 p = Some p1" "pf_net_position p1 = int (Suc n) - 1"
    "pf_realized_pnl p1 = pf_realized_pnl p"
    "1 < int (Suc n) \<Longrightarrow> f64_val (pf_average_open_price p1) = Some v"
    by (rule sell_unit_below_a_tick [OF Suc.prems(1,2) _ _ Suc.prems(4-7)])
      (use Suc.prems(3) in simp_all)
  show ?case
  proof (cases n)
    case 0
    with p1 show ?thesis by simp
  next
    case (Suc k)
    with Suc.IH [of p1] p1 Suc.prems show ?thesis by simp
  qed
qed simp

text \<open>
  Closing in small pieces loses the profit: after buying two at 100 and one at 101 the
  average is a fraction, and selling the three at 101 one at a time realizes nothing, while
  the cash of the five fills is a profit of two ticks.
\<close>

lemma partial_closes_lose_profit:
  "\<exists>p. portfolio_run ([(Buy, 100, 2), (Buy, 101, 1)] @ replicate 3 (Sell, 101, 1)) portfolio_new = Some p \<and>
     pf_net_position p = 0 \<and> pf_realized_pnl p = 0 \<and>
     ledger_cash ([(Buy, 100, 2), (Buy, 101, 1)] @ replicate 3 (Sell, 101, 1)) = 2"
proof -
  let ?v = "round64 (301 / 3)"
  have new: "pf_ledger 101 0 0 0 portfolio_new" by (simp add: pf_ledger_def portfolio_new_def)
  obtain p1 where p1: "process_fill Buy 100 2 portfolio_new = Some p1"
    and led1: "pf_ledger 101 2 100 0 p1"
    by (rule process_fill_whole [OF new, of 100 2 Buy]) (simp_all add: next_average_def)
  let ?x = "(f64_of_int 2 * pf_average_open_price p1 + f64_of_int 1 * f64_of_u64 101)"
  have avg1: "f64_int (pf_average_open_price p1) 100" using led1 by (simp add: pf_ledger_def)
  have "f64_int ?x (2 * 100 + 1 * 101)"
    by (intro f64_int_add f64_int_mul f64_int_of_int avg1) (use f64_int_of_u64 [of 101] in simp_all)
  then have val: "f64_val (?x / f64_of_int 3) = Some ?v"
    using f64_val_div [of ?x 301 "f64_of_int 3" 3] f64_int_of_int [of 3] by (simp add: f64_int_def)
  let ?p2 = "p1\<lparr>pf_gross_notional := pf_gross_notional p1 + 101,
    pf_average_open_price := ?x / f64_of_int 3, pf_net_position := 3\<rparr>"
  have p2: "process_fill Buy 101 1 p1 = Some ?p2"
    using led1 by (simp add: pf_ledger_def process_fill_def add_to_position_def Let_def)
  have "f64_rep (401 / 4)" "f64_rep 101"
    unfolding f64_rep_def by (intro exI [of _ 401] exI [of _ "- 2"], simp)
      (intro exI [of _ 101] exI [of _ 0], simp)
  from this [THEN round64_rep] have "?v \<le> 101" "101 - ?v \<le> 3 / 4"
    using round64_mono [of "401 / 4" "301 / 3"] round64_mono [of "301 / 3" 101] by simp_all
  with sell_units_below_a_tick [of ?p2 ?v 3 101] val led1 obtain p where
    "portfolio_run (replicate 3 (Sell, 101, 1)) ?p2 = Some p" "pf_net_position p = 0"
    "pf_realized_pnl p = 0"
    by (auto simp: pf_ledger_def)
  with p1 p2 show ?thesis by (simp add: numeral_3_eq_3)
qed

end
