(* ===== verification/Average_Price.thy ===== *)
theory Average_Price
  imports Portfolio
begin

text \<open>
  How accurate the average open price of \<^verbatim>\<open>oms/portfolio.cpp\<close> is when it has to be rounded: a
  position built from flat by fills on one side, each of which costs three roundings.
\<close>

definition value_of :: "fill list \<Rightarrow> int" where
  "value_of fs = sum_list (map (\<lambda>(_, price, qty). uint price * uint qty) fs)"

definition vwap :: "fill list \<Rightarrow> rat" where
  "vwap fs = of_int (value_of fs) / of_int (fill_volume fs)"

lemma volume_value_snoc [simp]:
  "fill_volume (fs @ [(s, price, qty)]) = fill_volume fs + uint qty"
  "value_of (fs @ [(s, price, qty)]) = value_of fs + uint price * uint qty"
  by (simp_all add: fill_volume_def value_of_def)

lemma portfolio_run_snoc:
  "portfolio_run (fs @ [(s, price, qty)]) p = Option.bind (portfolio_run fs p) (process_fill s price qty)"
proof (induction fs arbitrary: p)
  case Nil
  then show ?case by (cases "process_fill s price qty p") simp_all
next
  case (Cons f fs)
  obtain s' price' qty' where f: "f = (s', price', qty')" by (cases f)
  show ?case by (cases "process_fill s' price' qty' p") (simp_all add: f Cons.IH)
qed

section \<open>One fill\<close>

text \<open>
  \<open>average_ok k N V x\<close>: the average \<open>x\<close> is between the smallest and the largest price and
  within \<open>k\<close> roundings of the value \<open>V\<close> over the volume \<open>N\<close>.
\<close>

definition average_ok :: "nat \<Rightarrow> int \<Rightarrow> int \<Rightarrow> f64 \<Rightarrow> bool" where
  "average_ok k N V x \<longleftrightarrow> 0 < N \<and> N < 2 ^ 53 \<and>
     (\<exists>a. f64_val x = Some a \<and> near k a (of_int V / of_int N) \<and> 1 \<le> a \<and> a \<le> 2 ^ 64)"

lemma price_ok:
  assumes "0 < uint price"
  shows "approx 1 64 (f64_of_u64 price) (of_int (uint price))"
    and "\<exists>b. f64_val (f64_of_u64 price) = Some b \<and> near 1 b (of_int (uint price)) \<and> 1 \<le> b \<and> b \<le> 2 ^ 64"
proof -
  show ap: "approx 1 64 (f64_of_u64 price) (of_int (uint price))" by (rule approx_of_u64)
  then obtain b where b: "f64_val (f64_of_u64 price) = Some b" "near 1 b (of_int (uint price))"
    "b = 0 \<or> 1 \<le> b" "b \<le> 2 ^ 64" by (auto simp: approx_def)
  have "0 < (of_int (uint price) :: rat)" using assms by (simp only: of_int_0_less_iff)
  then have "b \<noteq> 0" using b(2) by (auto simp: near_def)
  with b show "\<exists>b. f64_val (f64_of_u64 price) = Some b \<and> near 1 b (of_int (uint price)) \<and> 1 \<le> b \<and> b \<le> 2 ^ 64"
    by blast
qed

lemma small_int_le: "0 < i \<Longrightarrow> i < 2 ^ 53 \<Longrightarrow> (of_int i :: rat) \<le> 2 ^ 53"
proof -
  assume "0 < i" "i < 2 ^ 53"
  then have "(of_int i :: rat) \<le> of_int (2 ^ 53)" by (simp only: of_int_le_iff less_imp_le)
  then show ?thesis by simp
qed

lemma round64_scaled64: "0 < i \<Longrightarrow> i < 2 ^ 53 \<Longrightarrow> round64 (of_int i * 2 ^ 64) = of_int i * 2 ^ 64"
  using round64_rep [OF f64_rep_scaled [of i 64]] by simp

lemma product_rounded:
  assumes i: "0 < i" "i < 2 ^ 53" and a: "f64_val x = Some a" "near k a y" "1 \<le> a" "a \<le> 2 ^ 64"
  obtains t where "f64_val (f64_of_int i * x) = Some t" and "near (Suc k) t (of_int i * y)"
    and "of_int i \<le> t" and "t \<le> of_int i * 2 ^ 64"
proof -
  have v: "f64_val (f64_of_int i) = Some (of_int i)" using f64_int_of_int [of i] i by (simp add: f64_int_def)
  have i0: "0 < (of_int i :: rat)" using i(1) by (simp only: of_int_0_less_iff)
  have lo: "of_int i \<le> of_int i * a" using i0 a(3) by simp
  have hi: "of_int i * a \<le> of_int i * 2 ^ 64" using i0 a(4) by (intro mult_left_mono) simp_all
  have "of_int i * 2 ^ 64 \<le> (2 ^ 53 * 2 ^ 64 :: rat)" using small_int_le [OF i] by (intro mult_right_mono) simp_all
  with hi have "of_int i * a \<le> 2 ^ 117" by simp
  then have "\<bar>of_int i * a\<bar> \<le> 2 ^ 1023" using pow2_le_1023 [of 117] i0 a(3) by (simp add: abs_mult)
  from f64_val_mul [OF v a(1) this] have t: "f64_val (f64_of_int i * x) = Some (round64 (of_int i * a))" .
  have "near (0 + k) (of_int i * a) (of_int i * y)" using i0 by (intro near_mult near_refl a(2)) simp
  moreover have "of_int i * a = 0 \<or> 1 \<le> of_int i * a"
    using lo i(1) order_trans [of 1 "of_int i :: rat" "of_int i * a"] by simp
  ultimately have n: "near (Suc k) (round64 (of_int i * a)) (of_int i * y)"
    using near_round normal_if_ge_1 by fastforce
  show thesis
  proof (rule that [OF t n])
    show "of_int i \<le> round64 (of_int i * a)"
      using round64_mono [OF lo] round64_int [of i] i by simp
    show "round64 (of_int i * a) \<le> of_int i * 2 ^ 64"
      using round64_mono [OF hi] by (simp only: round64_scaled64 [OF i])
  qed
qed

lemma add_average_ok:
  assumes avg: "average_ok (Suc k) N V x" and q: "0 < q" "N + q < 2 ^ 53" and p: "0 < uint price"
  shows "average_ok (Suc k + 3) (N + q) (V + uint price * q)
    ((f64_of_int N * x + f64_of_int q * f64_of_u64 price) / f64_of_int (N + q))"
proof -
  let ?V = "of_int V :: rat" and ?N = "of_int N :: rat" and ?q = "of_int q :: rat" and ?p = "of_int (uint price) :: rat"
  obtain a where N: "0 < N" "N < 2 ^ 53" and a: "f64_val x = Some a" "near (Suc k) a (?V / ?N)" "1 \<le> a" "a \<le> 2 ^ 64"
    using avg by (auto simp: average_ok_def)
  obtain b where b: "f64_val (f64_of_u64 price) = Some b" "near 1 b ?p" "1 \<le> b" "b \<le> 2 ^ 64"
    using price_ok(2) [OF p] by blast
  have q53: "q < 2 ^ 53" and S: "0 < N + q" using q N by linarith+
  obtain t where t: "f64_val (f64_of_int N * x) = Some t" "near (Suc (Suc k)) t (?N * (?V / ?N))"
    "?N \<le> t" "t \<le> ?N * 2 ^ 64" by (rule product_rounded [OF N a])
  obtain u where u: "f64_val (f64_of_int q * f64_of_u64 price) = Some u" "near (Suc 1) u (?q * ?p)"
    "?q \<le> u" "u \<le> ?q * 2 ^ 64" by (rule product_rounded [OF q(1) q53 b])
  have N0: "0 < ?N" "0 < ?q" using N q(1) by (simp_all only: of_int_0_less_iff)
  have NV: "?N * (?V / ?N) = ?V" using N0 by simp
  have sum: "near (Suc (Suc k)) (t + u) (?V + ?q * ?p)"
    using t(2) near_mono [OF u(2), of "Suc (Suc k)"] unfolding NV by (intro near_add) simp_all
  have S': "(of_int (N + q) :: rat) = ?N + ?q" by simp
  have lo: "of_int (N + q) \<le> t + u" using t(3) u(3) by simp
  have hi: "t + u \<le> of_int (N + q) * 2 ^ 64" using t(4) u(4) by (simp add: distrib_right)
  have S1: "(1 :: rat) \<le> of_int (N + q)" using S by (simp only: of_int_1_le_iff)
  have "of_int (N + q) * 2 ^ 64 \<le> (2 ^ 53 * 2 ^ 64 :: rat)"
    using small_int_le [OF S q(2)] by (intro mult_right_mono) simp_all
  with hi have "t + u \<le> 2 ^ 117" by simp
  then have big: "\<bar>t + u\<bar> \<le> 2 ^ 1023" using pow2_le_1023 [of 117] lo S1 by (simp add: abs_of_nonneg)
  let ?t = "round64 (t + u)"
  have tv: "f64_val (f64_of_int N * x + f64_of_int q * f64_of_u64 price) = Some ?t"
    by (rule f64_val_add [OF t(1) u(1) big])
  have tn: "near (Suc (Suc (Suc k))) ?t (?V + ?q * ?p)"
    using sum lo S1 by (intro near_round normal_if_ge_1) linarith+
  have tlo: "of_int (N + q) \<le> ?t"
    using round64_mono [OF lo] round64_int [of "N + q"] S q(2) by (simp only: abs_of_pos)
  have thi: "?t \<le> of_int (N + q) * 2 ^ 64"
    using round64_mono [OF hi] by (simp only: round64_scaled64 [OF S q(2)])
  have sv: "f64_val (f64_of_int (N + q)) = Some (of_int (N + q))"
    using f64_int_of_int [of "N + q"] S q(2) by (simp only: f64_int_def abs_of_pos)
  have S0: "0 < (of_int (N + q) :: rat)" using S1 by linarith
  let ?d = "?t / of_int (N + q)"
  have d: "1 \<le> ?d" "?d \<le> 2 ^ 64" using tlo thi S0 by (simp_all only: le_divide_eq_1_pos divide_le_eq if_True)
    (simp_all add: mult.commute)
  have dv: "f64_val ((f64_of_int N * x + f64_of_int q * f64_of_u64 price) / f64_of_int (N + q)) = Some (round64 ?d)"
    using d pow2_le_1023 [OF _ d(2)] S0 by (intro f64_val_div [OF tv sv]) (simp_all add: abs_of_nonneg)
  have "near (Suc (Suc (Suc k)) + 0) ?d ((?V + ?q * ?p) / of_int (N + q))"
    using S0 by (intro near_div [OF tn near_refl]) simp_all
  then have dn: "near (Suc k + 3) (round64 ?d) ((?V + ?q * ?p) / of_int (N + q))"
    using near_round [of "Suc (Suc (Suc k))" ?d] d(1) normal_if_ge_1 [of ?d] by (simp add: eval_nat_numeral)
  have r: "1 \<le> round64 ?d" "round64 ?d \<le> 2 ^ 64"
    using round64_mono [OF d(1)] round64_mono [OF d(2)] round64_pow2 [of 0] by (simp_all only: round64_pow2 power_0)
  have "(of_int (V + uint price * q) :: rat) = ?V + ?q * ?p" by simp
  with dv dn r S q(2) show ?thesis unfolding average_ok_def by metis
qed

section \<open>A series of fills on one side\<close>

definition side_sign :: "Side \<Rightarrow> int" where "side_sign s = (if s = Buy then 1 else - 1)"

lemma opening_fill:
  assumes "pf_net_position p = 0" and "0 < uint price" and "0 < uint qty" and "uint qty < 2 ^ 53"
  shows "\<exists>p'. process_fill s price qty p = Some p' \<and> pf_net_position p' = side_sign s * uint qty \<and>
    average_ok (Suc 0) (uint qty) (uint price * uint qty) (pf_average_open_price p')"
proof -
  have q: "sint qty = uint qty" by (rule sint_small [OF assms(4)])
  have i: "i64 (uint qty) = Some (uint qty)" "i64 (- uint qty) = Some (- uint qty)"
    using assms(3,4) by (intro i64_53; simp)+
  have "0 < (of_int (uint qty) :: rat)" using assms(3) by (simp only: of_int_0_less_iff)
  then have "of_int (uint price * uint qty) / of_int (uint qty) = (of_int (uint price) :: rat)" by simp
  then have "average_ok (Suc 0) (uint qty) (uint price * uint qty) (f64_of_u64 price)"
    using price_ok(2) [OF assms(2)] assms(3,4) by (simp only: average_ok_def One_nat_def simp_thms)
  then show ?thesis
    using assms(1) q i by (cases s) (simp_all add: process_fill_def side_sign_def)
qed

lemma adding_fill:
  assumes p: "pf_net_position p = side_sign s * N" "average_ok (Suc k) N V (pf_average_open_price p)"
    and q: "0 < uint price" "0 < uint qty" "N + uint qty < 2 ^ 53"
  shows "\<exists>p'. process_fill s price qty p = Some p' \<and> pf_net_position p' = side_sign s * (N + uint qty) \<and>
    average_ok (Suc k + 3) (N + uint qty) (V + uint price * uint qty) (pf_average_open_price p')"
proof -
  have N: "0 < N" "N < 2 ^ 53" using p(2) by (simp_all add: average_ok_def)
  have sq: "sint qty = uint qty" using N q by (intro sint_small) linarith
  have i: "i64 N = Some N" "i64 (uint qty) = Some (uint qty)" "i64 (- uint qty) = Some (- uint qty)"
    "i64 (N + uint qty) = Some (N + uint qty)" "i64 (- N - uint qty) = Some (- N - uint qty)"
    "i64 (- uint qty - N) = Some (- uint qty - N)"
    using N q by (intro i64_53; linarith)+
  note avg = add_average_ok [OF p(2) q(2,3,1)]
  show ?thesis
    using p(1) sq i N q(2) avg
    by (cases s) (simp_all add: process_fill_def side_sign_def add_to_position_def Let_def)
qed

lemma one_sided_run:
  assumes "fs \<noteq> []" and "\<forall>(sd, price, qty) \<in> set fs. sd = s \<and> 0 < uint price \<and> 0 < uint qty"
    and "fill_volume fs < 2 ^ 53"
  shows "\<exists>p. portfolio_run fs portfolio_new = Some p \<and> pf_net_position p = side_sign s * fill_volume fs \<and>
    average_ok (Suc (3 * (length fs - 1))) (fill_volume fs) (value_of fs) (pf_average_open_price p)"
  using assms
proof (induction fs rule: rev_induct)
  case (snoc f fs)
  obtain sd price qty where f: "f = (sd, price, qty)" by (cases f)
  have sd: "sd = s" and pos: "0 < uint price" "0 < uint qty" using snoc.prems(2) by (simp_all add: f)
  have vol: "fill_volume fs + uint qty < 2 ^ 53" using snoc.prems(3) by (simp add: f)
  show ?case
  proof (cases "fs = []")
    case True
    then show ?thesis
      using opening_fill [of portfolio_new price qty s] pos vol
      by (auto simp: f sd portfolio_new_def value_of_def bind_eq_Some_conv)
  next
    case False
    have "fill_volume fs < 2 ^ 53" using vol pos(2) by linarith
    with snoc.IH False snoc.prems(2) obtain p where p: "portfolio_run fs portfolio_new = Some p"
      "pf_net_position p = side_sign s * fill_volume fs"
      "average_ok (Suc (3 * (length fs - 1))) (fill_volume fs) (value_of fs) (pf_average_open_price p)"
      by auto
    have k: "Suc (3 * (length fs - 1)) + 3 = Suc (3 * (length (fs @ [f]) - 1))"
      using False by (cases fs) simp_all
    obtain p' where "process_fill s price qty p = Some p'"
      and "pf_net_position p' = side_sign s * (fill_volume fs + uint qty)"
      and "average_ok (Suc (3 * (length (fs @ [f]) - 1))) (fill_volume fs + uint qty)
        (value_of fs + uint price * uint qty) (pf_average_open_price p')"
      using adding_fill [OF p(2,3) pos vol] unfolding k by blast
    then show ?thesis unfolding f sd volume_value_snoc portfolio_run_snoc p(1) by simp
  qed
qed simp

lemma power_error: "2 * of_nat k * e \<le> 1 \<Longrightarrow> 0 \<le> e \<Longrightarrow> (1 + e) ^ k \<le> 1 + 2 * of_nat k * (e :: rat)"
proof (induction k)
  case (Suc k)
  have le: "2 * of_nat k * e \<le> 1" using Suc.prems by (simp add: algebra_simps)
  have "(1 + e) ^ Suc k \<le> (1 + 2 * of_nat k * e) * (1 + e)"
    using Suc.IH [OF le Suc.prems(2)] Suc.prems(2) by (simp add: mult.commute mult_left_mono)
  also have "\<dots> \<le> 1 + 2 * of_nat k * e + e + 1 * e"
    using mult_right_mono [OF le Suc.prems(2)] by (simp add: algebra_simps)
  finally show ?case by (simp add: algebra_simps)
qed simp

text \<open>
  (C22) The average open price is accurate: after at most \<open>2 ^ 40\<close> fills on one side of a flat
  portfolio, whose volumes add up to less than \<open>2 ^ 53\<close>, nothing has overflowed, the position is
  the total volume, and the average price differs from the exact volume-weighted average of the
  fills by at most the relative error \<open>3 n / 2 ^ 51\<close> after \<open>n\<close> fills.
\<close>

theorem average_price_accurate:
  assumes "fs \<noteq> []" and "\<forall>(sd, price, qty) \<in> set fs. sd = s \<and> 0 < uint price \<and> 0 < uint qty"
    and "fill_volume fs < 2 ^ 53" and "length fs \<le> 2 ^ 40"
  shows "\<exists>p v. portfolio_run fs portfolio_new = Some p \<and> \<bar>pf_net_position p\<bar> = fill_volume fs \<and>
    f64_val (pf_average_open_price p) = Some v \<and>
    \<bar>v - vwap fs\<bar> \<le> of_nat (3 * length fs) / 2 ^ 51 * vwap fs"
proof -
  let ?k = "3 * length fs"
  obtain p where p: "portfolio_run fs portfolio_new = Some p" "pf_net_position p = side_sign s * fill_volume fs"
    "average_ok (Suc (3 * (length fs - 1))) (fill_volume fs) (value_of fs) (pf_average_open_price p)"
    using one_sided_run [OF assms(1-3)] by blast
  then obtain v where v: "f64_val (pf_average_open_price p) = Some v" "near (Suc (3 * (length fs - 1))) v (vwap fs)"
    by (auto simp: average_ok_def vwap_def)
  have "Suc (3 * (length fs - 1)) \<le> ?k" using assms(1) by (cases fs) simp_all
  with v(2) have n: "near ?k v (vwap fs)" by (rule near_mono)
  have k: "(of_nat ?k :: rat) \<le> of_nat (3 * 2 ^ 40)" using assms(4) by (simp only: of_nat_le_iff)
  have "2 * of_nat ?k * (1 / 2 ^ 52) \<le> (1 :: rat)" using k by simp
  from power_error [OF this] have pw: "(1 + 1 / 2 ^ 52) ^ ?k \<le> 1 + of_nat ?k / (2 ^ 51 :: rat)" by simp
  have "\<bar>v - vwap fs\<bar> \<le> of_nat ?k / 2 ^ 51 * vwap fs" by (rule near_error [OF n pw]) simp
  with p(1,2) v(1) show ?thesis by (auto simp: side_sign_def abs_mult)
qed

theorem average_price_accurate_witness:
  "\<exists>p v. portfolio_run [(Buy, 100, 3), (Buy, 101, 4)] portfolio_new = Some p \<and>
     f64_val (pf_average_open_price p) = Some v \<and> \<bar>v - 704 / 7\<bar> \<le> 6 / 2 ^ 51 * (704 / 7)"
  using average_price_accurate [of "[(Buy, 100, 3), (Buy, 101, 4)]" Buy]
  by (simp add: fill_volume_def vwap_def value_of_def) blast

end
