(* ===== verification/Signal_Engine.thy ===== *)
theory Signal_Engine
  imports Float64
begin

text \<open>
  \<^verbatim>\<open>quant/micro_price.cpp\<close>: the volume-weighted micro price and the order-flow imbalance
  between consecutive states of the top of the book, both in \<open>double\<close>.
\<close>

record BookState =
  bs_best_bid :: Price
  bs_bid_volume :: Quantity
  bs_best_ask :: Price
  bs_ask_volume :: Quantity

record SignalEngine =
  se_prev_state :: BookState
  se_has_prev :: bool

definition signal_engine_new :: SignalEngine where
  "signal_engine_new = \<lparr>se_prev_state =
     \<lparr>bs_best_bid = 0, bs_bid_volume = 0, bs_best_ask = 0, bs_ask_volume = 0\<rparr>, se_has_prev = False\<rparr>"

definition calculate_micro_price :: "BookState \<Rightarrow> f64" where
  "calculate_micro_price current =
     (if bs_bid_volume current + bs_ask_volume current = 0 then 0
      else let p_bid = f64_of_u64 (bs_best_bid current);
               p_ask = f64_of_u64 (bs_best_ask current);
               v_bid = f64_of_u64 (bs_bid_volume current);
               v_ask = f64_of_u64 (bs_ask_volume current)
           in (v_bid * p_ask + v_ask * p_bid) / (v_bid + v_ask))"

definition update_and_get_ofi :: "BookState \<Rightarrow> SignalEngine \<Rightarrow> f64 \<times> SignalEngine" where
  "update_and_get_ofi current e =
     (if \<not> se_has_prev e then (0, e\<lparr>se_prev_state := current, se_has_prev := True\<rparr>)
      else let prev = se_prev_state e; ofi = 0;
               ofi = (if bs_best_bid current > bs_best_bid prev
                      then ofi + f64_of_u64 (bs_bid_volume current)
                      else if bs_best_bid current = bs_best_bid prev
                      then ofi + (f64_of_u64 (bs_bid_volume current) - f64_of_u64 (bs_bid_volume prev))
                      else ofi - f64_of_u64 (bs_bid_volume prev));
               ofi = (if bs_best_ask current < bs_best_ask prev
                      then ofi - f64_of_u64 (bs_ask_volume current)
                      else if bs_best_ask current = bs_best_ask prev
                      then ofi - (f64_of_u64 (bs_ask_volume current) - f64_of_u64 (bs_ask_volume prev))
                      else ofi + f64_of_u64 (bs_ask_volume prev))
           in (ofi, e\<lparr>se_prev_state := current\<rparr>))"

fun ofi_run :: "BookState list \<Rightarrow> SignalEngine \<Rightarrow> f64 list" where
  "ofi_run [] e = []"
| "ofi_run (b # bs) e = (case update_and_get_ofi b e of (x, e') \<Rightarrow> x # ofi_run bs e')"

section \<open>The exact quantities\<close>

definition micro_exact :: "BookState \<Rightarrow> rat" where
  "micro_exact b =
     of_int (uint (bs_bid_volume b) * uint (bs_best_ask b) + uint (bs_ask_volume b) * uint (bs_best_bid b)) /
     of_int (uint (bs_bid_volume b) + uint (bs_ask_volume b))"

text \<open>The order-flow imbalance as an integer: what arrived less what left, bid minus ask.\<close>

definition ofi_exact :: "BookState \<Rightarrow> BookState \<Rightarrow> int" where
  "ofi_exact prev cur =
     (if bs_best_bid prev \<le> bs_best_bid cur then uint (bs_bid_volume cur) else 0) -
     (if bs_best_bid cur \<le> bs_best_bid prev then uint (bs_bid_volume prev) else 0) -
     (if bs_best_ask cur \<le> bs_best_ask prev then uint (bs_ask_volume cur) else 0) +
     (if bs_best_ask prev \<le> bs_best_ask cur then uint (bs_ask_volume prev) else 0)"

section \<open>The micro price\<close>

lemma volume_sum_zero_iff:
  "uint a + uint b < 2 ^ 64 \<Longrightarrow> (a :: u64) + b = 0 \<longleftrightarrow> uint a + uint b = 0"
  by (simp add: word_uint_eq_iff uint_word_ariths)

text \<open>What the guard against an empty book tests, modulo \<open>2 ^ 64\<close>.\<close>

lemma volume_guard_iff: "v + w = 0 \<longleftrightarrow> uint v + uint w \<in> {0, 2 ^ 64}" for v w :: u64
proof -
  let ?s = "uint v + uint w"
  have b: "0 \<le> ?s" "?s < 2 ^ 64 + 2 ^ 64"
    using uint_lt2p [of v] uint_lt2p [of w] by simp_all
  have "v + w = 0 \<longleftrightarrow> ?s mod 2 ^ 64 = 0" by (simp add: word_uint_eq_iff uint_word_ariths)
  also have "\<dots> \<longleftrightarrow> ?s \<in> {0, 2 ^ 64}"
  proof (cases "?s < 2 ^ 64")
    case True
    then show ?thesis using mod_pos_pos_trivial [OF b(1) True] by auto
  next
    case False
    then have "?s mod 2 ^ 64 = (?s - 2 ^ 64) mod 2 ^ 64" by (simp only: minus_mod_self2)
    also have "\<dots> = ?s - 2 ^ 64" using b(2) False by (intro mod_pos_pos_trivial) linarith+
    finally show ?thesis using False by auto
  qed
  finally show ?thesis .
qed

lemma micro_exact_between:
  assumes "bs_best_bid b \<le> bs_best_ask b" and "0 < uint (bs_bid_volume b) + uint (bs_ask_volume b)"
  shows "of_int (uint (bs_best_bid b)) \<le> micro_exact b" and "micro_exact b \<le> of_int (uint (bs_best_ask b))"
proof -
  let ?vb = "uint (bs_bid_volume b)" and ?va = "uint (bs_ask_volume b)"
  let ?pb = "uint (bs_best_bid b)" and ?pa = "uint (bs_best_ask b)"
  have le: "?pb \<le> ?pa" using assms(1) by (simp add: word_le_def)
  have "?pb * (?vb + ?va) \<le> ?vb * ?pa + ?va * ?pb" "?vb * ?pa + ?va * ?pb \<le> ?pa * (?vb + ?va)"
    using le by (simp_all add: algebra_simps mult_left_mono mult_right_mono)
  then have "of_int (?pb * (?vb + ?va)) \<le> (of_int (?vb * ?pa + ?va * ?pb) :: rat)"
    "of_int (?vb * ?pa + ?va * ?pb) \<le> (of_int (?pa * (?vb + ?va)) :: rat)"
    by (simp_all only: of_int_le_iff)
  moreover have "0 < (of_int (?vb + ?va) :: rat)" using assms(2) by (simp only: of_int_0_less_iff)
  ultimately show "of_int ?pb \<le> micro_exact b" "micro_exact b \<le> of_int ?pa"
    unfolding micro_exact_def by (simp_all only: pos_le_divide_eq pos_divide_le_eq of_int_mult)
qed

lemma micro_price_small:
  assumes "uint (bs_best_bid b) \<le> P" "uint (bs_best_ask b) \<le> P"
    and "0 < uint (bs_bid_volume b) + uint (bs_ask_volume b)"
    and "(uint (bs_bid_volume b) + uint (bs_ask_volume b)) * P < 2 ^ 53"
    and "uint (bs_bid_volume b) + uint (bs_ask_volume b) < 2 ^ 53" and "P < 2 ^ 53"
  shows "f64_val (calculate_micro_price b) = Some (round64 (micro_exact b))"
proof -
  let ?vb = "uint (bs_bid_volume b)" and ?va = "uint (bs_ask_volume b)"
  let ?pb = "uint (bs_best_bid b)" and ?pa = "uint (bs_best_ask b)"
  let ?fvb = "f64_of_u64 (bs_bid_volume b)" and ?fva = "f64_of_u64 (bs_ask_volume b)"
  let ?fpb = "f64_of_u64 (bs_best_bid b)" and ?fpa = "f64_of_u64 (bs_best_ask b)"
  note ge = uint_ge_0 [of "bs_bid_volume b"] uint_ge_0 [of "bs_ask_volume b"]
    uint_ge_0 [of "bs_best_bid b"] uint_ge_0 [of "bs_best_ask b"]
  have conv: "f64_int ?fvb ?vb" "f64_int ?fva ?va" "f64_int ?fpb ?pb" "f64_int ?fpa ?pa"
    using assms ge by (intro f64_int_of_u64; linarith)+
  have le: "?vb * ?pa \<le> ?vb * P" "?va * ?pb \<le> ?va * P"
    using assms(1,2) ge by (simp_all add: mult_left_mono)
  have nonneg: "0 \<le> ?vb * ?pa" "0 \<le> ?va * ?pb" by simp_all
  have dist: "?vb * P + ?va * P < 2 ^ 53" using assms(4) by (simp only: distrib_right)
  have num: "f64_int (?fvb * ?fpa + ?fva * ?fpb) (?vb * ?pa + ?va * ?pb)"
    using le nonneg dist by (intro f64_int_add f64_int_mul conv; linarith)
  have den: "f64_int (?fvb + ?fva) (?vb + ?va)"
    using assms(5) ge by (intro f64_int_add conv) linarith
  have nz: "bs_bid_volume b + bs_ask_volume b \<noteq> 0"
    using volume_sum_zero_iff [of "bs_bid_volume b" "bs_ask_volume b"] assms(3,5) by simp
  have "0 \<le> micro_exact b"
    unfolding micro_exact_def using nonneg ge
    by (intro divide_nonneg_nonneg) (simp_all only: of_int_0_le_iff add_nonneg_nonneg)
  moreover have "micro_exact b \<le> of_int (?vb * ?pa + ?va * ?pb)"
  proof -
    have "(?vb * ?pa + ?va * ?pb) * 1 \<le> (?vb * ?pa + ?va * ?pb) * (?vb + ?va)"
      using assms(3) nonneg by (intro mult_left_mono) linarith+
    then have "of_int ((?vb * ?pa + ?va * ?pb) * 1) \<le>
        (of_int ((?vb * ?pa + ?va * ?pb) * (?vb + ?va)) :: rat)"
      by (simp only: of_int_le_iff)
    then have "of_int (?vb * ?pa + ?va * ?pb) \<le>
        (of_int (?vb * ?pa + ?va * ?pb) * of_int (?vb + ?va) :: rat)"
      by (simp only: of_int_mult of_int_1 mult_1_right)
    moreover have "0 < (of_int (?vb + ?va) :: rat)" using assms(3) by (simp only: of_int_0_less_iff)
    ultimately show ?thesis unfolding micro_exact_def by (simp only: pos_divide_le_eq)
  qed
  moreover have "\<bar>of_int (?vb * ?pa + ?va * ?pb) :: rat\<bar> \<le> 2 ^ 1023"
    using le nonneg dist by (intro int_bound_1023) linarith
  ultimately have small: "\<bar>micro_exact b\<bar> \<le> 2 ^ 1023" by linarith
  have "of_int (?vb + ?va) \<noteq> (0 :: rat)" using assms(3) by (simp only: of_int_eq_0_iff)
  then have "f64_val ((?fvb * ?fpa + ?fva * ?fpb) / (?fvb + ?fva)) = Some (round64 (micro_exact b))"
    using num den small unfolding micro_exact_def f64_int_def by (intro f64_val_div) blast+
  then show ?thesis using nz by (simp add: calculate_micro_price_def Let_def)
qed

text \<open>
  (C28) The micro price is correctly rounded and lies in the spread: while the volume times the
  ask price, the volume and the price are below \<open>2 ^ 53\<close>, the bid is not above the ask and some
  volume is there, the result is the double nearest
  to the exact weighted price, and it is not below the bid and not above the ask.
\<close>

theorem micro_price_in_spread:
  assumes "bs_best_bid b \<le> bs_best_ask b"
    and "0 < uint (bs_bid_volume b) + uint (bs_ask_volume b)"
    and "(uint (bs_bid_volume b) + uint (bs_ask_volume b)) * uint (bs_best_ask b) < 2 ^ 53"
    and "uint (bs_bid_volume b) + uint (bs_ask_volume b) < 2 ^ 53" and "uint (bs_best_ask b) < 2 ^ 53"
  shows "f64_val (calculate_micro_price b) = Some (round64 (micro_exact b)) \<and>
    f64_of_u64 (bs_best_bid b) \<le> calculate_micro_price b \<and>
    calculate_micro_price b \<le> f64_of_u64 (bs_best_ask b)"
proof -
  let ?pb = "uint (bs_best_bid b)" and ?pa = "uint (bs_best_ask b)"
  have le: "?pb \<le> ?pa" using assms(1) by (simp add: word_le_def)
  have val: "f64_val (calculate_micro_price b) = Some (round64 (micro_exact b))"
    by (rule micro_price_small [OF le order_refl assms(2-5)])
  have small: "\<bar>?pb\<bar> < 2 ^ 53" "\<bar>?pa\<bar> < 2 ^ 53" using assms(5) le by simp_all
  have conv: "f64_val (f64_of_u64 (bs_best_bid b)) = Some (of_int ?pb)"
    "f64_val (f64_of_u64 (bs_best_ask b)) = Some (of_int ?pa)"
    using f64_int_of_u64 assms(5) le unfolding f64_int_def by (meson order.strict_trans1)+
  have "of_int ?pb \<le> round64 (micro_exact b)" "round64 (micro_exact b) \<le> of_int ?pa"
    using round64_mono [OF micro_exact_between(1) [OF assms(1,2)]]
      round64_mono [OF micro_exact_between(2) [OF assms(1,2)]] round64_int [OF small(1)]
      round64_int [OF small(2)] by simp_all
  with val conv show ?thesis using f64_le_val by blast
qed

theorem micro_price_in_spread_witness:
  "f64_of_u64 100 \<le> calculate_micro_price
       \<lparr>bs_best_bid = 100, bs_bid_volume = 7, bs_best_ask = 110, bs_ask_volume = 10\<rparr>"
  using micro_price_in_spread
    [of "\<lparr>bs_best_bid = 100, bs_bid_volume = 7, bs_best_ask = 110, bs_ask_volume = 10\<rparr>"] by simp

text \<open>
  The guard against an empty book adds the volumes modulo \<open>2 ^ 64\<close>: when they add up to
  \<open>2 ^ 64\<close> the micro price is reported as 0.
\<close>

lemma micro_price_guard_wraps:
  assumes "uint (bs_bid_volume b) + uint (bs_ask_volume b) = 2 ^ 64"
  shows "calculate_micro_price b = 0"
  using assms by (simp add: calculate_micro_price_def word_uint_eq_iff uint_word_ariths)

theorem micro_price_guard_wraps_witness:
  "calculate_micro_price \<lparr>bs_best_bid = 100, bs_bid_volume = 2 ^ 63, bs_best_ask = 110,
     bs_ask_volume = 2 ^ 63\<rparr> = 0"
  by (rule micro_price_guard_wraps) simp

text \<open>
  (C13) For every book, however large its numbers: the micro price is 0 if the volumes add up to
  0 or to exactly \<open>2 ^ 64\<close>, where the code's guard against an empty book wraps, and is within the
  relative error \<open>2\<^sup>-\<^sup>4\<^sup>9\<close> of the exact volume-weighted price otherwise.
\<close>

theorem micro_price_accurate:
  "if uint (bs_bid_volume b) + uint (bs_ask_volume b) \<in> {0, 2 ^ 64} then calculate_micro_price b = 0
   else \<exists>m. f64_val (calculate_micro_price b) = Some m \<and> \<bar>m - micro_exact b\<bar> \<le> micro_exact b / 2 ^ 49"
proof (cases "uint (bs_bid_volume b) + uint (bs_ask_volume b) \<in> {0, 2 ^ 64}")
  case True
  then have "bs_bid_volume b + bs_ask_volume b = 0" by (simp add: volume_guard_iff)
  then show ?thesis using True by (simp add: calculate_micro_price_def)
next
  case False
  then have nz: "bs_bid_volume b + bs_ask_volume b \<noteq> 0" by (simp add: volume_guard_iff)
  have vol: "0 < uint (bs_bid_volume b) + uint (bs_ask_volume b)"
    using False uint_ge_0 [of "bs_bid_volume b"] uint_ge_0 [of "bs_ask_volume b"]
    unfolding insert_iff by linarith
  have num: "approx 4 129
      (f64_of_u64 (bs_bid_volume b) * f64_of_u64 (bs_best_ask b) +
       f64_of_u64 (bs_ask_volume b) * f64_of_u64 (bs_best_bid b))
      (of_int (uint (bs_bid_volume b)) * of_int (uint (bs_best_ask b)) +
       of_int (uint (bs_ask_volume b)) * of_int (uint (bs_best_bid b)))"
    using approx_add [OF approx_mult [OF approx_of_u64 approx_of_u64]
        approx_mult [OF approx_of_u64 approx_of_u64]]
    by (simp add: numeral_eq_Suc del: of_int_uint)
  have den: "approx 2 65 (f64_of_u64 (bs_bid_volume b) + f64_of_u64 (bs_ask_volume b))
      (of_int (uint (bs_bid_volume b)) + of_int (uint (bs_ask_volume b)))"
    using approx_add [OF approx_of_u64 approx_of_u64]
    by (simp add: numeral_eq_Suc del: of_int_uint)
  have pos: "0 < (of_int (uint (bs_bid_volume b)) + of_int (uint (bs_ask_volume b)) :: rat)"
    using vol by (simp only: of_int_0_less_iff flip: of_int_add)
  obtain m where m: "f64_val (calculate_micro_price b) = Some m" "near 7 m (micro_exact b)"
    by (rule approx_div [OF num den pos])
      (use nz in \<open>simp_all add: calculate_micro_price_def Let_def micro_exact_def del: of_int_uint\<close>)
  have "(1 + 1 / 2 ^ 52 :: rat) ^ 7 \<le> 1 + 1 / 2 ^ 49" by code_simp
  from near_error [OF m(2) this] m(1) False show ?thesis by simp
qed

theorem micro_price_accurate_witness:
  "\<exists>b m. b = \<lparr>bs_best_bid = 2 ^ 60 + 1, bs_bid_volume = 3, bs_best_ask = 2 ^ 60 + 3,
       bs_ask_volume = 2 ^ 62 + 7\<rparr> \<and>
     f64_val (calculate_micro_price b) = Some m \<and> \<bar>m - micro_exact b\<bar> \<le> 2 ^ 12"
proof -
  define b where "b = \<lparr>bs_best_bid = 2 ^ 60 + 1, bs_bid_volume = 3,
    bs_best_ask = 2 ^ 60 + 3, bs_ask_volume = 2 ^ 62 + (7 :: u64)\<rparr>"
  have v: "0 < uint (bs_bid_volume b) + uint (bs_ask_volume b)"
    "uint (bs_bid_volume b) + uint (bs_ask_volume b) < 2 ^ 64" by (simp_all add: b_def)
  from micro_price_accurate [of b] v obtain m where
    m: "f64_val (calculate_micro_price b) = Some m" "\<bar>m - micro_exact b\<bar> \<le> micro_exact b / 2 ^ 49"
    by (auto split: if_splits)
  have "micro_exact b \<le> of_int (uint (bs_best_ask b))"
    by (rule micro_exact_between(2) [OF _ v(1)]) (simp add: b_def)
  then have "micro_exact b / 2 ^ 49 \<le> 2 ^ 12" by (simp add: b_def)
  with m b_def show ?thesis by (meson order_trans)
qed

section \<open>The order-flow imbalance\<close>

lemma diff_bound: "0 \<le> a \<Longrightarrow> a < B \<Longrightarrow> 0 \<le> b \<Longrightarrow> b < B \<Longrightarrow> \<bar>a - b\<bar> < B" for a b B :: int
  by linarith

lemma update_and_get_ofi_exact:
  assumes "se_has_prev e" and "uint (bs_bid_volume cur) < 2 ^ 51" "uint (bs_ask_volume cur) < 2 ^ 51"
    and "uint (bs_bid_volume (se_prev_state e)) < 2 ^ 51" "uint (bs_ask_volume (se_prev_state e)) < 2 ^ 51"
  shows "f64_int (fst (update_and_get_ofi cur e)) (ofi_exact (se_prev_state e) cur)"
proof -
  let ?p = "se_prev_state e"
  have conv: "f64_int (f64_of_u64 v) (uint v)" if "uint v < 2 ^ 51" for v :: u64
    using that by (intro f64_int_of_u64) simp
  note c = conv [OF assms(2)] conv [OF assms(3)] conv [OF assms(4)] conv [OF assms(5)]
  note ge = uint_ge_0 [of "bs_bid_volume cur"] uint_ge_0 [of "bs_ask_volume cur"]
    uint_ge_0 [of "bs_bid_volume ?p"] uint_ge_0 [of "bs_ask_volume ?p"]
  let ?bid = "if bs_best_bid cur > bs_best_bid ?p then 0 + f64_of_u64 (bs_bid_volume cur)
    else if bs_best_bid cur = bs_best_bid ?p
    then 0 + (f64_of_u64 (bs_bid_volume cur) - f64_of_u64 (bs_bid_volume ?p))
    else 0 - f64_of_u64 (bs_bid_volume ?p)"
  define i where "i = (if bs_best_bid ?p \<le> bs_best_bid cur then uint (bs_bid_volume cur) else 0) -
    (if bs_best_bid cur \<le> bs_best_bid ?p then uint (bs_bid_volume ?p) else 0)"
  have small: "\<bar>i\<bar> < 2 ^ 51" using assms(2,4) unfolding i_def by (intro diff_bound) auto
  have "\<bar>uint (bs_bid_volume cur) - uint (bs_bid_volume ?p)\<bar> < 2 ^ 51"
    "\<bar>uint (bs_ask_volume cur) - uint (bs_ask_volume ?p)\<bar> < 2 ^ 51"
    by (rule diff_bound [OF ge(1) assms(2) ge(3) assms(4)])
      (rule diff_bound [OF ge(2) assms(3) ge(4) assms(5)])
  note d = this
  have bid: "f64_int ?bid i"
    using d f64_int_add [OF f64_int_zero c(1)] f64_int_sub [OF f64_int_zero c(3)]
      f64_int_add [OF f64_int_zero f64_int_sub [OF c(1,3)]] assms(2,4) ge
    by (cases "bs_best_bid cur" "bs_best_bid ?p" rule: linorder_cases) (auto simp: i_def)
  define x where "x = ?bid"
  have x: "f64_int x i" using bid by (simp only: x_def)
  have p53: "(2 :: int) ^ 53 = 4 * 2 ^ 51" by simp
  have fits: "\<bar>i - uint (bs_ask_volume cur)\<bar> < 2 ^ 53" "\<bar>i + uint (bs_ask_volume ?p)\<bar> < 2 ^ 53"
    "\<bar>i - (uint (bs_ask_volume cur) - uint (bs_ask_volume ?p))\<bar> < 2 ^ 53"
    "\<bar>uint (bs_ask_volume cur) - uint (bs_ask_volume ?p)\<bar> < 2 ^ 53"
    unfolding p53 using small assms(3,5) d(2) ge by linarith+
  note ask = f64_int_sub [OF x c(2) fits(1)] f64_int_add [OF x c(4) fits(2)]
    f64_int_sub [OF x f64_int_sub [OF c(2,4) fits(4)] fits(3)]
  have "f64_int (if bs_best_ask cur < bs_best_ask ?p then x - f64_of_u64 (bs_ask_volume cur)
     else if bs_best_ask cur = bs_best_ask ?p
     then x - (f64_of_u64 (bs_ask_volume cur) - f64_of_u64 (bs_ask_volume ?p))
     else x + f64_of_u64 (bs_ask_volume ?p)) (ofi_exact ?p cur)"
    using ask unfolding ofi_exact_def i_def [symmetric]
    by (cases "bs_best_ask cur" "bs_best_ask ?p" rule: linorder_cases) (auto simp: algebra_simps)
  then show ?thesis
    using assms(1) by (simp only: update_and_get_ofi_def Let_def x_def not_False_eq_True fst_conv if_False simp_thms)
qed


definition quiet :: "BookState \<Rightarrow> bool" where
  "quiet b \<longleftrightarrow> uint (bs_bid_volume b) < 2 ^ 51 \<and> uint (bs_ask_volume b) < 2 ^ 51"

lemma ofi_run_exact:
  "se_has_prev e \<Longrightarrow> quiet (se_prev_state e) \<Longrightarrow> \<forall>b \<in> set bs. quiet b \<Longrightarrow>
   list_all2 f64_int (ofi_run bs e) (map2 ofi_exact (se_prev_state e # bs) bs)"
proof (induction bs arbitrary: e)
  case (Cons b bs)
  obtain x e' where u: "update_and_get_ofi b e = (x, e')" by (cases "update_and_get_ofi b e")
  have e': "se_prev_state e' = b" "se_has_prev e'"
    using u Cons.prems(1) by (auto simp: update_and_get_ofi_def Let_def)
  have "f64_int x (ofi_exact (se_prev_state e) b)"
    using update_and_get_ofi_exact [of e b] Cons.prems u by (simp add: quiet_def)
  moreover have "list_all2 f64_int (ofi_run bs e') (map2 ofi_exact (b # bs) bs)"
    using Cons.IH [of e'] Cons.prems(3) e' by simp
  ultimately show ?case by (simp add: u)
qed simp

text \<open>
  (C20) The order-flow imbalance is exact: over any sequence of book states whose volumes are
  below \<open>2 ^ 51\<close>, the first tick reports 0 and every later one the integer imbalance against
  the state just before it, without any rounding.
\<close>

theorem ofi_stream_exact:
  assumes "\<forall>b \<in> set (b0 # bs). quiet b"
  shows "\<exists>xs. ofi_run (b0 # bs) signal_engine_new = 0 # xs \<and>
    list_all2 f64_int xs (map2 ofi_exact (b0 # bs) bs)"
proof -
  let ?e = "signal_engine_new\<lparr>se_prev_state := b0, se_has_prev := True\<rparr>"
  have "update_and_get_ofi b0 signal_engine_new = (0, ?e)"
    by (simp add: update_and_get_ofi_def signal_engine_new_def)
  with ofi_run_exact [of ?e bs] assms show ?thesis by simp
qed

theorem ofi_stream_exact_witness:
  "\<exists>x y. ofi_run
     [\<lparr>bs_best_bid = 100, bs_bid_volume = 10, bs_best_ask = 110, bs_ask_volume = 10\<rparr>,
      \<lparr>bs_best_bid = 100, bs_bid_volume = 15, bs_best_ask = 110, bs_ask_volume = 10\<rparr>,
      \<lparr>bs_best_bid = 99, bs_bid_volume = 20, bs_best_ask = 109, bs_ask_volume = 5\<rparr>]
     signal_engine_new = [0, x, y] \<and> f64_int x 5 \<and> f64_int y (- 20)"
  using ofi_stream_exact [of
     "\<lparr>bs_best_bid = 100, bs_bid_volume = 10, bs_best_ask = 110, bs_ask_volume = 10\<rparr>"
     "[\<lparr>bs_best_bid = 100, bs_bid_volume = 15, bs_best_ask = 110, bs_ask_volume = 10\<rparr>,
      \<lparr>bs_best_bid = 99, bs_bid_volume = 20, bs_best_ask = 109, bs_ask_volume = 5\<rparr>]"]
  by (fastforce simp: quiet_def ofi_exact_def list_all2_Cons2 simp del: ofi_run.simps)

end
