(* ===== verification/Rolling_Stats.thy ===== *)
theory Rolling_Stats
  imports Float64
begin

text \<open>
  \<^verbatim>\<open>quant/rolling_stats.hpp\<close>: mean and variance over a sliding window, updated in constant
  time. The class is written once over any type with the operations of a field, with the
  conversion of a \<open>size_t\<close> as an argument: with \<open>f64\<close> it is the code, with rational numbers
  it is the algorithm without rounding. A zero window is undefined behaviour, \<open>None\<close>: there is
  no slot to read and a remainder by zero to take.
\<close>

record 'a rolling_stats =
  rs_window_size :: u64
  rs_values :: "'a list"
  rs_index :: u64
  rs_count :: u64
  rs_mean :: 'a
  rs_m2 :: 'a

definition rs_new :: "u64 \<Rightarrow> ('a :: zero) rolling_stats" where
  "rs_new window_size = \<lparr>rs_window_size = window_size, rs_values = replicate (unat window_size) 0,
     rs_index = 0, rs_count = 0, rs_mean = 0, rs_m2 = 0\<rparr>"

definition rs_add ::
  "(u64 \<Rightarrow> 'a) \<Rightarrow> 'a \<Rightarrow> 'a rolling_stats \<Rightarrow> ('a :: {zero, plus, minus, times, inverse, ord}) rolling_stats option" where
  "rs_add conv x r =
     (if unat (rs_index r) < length (rs_values r) \<and> rs_window_size r \<noteq> 0 then
        let old_val = rs_values r ! unat (rs_index r);
            r = r\<lparr>rs_values := (rs_values r)[unat (rs_index r) := x],
                  rs_index := (rs_index r + 1) mod rs_window_size r\<rparr>
        in if rs_count r < rs_window_size r then
             let count = rs_count r + 1;
                 delta = x - rs_mean r;
                 mean = rs_mean r + delta / conv count;
                 m2 = rs_m2 r + delta * (x - mean)
             in Some (r\<lparr>rs_count := count, rs_mean := mean, rs_m2 := m2\<rparr>)
           else
             let mean_old = rs_mean r;
                 mean = rs_mean r + (x - old_val) / conv (rs_window_size r);
                 m2 = rs_m2 r + ((x - mean_old) * (x - mean) - (old_val - mean_old) * (old_val - mean));
                 m2 = (if m2 < 0 then 0 else m2)
             in Some (r\<lparr>rs_mean := mean, rs_m2 := m2\<rparr>)
      else None)"

definition rs_variance :: "(u64 \<Rightarrow> 'a) \<Rightarrow> 'a rolling_stats \<Rightarrow> ('a :: {zero, inverse})" where
  "rs_variance conv r = (if rs_count r < 2 then 0 else rs_m2 r / conv (rs_count r - 1))"

definition rs_is_ready :: "'a rolling_stats \<Rightarrow> bool" where
  "rs_is_ready r \<longleftrightarrow> rs_count r = rs_window_size r"

fun rs_run :: "(u64 \<Rightarrow> 'a) \<Rightarrow> 'a list \<Rightarrow> 'a rolling_stats \<Rightarrow>
    ('a :: {zero, plus, minus, times, inverse, ord}) rolling_stats option" where
  "rs_run conv [] r = Some r"
| "rs_run conv (x # xs) r = Option.bind (rs_add conv x r) (rs_run conv xs)"

section \<open>The window\<close>

text \<open>The last \<open>w\<close> of the values seen, and where each of them is in the buffer.\<close>

definition last_values :: "nat \<Rightarrow> 'a list \<Rightarrow> 'a list" where
  "last_values w xs = drop (length xs - w) xs"

definition rs_holds :: "u64 \<Rightarrow> 'a list \<Rightarrow> 'a rolling_stats \<Rightarrow> bool" where
  "rs_holds w xs r \<longleftrightarrow> rs_window_size r = w \<and> length (rs_values r) = unat w \<and>
     unat (rs_index r) = length xs mod unat w \<and> unat (rs_count r) = min (length xs) (unat w) \<and>
     (\<forall>i. length xs - unat w \<le> i \<and> i < length xs \<longrightarrow> rs_values r ! (i mod unat w) = xs ! i)"

lemma rs_holds_new: "rs_holds w [] (rs_new w)"
  by (simp add: rs_holds_def rs_new_def)

lemma mod_window_eq:
  fixes i n w :: nat
  assumes "i mod w = n mod w" and "n < i + w" "i < n"
  shows False
proof -
  have "w dvd n - i" using assms by (metis mod_eq_dvd_iff_nat less_imp_le)
  with assms show False by (auto dest: dvd_imp_le)
qed

lemma rs_add_holds:
  assumes "rs_holds w xs r" and "w \<noteq> 0"
  obtains r' where "rs_add conv x r = Some r'" and "rs_holds w (xs @ [x]) r'"
proof -
  let ?w = "unat w" and ?n = "length xs"
  have w0: "0 < ?w" using assms(2) by (simp add: unat_gt_0)
  from assms(1) have r: "rs_window_size r = w" "length (rs_values r) = ?w"
    "unat (rs_index r) = ?n mod ?w" "unat (rs_count r) = min ?n ?w"
    and vals: "\<And>i. ?n - ?w \<le> i \<Longrightarrow> i < ?n \<Longrightarrow> rs_values r ! (i mod ?w) = xs ! i"
    by (auto simp: rs_holds_def)
  have idx: "unat (rs_index r) < ?w" using r(3) w0 by simp
  have next_idx: "unat ((rs_index r + 1) mod w) = Suc ?n mod ?w"
    using unat_Suc_less [OF idx] r(3) by (simp add: unat_mod mod_Suc_eq)
  have "\<exists>r'. rs_add conv x r = Some r'"
    using r idx assms(2) by (cases "rs_count r < w") (simp_all add: rs_add_def Let_def)
  then obtain r' where r': "rs_add conv x r = Some r'" by blast
  have lt: "rs_count r < w \<longleftrightarrow> ?n < ?w" using r(4) by (simp add: word_less_nat_alt min_def)
  have eqs: "rs_window_size r' = w" "rs_values r' = (rs_values r)[?n mod ?w := x]"
    "rs_index r' = (rs_index r + 1) mod w" "rs_count r' = (if ?n < ?w then rs_count r + 1 else rs_count r)"
    using r' r idx assms(2) lt by (cases "rs_count r < w"; auto simp: rs_add_def Let_def)+
  have cnt: "unat (rs_count r') = min (Suc ?n) ?w"
    using eqs(4) r(4) unat_Suc_less [of "rs_count r" w] lt by (auto simp: word_less_nat_alt)
  have "rs_values r' ! (i mod ?w) = (xs @ [x]) ! i" if "Suc ?n - ?w \<le> i" "i < Suc ?n" for i
  proof (cases "i = ?n")
    case True
    then show ?thesis using eqs(2) r(2) w0 by simp
  next
    case False
    then have "i < ?n" "?n < i + ?w" using that w0 by linarith+
    then have "i mod ?w \<noteq> ?n mod ?w" using mod_window_eq by blast
    then show ?thesis using eqs(2) vals [of i] \<open>i < ?n\<close> \<open>?n < i + ?w\<close> by (simp add: nth_append)
  qed
  then have "rs_holds w (xs @ [x]) r'"
    using eqs r cnt next_idx by (simp add: rs_holds_def)
  with r' that show ?thesis by blast
qed


lemma rs_run_snoc: "rs_run conv (xs @ [x]) r = Option.bind (rs_run conv xs r) (rs_add conv x)"
proof (induction xs arbitrary: r)
  case Nil
  have "rs_run conv [] = Some" by (rule ext) simp
  then show ?case by (simp del: rs_run.simps(1))
next
  case (Cons a xs)
  then show ?case by (cases "rs_add conv a r") simp_all
qed

lemma rs_run_holds: "w \<noteq> 0 \<Longrightarrow> \<exists>r. rs_run conv xs (rs_new w) = Some r \<and> rs_holds w xs r"
proof (induction xs rule: rev_induct)
  case (snoc x xs)
  then obtain r where "rs_run conv xs (rs_new w) = Some r" "rs_holds w xs r" by blast
  with rs_add_holds [of w xs r conv x] snoc.prems show ?case by (metis bind.bind_lunit rs_run_snoc)
qed (simp add: rs_holds_new)

lemma last_values_snoc:
  "length xs < w \<Longrightarrow> last_values w (xs @ [x]) = last_values w xs @ [x]"
  "0 < w \<Longrightarrow> w \<le> length xs \<Longrightarrow> last_values w (xs @ [x]) = tl (last_values w xs) @ [x]"
  by (simp_all add: last_values_def Suc_diff_le drop_Suc drop_tl)

lemma last_values_Cons:
  "0 < w \<Longrightarrow> w \<le> length xs \<Longrightarrow> last_values w xs = xs ! (length xs - w) # tl (last_values w xs)"
  by (simp add: last_values_def Cons_nth_drop_Suc [symmetric] drop_Suc tl_drop)

text \<open>What the buffer holds, read from the oldest slot on.\<close>

lemma rs_oldest:
  assumes "rs_holds w xs r" and "w \<noteq> 0" and "unat w \<le> length xs"
  shows "rs_values r ! unat (rs_index r) = xs ! (length xs - unat w)"
proof -
  have "length xs - unat w < length xs" using assms(2,3) unat_gt_0 [of w] by linarith
  then have "rs_values r ! ((length xs - unat w) mod unat w) = xs ! (length xs - unat w)"
    using assms(1) unfolding rs_holds_def by blast
  moreover have "(length xs - unat w) mod unat w = length xs mod unat w"
    by (rule le_mod_geq [OF assms(3), symmetric])
  ultimately show ?thesis using assms(1) by (simp add: rs_holds_def)
qed

text \<open>
  (C27) For every window of at least one slot and every sequence of values, NaN and infinities
  included, no access leaves the buffer, the buffer holds the last values at their positions
  modulo the window size, and the statistics are ready exactly when the window has filled.
\<close>

theorem rolling_window:
  assumes "w \<noteq> 0"
  shows "\<exists>r. rs_run f64_of_u64 xs (rs_new w) = Some r \<and>
    (\<forall>i. length xs - unat w \<le> i \<and> i < length xs \<longrightarrow> rs_values r ! (i mod unat w) = xs ! i) \<and>
    unat (rs_count r) = min (length xs) (unat w) \<and> (rs_is_ready r \<longleftrightarrow> unat w \<le> length xs)"
proof -
  obtain r where r: "rs_run f64_of_u64 xs (rs_new w) = Some r" "rs_holds w xs r"
    using rs_run_holds [OF assms] by blast
  then have "rs_is_ready r \<longleftrightarrow> unat w \<le> length xs"
    by (auto simp: rs_is_ready_def rs_holds_def word_unat_eq_iff)
  with r show ?thesis by (auto simp: rs_holds_def)
qed

theorem rolling_window_witness:
  "\<exists>r. rs_run f64_of_u64 [NaN, PInf, Fin 1, Fin 2] (rs_new 3) = Some r \<and> rs_values r ! 0 = Fin 2"
proof -
  have w: "(3 :: u64) \<noteq> 0" by simp
  from rolling_window [OF w, of "[NaN, PInf, Fin 1, Fin 2]"] obtain r where
    "rs_run f64_of_u64 [NaN, PInf, Fin 1, Fin 2] (rs_new 3) = Some r" and
    vals: "\<And>i. 4 - 3 \<le> i \<Longrightarrow> i < 4 \<Longrightarrow> rs_values r ! (i mod 3) = [NaN, PInf, Fin 1, Fin 2] ! i"
    by auto
  with vals [of 3] show ?thesis by auto
qed

section \<open>The algorithm without rounding\<close>

definition mean_of :: "rat list \<Rightarrow> rat" where
  "mean_of ys = sum_list ys / of_nat (length ys)"

definition sq_dev :: "rat list \<Rightarrow> rat" where
  "sq_dev ys = (\<Sum>y\<leftarrow>ys. (y - mean_of ys)\<^sup>2)"

text \<open>\<open>k\<close> values with sum \<open>k * m\<close>: the squared deviations are the squares less \<open>k * m\<^sup>2\<close>.\<close>

lemma sq_dev_about:
  "(\<Sum>y\<leftarrow>ys. (y - m)\<^sup>2) = (\<Sum>y\<leftarrow>ys. y\<^sup>2) - 2 * m * sum_list ys + of_nat (length ys) * m\<^sup>2"
  for m :: rat
  by (induction ys) (simp_all add: algebra_simps power2_eq_square)

definition exact_stats :: "rat list \<Rightarrow> rat \<Rightarrow> rat \<Rightarrow> bool" where
  "exact_stats ys m s \<longleftrightarrow> of_nat (length ys) * m = sum_list ys \<and>
     s = (\<Sum>y\<leftarrow>ys. y\<^sup>2) - of_nat (length ys) * m\<^sup>2"

lemma exact_stats_iff:
  "ys \<noteq> [] \<Longrightarrow> exact_stats ys m s \<longleftrightarrow> m = mean_of ys \<and> s = sq_dev ys"
proof -
  let ?k = "of_nat (length ys) :: rat"
  assume "ys \<noteq> []"
  then have k: "?k \<noteq> 0" by simp
  have m: "?k * m = sum_list ys \<longleftrightarrow> m = mean_of ys" using k by (auto simp: mean_of_def field_simps)
  have "sq_dev ys = (\<Sum>y\<leftarrow>ys. y\<^sup>2) - ?k * m\<^sup>2" if sum: "?k * m = sum_list ys"
  proof -
    have "sq_dev ys = (\<Sum>y\<leftarrow>ys. (y - m)\<^sup>2)" using sum m by (simp only: sq_dev_def)
    also have "\<dots> = (\<Sum>y\<leftarrow>ys. y\<^sup>2) - ?k * m\<^sup>2"
      unfolding sq_dev_about sum [symmetric] by (simp add: algebra_simps power2_eq_square)
    finally show ?thesis .
  qed
  with m show ?thesis unfolding exact_stats_def by metis
qed

lemma welford_grow:
  assumes "exact_stats ys m s" and "m' = m + (x - m) / (of_nat (length ys) + 1)"
  shows "exact_stats (ys @ [x]) m' (s + (x - m) * (x - m'))"
proof -
  let ?k = "of_nat (length ys) :: rat"
  have k: "?k + 1 \<noteq> 0" by (simp add: add_nonneg_eq_0_iff)
  have "(?k + 1) * m' = ?k * m + x" using k by (simp add: assms(2) field_simps)
  then have x: "x = (?k + 1) * m' - ?k * m" by simp
  have "(x - m) * (x - m') = x\<^sup>2 - (?k + 1) * m'\<^sup>2 + ?k * m\<^sup>2"
    unfolding x by (simp add: algebra_simps power2_eq_square)
  with assms(1) x show ?thesis by (simp add: exact_stats_def algebra_simps)
qed

lemma welford_slide:
  assumes "exact_stats (old # ys) m s" and "m' = m + (x - old) / of_nat (Suc (length ys))"
  shows "exact_stats (ys @ [x]) m' (s + ((x - m) * (x - m') - (old - m) * (old - m')))"
proof -
  let ?k = "of_nat (Suc (length ys)) :: rat"
  have k: "?k \<noteq> 0" by (simp only: of_nat_eq_0_iff)
  have "?k * m' = ?k * m + (x - old)" using k by (simp add: assms(2) distrib_left)
  then have x: "x - old = ?k * (m' - m)" by (simp add: right_diff_distrib)
  have "(x - m) * (x - m') - (old - m) * (old - m') = (x - old) * (x + old - m - m')"
    by (simp add: algebra_simps)
  also have "\<dots> = x\<^sup>2 - old\<^sup>2 - ?k * (m' - m) * (m + m')"
    unfolding x [symmetric] by (simp add: algebra_simps power2_eq_square)
  finally have "(x - m) * (x - m') - (old - m) * (old - m') = x\<^sup>2 - old\<^sup>2 - ?k * m'\<^sup>2 + ?k * m\<^sup>2"
    by (simp add: algebra_simps power2_eq_square)
  moreover have "?k * m' = sum_list ys + x"
    using assms(1) x by (simp add: exact_stats_def algebra_simps)
  ultimately show ?thesis using assms(1) by (simp add: exact_stats_def)
qed

definition u64_rat :: "u64 \<Rightarrow> rat" where "u64_rat w = of_nat (unat w)"

lemma sq_dev_nonneg: "0 \<le> sq_dev ys"
  unfolding sq_dev_def by (rule sum_list_nonneg) auto

lemma exact_stats_nonneg: "exact_stats ys m s \<Longrightarrow> ys \<noteq> [] \<Longrightarrow> 0 \<le> s"
  using sq_dev_nonneg by (simp add: exact_stats_iff)

lemma rs_add_guard:
  "rs_add conv x r = Some r' \<Longrightarrow>
   unat (rs_index r) < length (rs_values r) \<and> rs_window_size r \<noteq> 0"
  by (auto simp: rs_add_def split: if_splits)

lemma rs_add_grow:
  assumes r: "rs_holds w xs r" and "length xs < unat w"
    and st: "exact_stats (last_values (unat w) xs) (rs_mean r) (rs_m2 r)"
    and r': "rs_add u64_rat x r = Some r'"
  shows "exact_stats (last_values (unat w) (xs @ [x])) (rs_mean r') (rs_m2 r')"
proof -
  let ?ws = "last_values (unat w) xs"
  have grow: "rs_count r < rs_window_size r" and c: "unat (rs_count r + 1) = Suc (length ?ws)"
    using r unat_Suc_less [of "rs_count r" w] assms(2)
    by (auto simp: rs_holds_def word_less_nat_alt last_values_def)
  have c': "u64_rat (rs_count r + 1) = of_nat (length ?ws) + 1"
    unfolding u64_rat_def c by (simp add: add.commute)
  let ?m = "rs_mean r + (x - rs_mean r) / (of_nat (length ?ws) + 1)"
  have "rs_mean r' = ?m" "rs_m2 r' = rs_m2 r + (x - rs_mean r) * (x - ?m)"
    using r' rs_add_guard [OF r'] grow by (auto simp: rs_add_def Let_def c')
  with welford_grow [OF st refl, of x] assms(2) show ?thesis by (simp add: last_values_snoc)
qed

lemma rs_add_slide:
  assumes r: "rs_holds w xs r" and "w \<noteq> 0" and le: "unat w \<le> length xs"
    and st: "exact_stats (last_values (unat w) xs) (rs_mean r) (rs_m2 r)"
    and r': "rs_add u64_rat x r = Some r'"
  shows "exact_stats (last_values (unat w) (xs @ [x])) (rs_mean r') (rs_m2 r')"
proof -
  let ?ws = "last_values (unat w) xs" and ?old = "xs ! (length xs - unat w)"
  have w0: "0 < unat w" using assms(2) by (simp add: unat_gt_0)
  have slide: "\<not> rs_count r < rs_window_size r"
    using r le by (auto simp: rs_holds_def word_less_nat_alt)
  have old: "rs_values r ! unat (rs_index r) = ?old" by (rule rs_oldest [OF r assms(2) le])
  have ws: "?ws = ?old # tl ?ws" by (rule last_values_Cons [OF w0 le])
  have len: "Suc (length (tl ?ws)) = unat w" using w0 le by (simp add: last_values_def)
  let ?m = "rs_mean r + (x - ?old) / of_nat (Suc (length (tl ?ws)))"
  let ?s = "rs_m2 r + ((x - rs_mean r) * (x - ?m) - (?old - rs_mean r) * (?old - ?m))"
  have eqs: "rs_mean r' = ?m" "rs_m2 r' = (if ?s < 0 then 0 else ?s)"
    using r' rs_add_guard [OF r'] slide old r unfolding len
    by (auto simp: rs_add_def Let_def u64_rat_def rs_holds_def)
  have st': "exact_stats (tl ?ws @ [x]) ?m ?s" using st ws by (intro welford_slide) simp_all
  then have "0 \<le> ?s" by (rule exact_stats_nonneg) simp
  then have "rs_m2 r' = ?s" unfolding eqs by simp
  with st' eqs(1) show ?thesis unfolding last_values_snoc(2) [OF w0 le] by simp
qed

lemma rs_run_exact_stats:
  fixes xs :: "rat list"
  assumes "w \<noteq> 0"
  shows "\<exists>r. rs_run u64_rat xs (rs_new w) = Some r \<and> rs_holds w xs r \<and>
    exact_stats (last_values (unat w) xs) (rs_mean r) (rs_m2 r)"
proof (induction xs rule: rev_induct)
  case Nil
  show ?case by (simp add: rs_holds_new) (simp add: rs_new_def exact_stats_def last_values_def)
next
  case (snoc x xs)
  then obtain r where run: "rs_run u64_rat xs (rs_new w) = Some r" and r: "rs_holds w xs r"
    and st: "exact_stats (last_values (unat w) xs) (rs_mean r) (rs_m2 r)" by blast
  obtain r' where r': "rs_add u64_rat x r = Some r'" "rs_holds w (xs @ [x]) r'"
    by (rule rs_add_holds [OF r assms])
  have "exact_stats (last_values (unat w) (xs @ [x])) (rs_mean r') (rs_m2 r')"
    using rs_add_grow [OF r _ st r'(1)] rs_add_slide [OF r assms _ st r'(1)] by linarith
  with run r' show ?case by (simp add: rs_run_snoc)
qed

section \<open>When nothing rounds\<close>

text \<open>A rational that is a \<open>double\<close>, away from overflow.\<close>

definition exact64 :: "rat \<Rightarrow> bool" where
  "exact64 q \<longleftrightarrow> round64 q = q \<and> \<bar>q\<bar> \<le> 2 ^ 1023"

lemma exact64_int: "\<bar>i\<bar> < 2 ^ 53 \<Longrightarrow> exact64 (of_int i)"
  using round64_int int_bound_1023 by (simp only: exact64_def)

lemma exact64_numeral [simp]:
  "exact64 0" "exact64 1"
  "(numeral n :: int) < 2 ^ 53 \<Longrightarrow> exact64 (numeral n)"
  "(numeral n :: int) < 2 ^ 53 \<Longrightarrow> exact64 (- numeral n)"
  using exact64_int [of 0] exact64_int [of 1] exact64_int [of "numeral n"]
    exact64_int [of "- numeral n"] by simp_all

lemma f64_val_exact:
  "f64_val x = Some a \<Longrightarrow> f64_val y = Some b \<Longrightarrow> exact64 (a + b) \<Longrightarrow> f64_val (x + y) = Some (a + b)"
  "f64_val x = Some a \<Longrightarrow> f64_val y = Some b \<Longrightarrow> exact64 (a - b) \<Longrightarrow> f64_val (x - y) = Some (a - b)"
  "f64_val x = Some a \<Longrightarrow> f64_val y = Some b \<Longrightarrow> exact64 (a * b) \<Longrightarrow> f64_val (x * y) = Some (a * b)"
  "f64_val x = Some a \<Longrightarrow> f64_val y = Some b \<Longrightarrow> b \<noteq> 0 \<Longrightarrow> exact64 (a / b) \<Longrightarrow> f64_val (x / y) = Some (a / b)"
  using f64_val_add [of x a y b] f64_val_sub [of x a y b] f64_val_mul [of x a y b]
    f64_val_div [of x a y b] by (simp_all add: exact64_def)

text \<open>The results of the operations of one \<open>add\<close>, in exact arithmetic.\<close>

definition rs_intermediates :: "rat \<Rightarrow> rat rolling_stats \<Rightarrow> rat list" where
  "rs_intermediates x r =
     (let mean = rs_mean r; old_val = rs_values r ! unat (rs_index r)
      in if rs_count r < rs_window_size r then
           let step = (x - mean) / u64_rat (rs_count r + 1); mean' = mean + step
           in [x - mean, step, mean', x - mean', (x - mean) * (x - mean'),
               rs_m2 r + (x - mean) * (x - mean')]
         else
           let step = (x - old_val) / u64_rat (rs_window_size r); mean' = mean + step;
               up = (x - mean) * (x - mean'); down = (old_val - mean) * (old_val - mean')
           in [x - old_val, step, mean', x - mean, x - mean', up,
               old_val - mean, old_val - mean', down, up - down, rs_m2 r + (up - down)])"

fun no_rounding :: "rat list \<Rightarrow> rat rolling_stats \<Rightarrow> bool" where
  "no_rounding [] r = True"
| "no_rounding (x # xs) r \<longleftrightarrow> list_all exact64 (rs_intermediates x r) \<and>
     (case rs_add u64_rat x r of None \<Rightarrow> True | Some r' \<Rightarrow> no_rounding xs r')"

text \<open>A state of doubles with the values of a state of rational numbers.\<close>

definition rs_denotes :: "f64 rolling_stats \<Rightarrow> rat rolling_stats \<Rightarrow> bool" where
  "rs_denotes r q \<longleftrightarrow> rs_window_size r = rs_window_size q \<and> rs_index r = rs_index q \<and>
     rs_count r = rs_count q \<and> list_all2 (\<lambda>x a. f64_val x = Some a) (rs_values r) (rs_values q) \<and>
     f64_val (rs_mean r) = Some (rs_mean q) \<and> f64_val (rs_m2 r) = Some (rs_m2 q)"

lemma f64_val_of_u64: "unat c < 2 ^ 53 \<Longrightarrow> f64_val (f64_of_u64 c) = Some (u64_rat c)"
proof -
  assume "unat c < 2 ^ 53"
  then have "uint c < 2 ^ 53" by (simp add: uint_nat del: of_nat_unat)
  then show ?thesis using f64_int_of_u64 [of c] by (simp add: f64_int_def u64_rat_def)
qed

lemma rs_add_denotes:
  assumes den: "rs_denotes r q" and x: "f64_val x = Some a"
    and exact: "list_all exact64 (rs_intermediates a q)" and q': "rs_add u64_rat a q = Some q'"
    and w: "unat (rs_window_size q) < 2 ^ 53"
  shows "\<exists>r'. rs_add f64_of_u64 x r = Some r' \<and> rs_denotes r' q'"
proof -
  note guard = rs_add_guard [OF q']
  from den have r: "rs_window_size r = rs_window_size q" "rs_index r = rs_index q"
    "rs_count r = rs_count q" "length (rs_values r) = length (rs_values q)"
    and vals: "list_all2 (\<lambda>x a. f64_val x = Some a) (rs_values r) (rs_values q)"
    and m: "f64_val (rs_mean r) = Some (rs_mean q)" and s: "f64_val (rs_m2 r) = Some (rs_m2 q)"
    by (auto simp: rs_denotes_def list_all2_lengthD)
  let ?i = "unat (rs_index q)"
  have upd: "list_all2 (\<lambda>x a. f64_val x = Some a) ((rs_values r)[?i := x]) ((rs_values q)[?i := a])"
    using vals x by (rule list_all2_update_cong)
  have old: "f64_val (rs_values r ! ?i) = Some (rs_values q ! ?i)"
    using list_all2_nthD2 [OF vals] guard by blast
  show ?thesis
  proof (cases "rs_count q < rs_window_size q")
    case True
    let ?c = "rs_count q + 1"
    have c: "unat ?c = Suc (unat (rs_count q))" "unat ?c < 2 ^ 53"
      using unat_Suc_less [of "rs_count q" "rs_window_size q"] True w
      by (simp_all add: word_less_nat_alt)
    have conv: "f64_val (f64_of_u64 ?c) = Some (u64_rat ?c)" "u64_rat ?c \<noteq> 0"
      using f64_val_of_u64 c by (simp_all add: u64_rat_def del: of_nat_unat)
    from exact True have e: "exact64 (a - rs_mean q)" "exact64 ((a - rs_mean q) / u64_rat ?c)"
      "exact64 (rs_mean q + (a - rs_mean q) / u64_rat ?c)"
      "exact64 (a - (rs_mean q + (a - rs_mean q) / u64_rat ?c))"
      "exact64 ((a - rs_mean q) * (a - (rs_mean q + (a - rs_mean q) / u64_rat ?c)))"
      "exact64 (rs_m2 q + (a - rs_mean q) * (a - (rs_mean q + (a - rs_mean q) / u64_rat ?c)))"
      by (simp_all add: rs_intermediates_def Let_def)
    note d = f64_val_exact(2) [OF x m e(1)]
    note mean = f64_val_exact(1) [OF m f64_val_exact(4) [OF d conv e(2)] e(3)]
    note m2 = f64_val_exact(1) [OF s f64_val_exact(3) [OF d f64_val_exact(2) [OF x mean e(4)] e(5)] e(6)]
    show ?thesis
      using q' guard True r upd mean m2 by (auto simp: rs_add_def Let_def rs_denotes_def)
  next
    case False
    let ?w = "rs_window_size q" and ?o = "rs_values q ! ?i"
    have conv: "f64_val (f64_of_u64 ?w) = Some (u64_rat ?w)" "u64_rat ?w \<noteq> 0"
      using f64_val_of_u64 [OF w] guard by (simp_all add: u64_rat_def unat_eq_zero del: of_nat_unat)
    define mq where "mq = rs_mean q + (a - ?o) / u64_rat ?w"
    define up where "up = (a - rs_mean q) * (a - mq)"
    define down where "down = (?o - rs_mean q) * (?o - mq)"
    from exact False have e: "exact64 (a - ?o)" "exact64 ((a - ?o) / u64_rat ?w)" "exact64 mq"
      "exact64 (a - rs_mean q)" "exact64 (a - mq)" "exact64 up" "exact64 (?o - rs_mean q)"
      "exact64 (?o - mq)" "exact64 down" "exact64 (up - down)" "exact64 (rs_m2 q + (up - down))"
      by (simp_all add: rs_intermediates_def Let_def mq_def up_def down_def)
    let ?mr = "rs_mean r + (x - rs_values r ! ?i) / f64_of_u64 ?w"
    have mean: "f64_val ?mr = Some mq"
      using f64_val_exact(1) [OF m f64_val_exact(4) [OF f64_val_exact(2) [OF x old e(1)] conv e(2)]]
        e(3) by (simp add: mq_def)
    have up: "f64_val ((x - rs_mean r) * (x - ?mr)) = Some up"
      using f64_val_exact(3) [OF f64_val_exact(2) [OF x m e(4)] f64_val_exact(2) [OF x mean e(5)]] e(6)
      by (simp add: up_def)
    have down: "f64_val ((rs_values r ! ?i - rs_mean r) * (rs_values r ! ?i - ?mr)) = Some down"
      using f64_val_exact(3) [OF f64_val_exact(2) [OF old m e(7)] f64_val_exact(2) [OF old mean e(8)]] e(9)
      by (simp add: down_def)
    note m2 = f64_val_exact(1) [OF s f64_val_exact(2) [OF up down e(10)] e(11)]
    have clamp: "(rs_m2 r + ((x - rs_mean r) * (x - ?mr) -
        (rs_values r ! ?i - rs_mean r) * (rs_values r ! ?i - ?mr)) < 0) = (rs_m2 q + (up - down) < 0)"
      by (rule f64_less_val [OF m2 f64_val_0])
    have q'_eq: "q' = q\<lparr>rs_values := (rs_values q)[?i := a], rs_index := (rs_index q + 1) mod ?w,
        rs_mean := mq, rs_m2 := (if rs_m2 q + (up - down) < 0 then 0 else rs_m2 q + (up - down))\<rparr>"
      using q' [symmetric] guard False by (simp add: rs_add_def Let_def mq_def up_def down_def)
    show ?thesis
      using guard False r upd mean m2 clamp unfolding q'_eq
      by (auto simp: rs_add_def Let_def rs_denotes_def)
  qed
qed

lemma rs_run_m2_exact:
  "no_rounding xs q \<Longrightarrow> rs_run u64_rat xs q = Some q' \<Longrightarrow> exact64 (rs_m2 q) \<Longrightarrow> exact64 (rs_m2 q')"
proof (induction xs arbitrary: q)
  case (Cons a xs)
  obtain q1 where q1: "rs_add u64_rat a q = Some q1" "rs_run u64_rat xs q1 = Some q'"
    using Cons.prems(2) by (auto split: bind_splits)
  have "exact64 (rs_m2 q1)"
    using q1(1) Cons.prems(1) rs_add_guard [OF q1(1)]
    by (cases "rs_count q < rs_window_size q")
      (auto simp: rs_add_def rs_intermediates_def Let_def)
  with Cons.IH [of q1] Cons.prems(1) q1 show ?case by simp
qed simp

lemma rs_run_denotes:
  assumes "rs_denotes r q" and "no_rounding xs q" and "rs_run u64_rat xs q = Some q'"
    and "unat (rs_window_size q) < 2 ^ 53"
  shows "\<exists>r'. rs_run f64_of_u64 (map Fin xs) r = Some r' \<and> rs_denotes r' q'"
  using assms
proof (induction xs arbitrary: r q)
  case (Cons a xs)
  obtain q1 where q1: "rs_add u64_rat a q = Some q1" "rs_run u64_rat xs q1 = Some q'"
    using Cons.prems(3) by (auto split: bind_splits)
  then have "rs_window_size q1 = rs_window_size q"
    by (auto simp: rs_add_def Let_def split: if_splits)
  moreover obtain r1 where "rs_add f64_of_u64 (Fin a) r = Some r1" "rs_denotes r1 q1"
    using rs_add_denotes [OF Cons.prems(1) _ _ q1(1) Cons.prems(4), of "Fin a"] Cons.prems(2) by auto
  ultimately show ?case using Cons.IH [of r1 q1] Cons.prems(2,4) q1 by simp
qed simp

text \<open>
  (C12) The constant-time update computes what it is meant to: on a run none of whose results
  has to be rounded, the mean and the variance are exactly the mean and the sample variance of
  the last values of the window (the variance of fewer than two values is 0), after any number
  of values, whether the window has filled or not.
\<close>

theorem rolling_stats_exact:
  assumes "no_rounding xs (rs_new w)" and "xs \<noteq> []" and "0 < unat w" and "unat w < 2 ^ 53"
  shows "\<exists>r. rs_run f64_of_u64 (map Fin xs) (rs_new w) = Some r \<and>
    f64_val (rs_mean r) = Some (mean_of (last_values (unat w) xs)) \<and>
    f64_val (rs_variance f64_of_u64 r) =
      Some (if length (last_values (unat w) xs) < 2 then 0
            else round64 (sq_dev (last_values (unat w) xs) /
              (of_nat (length (last_values (unat w) xs)) - 1)))"
proof -
  let ?ws = "last_values (unat w) xs"
  have w: "w \<noteq> 0" using assms(3) by auto
  have ne: "?ws \<noteq> []" using assms(2,3) by (cases xs) (auto simp: last_values_def)
  have len: "length ?ws = min (length xs) (unat w)" by (simp add: last_values_def)
  obtain q where q: "rs_run u64_rat xs (rs_new w) = Some q" "rs_holds w xs q"
    "exact_stats ?ws (rs_mean q) (rs_m2 q)" using rs_run_exact_stats [OF w, of xs] by blast
  have "rs_denotes (rs_new w) (rs_new w)"
    by (simp add: rs_denotes_def rs_new_def list_all2_conv_all_nth)
  from rs_run_denotes [OF this assms(1) q(1)] assms(4) obtain r where
    r: "rs_run f64_of_u64 (map Fin xs) (rs_new w) = Some r" "rs_denotes r q"
    by (auto simp: rs_new_def)
  have cnt: "unat (rs_count r) = length ?ws" "rs_count r = rs_count q"
    using r(2) q(2) len by (auto simp: rs_denotes_def rs_holds_def)
  have val: "rs_mean q = mean_of ?ws" "rs_m2 q = sq_dev ?ws"
    using q(3) exact_stats_iff [OF ne] by blast+
  have "f64_val (rs_variance f64_of_u64 r) =
      Some (round64 (sq_dev ?ws / (of_nat (length ?ws) - 1)))" if k: "2 \<le> length ?ws"
  proof -
    have pred: "unat (rs_count r - 1) = length ?ws - 1"
      using k cnt(1) by (subst unat_diff) (simp_all add: word_le_nat_alt)
    then have conv: "f64_val (f64_of_u64 (rs_count r - 1)) = Some (of_nat (length ?ws) - 1)"
      using f64_val_of_u64 [of "rs_count r - 1"] k len assms(4) unfolding u64_rat_def pred
      by (simp add: of_nat_diff)
    have one: "1 \<le> (of_nat (length ?ws) - 1 :: rat)"
      using k of_nat_le_iff [of 2 "length ?ws", where 'a = rat] by simp
    have "exact64 (sq_dev ?ws)"
      using rs_run_m2_exact [OF assms(1) q(1)] val(2) by (simp add: rs_new_def)
    then have "\<bar>sq_dev ?ws / (of_nat (length ?ws) - 1)\<bar> \<le> 2 ^ 1023"
      using one by (simp add: exact64_def abs_divide divide_le_eq)
    moreover have "f64_val (rs_m2 r) = Some (sq_dev ?ws)" using r(2) val(2) by (simp add: rs_denotes_def)
    moreover have "\<not> rs_count r < 2" using cnt(1) k by (simp add: word_less_nat_alt)
    ultimately show ?thesis using f64_val_div [OF _ conv] one by (simp add: rs_variance_def)
  qed
  moreover have "rs_variance f64_of_u64 r = 0" if "length ?ws < 2"
    using that cnt(1) by (simp add: rs_variance_def word_less_nat_alt)
  moreover have "f64_val (rs_mean r) = Some (mean_of ?ws)"
    using r(2) val(1) by (simp add: rs_denotes_def)
  ultimately show ?thesis using r(1) by auto
qed


theorem rolling_stats_exact_witness:
  "\<exists>r. rs_run f64_of_u64 (map Fin [10, 20, 30, 40]) (rs_new 3) = Some r \<and>
     f64_val (rs_mean r) = Some 30 \<and> f64_val (rs_variance f64_of_u64 r) = Some 100"
proof -
  have "replicate 3 (0 :: rat) = [0, 0, 0]" by code_simp
  then have "no_rounding [10, 20, 30, 40] (rs_new 3)"
    by (simp add: rs_new_def rs_add_def rs_intermediates_def Let_def u64_rat_def)
  from rolling_stats_exact [OF this] round64_int [of 100] show ?thesis
    by (simp add: last_values_def mean_of_def sq_dev_def)
qed

section \<open>Values that are not numbers\<close>

lemma f64_NaN_left [simp]:
  "NaN + x = NaN" "NaN - x = NaN" "NaN * x = NaN" "NaN / x = NaN"
  unfolding plus_f64_def minus_f64_def times_f64_def divide_f64_def
    f64_add_def f64_sub_def f64_mul_def f64_div_def Let_def
  by (auto split: option.split)

lemma f64_NaN_right [simp]:
  "x + NaN = NaN" "x - NaN = NaN" "x * NaN = NaN" "x / NaN = NaN"
  unfolding plus_f64_def minus_f64_def times_f64_def divide_f64_def
    f64_add_def f64_sub_def f64_mul_def f64_div_def Let_def
  by (auto split: option.split)

lemma rs_add_mean:
  assumes "rs_add conv x r = Some r'"
  obtains d c where "rs_mean r' = rs_mean r + (x - d) / c"
proof (cases "rs_count r < rs_window_size r")
  case True
  then show ?thesis
    using that assms [symmetric] rs_add_guard [OF assms] by (simp add: rs_add_def Let_def)
next
  case False
  then show ?thesis
    using that assms [symmetric] rs_add_guard [OF assms] by (simp add: rs_add_def Let_def)
qed

lemma rs_add_NaN: "rs_add f64_of_u64 x r = Some r' \<Longrightarrow> x = NaN \<or> rs_mean r = NaN \<Longrightarrow> rs_mean r' = NaN"
  by (erule rs_add_mean) auto

lemma rs_run_NaN: "rs_run f64_of_u64 xs r = Some r' \<Longrightarrow> rs_mean r = NaN \<Longrightarrow> rs_mean r' = NaN"
proof (induction xs arbitrary: r)
  case (Cons x xs)
  then obtain r1 where "rs_add f64_of_u64 x r = Some r1" "rs_run f64_of_u64 xs r1 = Some r'"
    by (auto split: bind_splits)
  with Cons rs_add_NaN show ?case by blast
qed simp

text \<open>
  One NaN poisons the mean for good: after it, the mean is NaN however many further
  values come, also when the window holds only numbers again.
\<close>

lemma rolling_mean_poisoned:
  assumes "w \<noteq> 0"
  shows "\<exists>r. rs_run f64_of_u64 (xs @ [NaN] @ ys) (rs_new w) = Some r \<and> rs_mean r = NaN"
proof -
  have app: "rs_run f64_of_u64 (as @ bs) r = Option.bind (rs_run f64_of_u64 as r) (rs_run f64_of_u64 bs)"
    for as bs :: "f64 list" and r
  proof (induction as arbitrary: r)
    case (Cons a as)
    then show ?case by (cases "rs_add f64_of_u64 a r") simp_all
  qed simp
  obtain r where run: "rs_run f64_of_u64 (xs @ [NaN] @ ys) (rs_new w) = Some r"
    using rs_run_holds [OF assms] by blast
  then obtain r1 r2 where "rs_add f64_of_u64 NaN r1 = Some r2" "rs_run f64_of_u64 ys r2 = Some r"
    by (auto simp: app split: bind_splits)
  with rs_run_NaN rs_add_NaN run show ?thesis by blast
qed

theorem rolling_mean_poisoned_witness:
  "\<exists>r. rs_run f64_of_u64 ([] @ [NaN] @ [Fin 1, Fin 2, Fin 3]) (rs_new 2) = Some r \<and> rs_mean r = NaN"
  by (rule rolling_mean_poisoned) simp

end
