(* ===== verification/Float64_Sqrt.thy ===== *)
theory Float64_Sqrt
  imports Float64
begin

text \<open>
  The correctly rounded square root of a \<open>double\<close>, which is what \<open>std::sqrt\<close> is on IEEE 754
  hardware: the argument is scaled to between \<open>2 ^ 104\<close> and \<open>2 ^ 106\<close>, so that the integer
  nearest to its root has the 53 bits of the result.
\<close>

section \<open>Definitions\<close>

function isqrt :: "int \<Rightarrow> int" where
  "isqrt n = (if n \<le> 0 then 0
     else let r = 2 * isqrt (n div 4) in if (r + 1) * (r + 1) \<le> n then r + 1 else r)"
  by pat_completeness auto
termination by (relation "measure nat") auto

declare isqrt.simps [simp del]

text \<open>The integer nearest to the root of \<open>x\<close>, ties to even: \<open>d\<close> is what is above \<open>f\<^sup>2 + f\<close>.\<close>

definition rne_sqrt :: "rat \<Rightarrow> int" where
  "rne_sqrt x = (let f = isqrt \<lfloor>x\<rfloor>; d = x - of_int (f * f + f)
                 in if d < 1 / 4 \<or> d = 1 / 4 \<and> even f then f else f + 1)"

definition sqrt_exp :: "rat \<Rightarrow> int" where "sqrt_exp q = ilog2 q div 2 - 52"

definition sqrt64 :: "rat \<Rightarrow> rat" where
  "sqrt64 q = of_int (rne_sqrt (q / 2 powi (2 * sqrt_exp q))) * 2 powi sqrt_exp q"

fun f64_sqrt :: "f64 \<Rightarrow> f64" where
  "f64_sqrt NaN = NaN"
| "f64_sqrt PInf = PInf"
| "f64_sqrt NInf = NaN"
| "f64_sqrt NZero = NZero"
| "f64_sqrt (Fin q) = (if q < 0 then NaN else if q = 0 then Fin 0 else Fin (sqrt64 q))"

section \<open>The integer root\<close>

lemma isqrt_bounds:
  "0 \<le> n \<Longrightarrow> 0 \<le> isqrt n \<and> isqrt n * isqrt n \<le> n \<and> n < (isqrt n + 1) * (isqrt n + 1)"
proof (induction n rule: isqrt.induct)
  case (1 n)
  show ?case
  proof (cases "n = 0")
    case True
    then show ?thesis by (simp add: isqrt.simps [of 0])
  next
    case False
    let ?r = "isqrt (n div 4)"
    from 1 False have IH: "0 \<le> ?r" "?r * ?r \<le> n div 4" "n div 4 < (?r + 1) * (?r + 1)"
      by simp_all
    have "4 * (?r * ?r) \<le> n" using IH(2) by linarith
    moreover have "n < 4 * ((?r + 1) * (?r + 1))" using IH(3) by linarith
    ultimately show ?thesis
      using False 1 IH(1) by (simp add: isqrt.simps [of n] Let_def algebra_simps)
  qed
qed

lemma rne_sqrt_bounds:
  assumes "0 \<le> x"
  shows "0 \<le> rne_sqrt x" and "x \<le> (of_int (rne_sqrt x) + 1 / 2) ^ 2"
    and "1 \<le> rne_sqrt x \<Longrightarrow> (of_int (rne_sqrt x) - 1 / 2) ^ 2 \<le> x"
proof -
  define f where "f = isqrt \<lfloor>x\<rfloor>"
  have f0: "0 \<le> f" and b: "f * f \<le> \<lfloor>x\<rfloor>" "\<lfloor>x\<rfloor> < (f + 1) * (f + 1)"
    using isqrt_bounds [of "\<lfloor>x\<rfloor>"] assms unfolding f_def by simp_all
  have "of_int (f * f) \<le> x" using b(1) by (simp add: le_floor_iff)
  moreover have "x < of_int ((f + 1) * (f + 1))" using b(2) by (simp add: floor_less_iff)
  ultimately have lo: "of_int f * of_int f \<le> x" and hi: "x < (of_int f + 1) * (of_int f + 1)" by simp_all
  have c: "rne_sqrt x = f \<and> x - (of_int f * of_int f + of_int f) \<le> 1 / 4 \<or>
      rne_sqrt x = f + 1 \<and> 1 / 4 \<le> x - (of_int f * of_int f + of_int f)"
    unfolding rne_sqrt_def f_def [symmetric] Let_def by auto
  show "0 \<le> rne_sqrt x" using c f0 by auto
  show "x \<le> (of_int (rne_sqrt x) + 1 / 2) ^ 2"
    using c lo hi f0 by (auto simp: power2_eq_square algebra_simps)
  show "(of_int (rne_sqrt x) - 1 / 2) ^ 2 \<le> x" if "1 \<le> rne_sqrt x"
  proof -
    have "(of_int f - 1 / 2) ^ 2 \<le> (of_int f * of_int f :: rat)" if "1 \<le> f"
      using that by (simp add: power2_eq_square algebra_simps)
    then show ?thesis using c lo that by (auto simp: power2_eq_square algebra_simps)
  qed
qed

lemma rne_sqrt_large:
  assumes "2 ^ 104 \<le> x"
  shows "2 ^ 52 \<le> rne_sqrt x"
proof (rule ccontr)
  assume "\<not> ?thesis"
  then have le: "rne_sqrt x + 1 \<le> 2 ^ 52" by simp
  have x0: "0 \<le> x" using assms by (rule order_trans [rotated]) simp
  have "(of_int (rne_sqrt x) :: rat) + 1 / 2 < 2 ^ 52"
    using of_int_le_iff [where 'a = rat, THEN iffD2, OF le] by simp
  then have "(of_int (rne_sqrt x) + 1 / 2) ^ 2 < ((2 :: rat) ^ 52) ^ 2"
    using rne_sqrt_bounds(1) [OF x0] by (intro power_strict_mono) simp_all
  with rne_sqrt_bounds(2) [OF x0] assms show False by simp
qed

section \<open>Accuracy\<close>

lemma rne_sqrt_near:
  assumes "2 ^ 104 \<le> x"
  shows "near 2 (of_int (rne_sqrt x) * of_int (rne_sqrt x)) x"
proof -
  let ?m = "of_int (rne_sqrt x) :: rat" and ?w = "1 + 1 / 2 ^ 52 :: rat"
  have x0: "0 \<le> x" using assms by (rule order_trans [rotated]) simp
  have big: "2 ^ 52 \<le> rne_sqrt x" by (rule rne_sqrt_large [OF assms])
  have m: "2 ^ 52 \<le> ?m" using of_int_le_iff [where 'a = rat, THEN iffD2, OF big] by simp
  have "1 \<le> rne_sqrt x" using big by simp
  note b = rne_sqrt_bounds(2) [OF x0] rne_sqrt_bounds(3) [OF x0 this]
  have "?m \<le> ?w * (?m - 1 / 2)" using m by (simp add: algebra_simps)
  then have "?m ^ 2 \<le> (?w * (?m - 1 / 2)) ^ 2" using m by (intro power_mono) simp_all
  also have "\<dots> \<le> ?w ^ 2 * x" unfolding power_mult_distrib using b(2) by (intro mult_left_mono) simp_all
  finally have up: "?m * ?m \<le> ?w ^ 2 * x" by (simp only: power2_eq_square)
  have "?m + 1 / 2 \<le> ?w * ?m" using m by (simp add: algebra_simps)
  then have "(?m + 1 / 2) ^ 2 \<le> (?w * ?m) ^ 2" using m by (intro power_mono) simp_all
  then have "x \<le> ?w ^ 2 * (?m * ?m)"
    using b(1) unfolding power_mult_distrib power2_eq_square [of ?m] by linarith
  with up x0 show ?thesis by (simp add: near_def)
qed

lemma sqrt64_near:
  assumes "0 < q"
  shows "0 < sqrt64 q" and "near 2 (sqrt64 q * sqrt64 q) q"
proof -
  let ?u = "sqrt_exp q" and ?k = "ilog2 q"
  let ?x = "q / 2 powi (2 * ?u)"
  have "2 * ?u + 104 \<le> ?k" by (simp add: sqrt_exp_def)
  then have "(2 powi (2 * ?u + 104) :: rat) \<le> q"
    using ilog2_bounds(1) [OF assms] by (meson order_trans pow2_le_iff)
  then have "2 ^ 104 * 2 powi (2 * ?u) \<le> q" by (simp add: pow2_add mult.commute)
  then have x: "2 ^ 104 \<le> ?x" by (simp add: le_divide_eq)
  have pp: "2 powi ?u * 2 powi ?u = (2 powi (2 * ?u) :: rat)" by (simp flip: pow2_add)
  let ?m = "of_int (rne_sqrt ?x) :: rat"
  have sq: "sqrt64 q * sqrt64 q = ?m * ?m * 2 powi (2 * ?u)"
    unfolding sqrt64_def pp [symmetric] by (simp only: ac_simps)
  have q: "?x * 2 powi (2 * ?u) = q" by simp
  have "near (2 + 0) (?m * ?m * 2 powi (2 * ?u)) (?x * 2 powi (2 * ?u))"
    by (intro near_mult rne_sqrt_near [OF x] near_refl) simp
  then show "near 2 (sqrt64 q * sqrt64 q) q" by (simp only: sq q add_0_right)
  have "0 < rne_sqrt ?x" using rne_sqrt_large [OF x] by simp
  then show "0 < sqrt64 q" unfolding sqrt64_def by (intro mult_pos_pos) simp_all
qed

text \<open>The root is a \<open>double\<close>: 53 bits, and far from both ends of the exponent range.\<close>

lemma rne_sqrt_small:
  assumes "0 \<le> x" and "x < 2 ^ 106"
  shows "rne_sqrt x \<le> 2 ^ 53"
proof (rule ccontr)
  assume "\<not> ?thesis"
  then have ge: "2 ^ 53 + 1 \<le> rne_sqrt x" by simp
  have m: "(2 :: rat) ^ 53 \<le> of_int (rne_sqrt x) - 1 / 2"
    using of_int_le_iff [where 'a = rat, THEN iffD2, OF ge] by simp
  then have "((2 :: rat) ^ 53) ^ 2 \<le> (of_int (rne_sqrt x) - 1 / 2) ^ 2" by (intro power_mono) simp_all
  also have "\<dots> \<le> x" using rne_sqrt_bounds(3) [OF assms(1)] ge by simp
  finally show False using assms(2) by simp
qed

lemma f64_sqrt_val:
  assumes "f64_val x = Some v" and "0 \<le> v"
  obtains s where "f64_val (f64_sqrt x) = Some s" and "0 \<le> s" and "near 2 (s * s) v"
  using assms sqrt64_near [of v]
  by (cases x) (force simp: near_def intro: less_imp_le split: if_splits)+

lemma f64_sqrt_NaN_iff: "f64_sqrt x = NaN \<longleftrightarrow> x = NaN \<or> x < 0"
  by (cases x) auto

lemma f64_val_mul_nonneg:
  "f64_val x = Some a \<Longrightarrow> f64_val y = Some b \<Longrightarrow> 0 \<le> a * b \<Longrightarrow> \<not> x * y < 0"
  using rnd_nonneg [of "a * b"] by (simp add: f64_mul_rnd(2))

end
