(* ===== verification/Std_Deviation.thy ===== *)
theory Std_Deviation
  imports Rolling_Stats Float64_Sqrt
begin

text \<open>
  \<open>std_dev()\<close> of \<^verbatim>\<open>quant/rolling_stats.hpp\<close>, and why the square root is never taken of a
  negative number: in Welford's update the rounded mean stays between the old mean and the
  value, so every increment of the sum of squares is a product of numbers of one sign, and the
  update of the full window clamps.
\<close>

definition rs_std_dev :: "f64 rolling_stats \<Rightarrow> f64" where
  "rs_std_dev r = f64_sqrt (rs_variance f64_of_u64 r)"

section \<open>The sum of squares is never negative\<close>

lemma f64_rep_round64: "f64_rep (round64 q)"
proof (cases "q = 0")
  case True
  then show ?thesis using f64_rep_int [of 0] by simp
next
  case False
  let ?u = "ulp_exp q"
  have pos: "0 < \<bar>q\<bar>" using False by simp
  have "\<bar>q\<bar> < 2 powi (ilog2 \<bar>q\<bar> + 1)" by (rule ilog2_bounds(2) [OF pos])
  also have "\<dots> \<le> 2 powi (53 + ?u)" by (simp add: ulp_exp_def)
  finally have "\<bar>q\<bar> \<le> 2 ^ 53 * 2 powi ?u" by (simp add: pow2_add)
  then have "\<bar>q / 2 powi ?u\<bar> \<le> of_int (2 ^ 53)" by (simp add: abs_divide divide_le_eq)
  then have ab: "q / 2 powi ?u \<le> of_int (2 ^ 53)" "- (q / 2 powi ?u) \<le> of_int (2 ^ 53)"
    by (simp_all only: abs_le_iff)
  have "rne (q / 2 powi ?u) \<le> 2 ^ 53" using rne_mono [OF ab(1)] by (simp only: rne_of_int)
  moreover have "- rne (q / 2 powi ?u) \<le> 2 ^ 53"
    using rne_mono [OF ab(2)] by (simp only: rne_of_int rne_uminus)
  ultimately have le: "\<bar>rne (q / 2 powi ?u)\<bar> \<le> 2 ^ 53" by linarith
  have u: "- 1074 \<le> ?u" by (simp add: ulp_exp_def)
  show ?thesis
  proof (cases "\<bar>rne (q / 2 powi ?u)\<bar> < 2 ^ 53")
    case True
    then show ?thesis unfolding round64_eq using u by (intro f64_rep_scaled)
  next
    case False
    with le have "\<bar>rne (q / 2 powi ?u)\<bar> = 2 ^ 53" by linarith
    then have "rne (q / 2 powi ?u) = 2 ^ 52 * 2 \<or> rne (q / 2 powi ?u) = - (2 ^ 52) * 2"
      by (auto simp: abs_if split: if_splits)
    then obtain m where m: "rne (q / 2 powi ?u) = m * 2" "\<bar>m\<bar> < 2 ^ 53" by fastforce
    then have "round64 q = of_int m * 2 powi (?u + 1)" unfolding round64_eq by (simp add: pow2_add)
    then show ?thesis using m(2) u by (simp only: f64_rep_scaled)
  qed
qed

lemma f64_rep_grid:
  assumes "f64_rep q"
  obtains k where "q = of_int k * 2 powi (- 1074)"
proof -
  obtain m e where q: "q = of_int m * 2 powi e" "- 1074 \<le> e" using assms by (auto simp: f64_rep_def)
  have "(2 powi e :: rat) = of_int (2 ^ nat (e + 1074)) * 2 powi (- 1074)"
    using pow2_div [OF q(2)] by (simp add: divide_eq_eq)
  then have "q = of_int (m * 2 ^ nat (e + 1074)) * 2 powi (- 1074)"
    unfolding q(1) of_int_mult by (simp only: mult.assoc)
  then show thesis by (rule that)
qed

lemma f64_rep_diff_exp:
  assumes "f64_rep a" and "f64_rep m" and "m < a"
  shows "- 1074 \<le> ilog2 (a - m)"
proof -
  obtain i where i: "a = of_int i * 2 powi (- 1074)" by (rule f64_rep_grid [OF assms(1)])
  obtain j where j: "m = of_int j * 2 powi (- 1074)" by (rule f64_rep_grid [OF assms(2)])
  have "j < i" using assms(3) unfolding i j by (simp add: mult_less_cancel_right)
  then have "1 \<le> (of_int (i - j) :: rat)" by simp
  then have "1 * 2 powi (- 1074) \<le> (of_int (i - j) :: rat) * 2 powi (- 1074)"
    by (intro mult_right_mono) simp_all
  then have "2 powi (- 1074) \<le> a - m" unfolding i j by (simp add: left_diff_distrib)
  moreover have "a - m < 2 powi (ilog2 (a - m) + 1)" using assms(3) by (intro ilog2_bounds(2)) simp
  ultimately have "(2 powi (- 1074) :: rat) < 2 powi (ilog2 (a - m) + 1)" by (rule le_less_trans)
  then show ?thesis by (simp only: pow2_less_iff)
qed

text \<open>
  Half of a rounded difference is at most the power of two below the difference, which is a
  double: rounding it does not get past the difference.
\<close>

lemma rounded_step_le:
  assumes "0 < y" and "- 1074 \<le> ilog2 y" and "2 \<le> c"
  shows "0 \<le> round64 (round64 y / c)" and "round64 (round64 y / c) \<le> y"
proof -
  let ?k = "ilog2 y"
  have "y \<le> 2 powi (?k + 1)" using ilog2_bounds(2) [OF assms(1)] by simp
  then have "round64 y \<le> round64 (2 powi (?k + 1))" by (rule round64_mono)
  also have "\<dots> = 2 powi (?k + 1)" using assms(2) by (intro round64_rep f64_rep_pow2) simp
  finally have up: "round64 y \<le> 2 * 2 powi ?k" by (simp add: pow2_add)
  have nn: "0 \<le> round64 y" using assms(1) by (simp add: round64_nonneg)
  have "round64 y / c \<le> round64 y / 2" using nn assms(3) by (intro divide_left_mono) simp_all
  then have "round64 y / c \<le> 2 powi ?k" using up by linarith
  then have "round64 (round64 y / c) \<le> round64 (2 powi ?k)" by (rule round64_mono)
  also have "\<dots> = 2 powi ?k" using assms(2) by (intro round64_rep f64_rep_pow2)
  also have "\<dots> \<le> y" by (rule ilog2_bounds(1) [OF assms(1)])
  finally show "round64 (round64 y / c) \<le> y" .
  show "0 \<le> round64 (round64 y / c)" using nn assms(3) by (intro round64_nonneg) simp
qed

definition rounded_mean :: "rat \<Rightarrow> rat \<Rightarrow> rat \<Rightarrow> rat" where
  "rounded_mean c m a = round64 (m + round64 (round64 (a - m) / c))"

lemma rounded_mean_uminus: "rounded_mean c (- m) (- a) = - rounded_mean c m a"
proof -
  have "- a - - m = - (a - m)" by simp
  then have "rounded_mean c (- m) (- a) = round64 (- m + round64 (round64 (- (a - m)) / c))"
    by (simp only: rounded_mean_def)
  also have "\<dots> = round64 (- (m + round64 (round64 (a - m) / c)))"
    by (simp only: round64_uminus minus_divide_left [symmetric] minus_add_distrib)
  finally show ?thesis by (simp only: round64_uminus rounded_mean_def)
qed

lemma rounded_mean_above:
  assumes "f64_rep a" and "f64_rep m" and "m \<le> a" and "2 \<le> c \<or> c = 1 \<and> m = 0"
  shows "m \<le> rounded_mean c m a" and "rounded_mean c m a \<le> a"
    and "m \<le> m + round64 (round64 (a - m) / c)" and "m + round64 (round64 (a - m) / c) \<le> a"
proof -
  let ?q = "round64 (round64 (a - m) / c)"
  have "0 \<le> ?q \<and> ?q \<le> a - m"
  proof (cases "m = a \<or> c = 1")
    case True
    with assms show ?thesis by (auto simp: round64_rep)
  next
    case False
    with assms f64_rep_diff_exp [OF assms(1,2)] show ?thesis
      by (intro conjI rounded_step_le) auto
  qed
  then show q: "m \<le> m + ?q" "m + ?q \<le> a" by simp_all
  show "m \<le> rounded_mean c m a" "rounded_mean c m a \<le> a"
    unfolding rounded_mean_def
    using round64_mono [OF q(1)] round64_mono [OF q(2)] by (simp_all only: round64_rep assms)
qed

lemma f64_rep_uminus: "f64_rep q \<Longrightarrow> f64_rep (- q)"
  using round64_rep [of q] f64_rep_round64 [of "- q"] by simp

lemma rounded_mean_below:
  assumes "f64_rep a" and "f64_rep m" and "a \<le> m" and "2 \<le> c \<or> c = 1 \<and> m = 0"
  shows "a \<le> rounded_mean c m a" and "rounded_mean c m a \<le> m"
    and "a \<le> m + round64 (round64 (a - m) / c)" and "m + round64 (round64 (a - m) / c) \<le> m"
proof -
  note b = rounded_mean_above [OF f64_rep_uminus [OF assms(1)] f64_rep_uminus [OF assms(2)], of c]
  have q: "round64 (round64 (- a - - m) / c) = - round64 (round64 (a - m) / c)"
    using round64_uminus [of "a - m"] by (metis minus_diff_commute minus_diff_minus minus_divide_left round64_uminus)
  show "a \<le> rounded_mean c m a" "rounded_mean c m a \<le> m"
    "a \<le> m + round64 (round64 (a - m) / c)" "m + round64 (round64 (a - m) / c) \<le> m"
    using b assms(3,4) unfolding rounded_mean_uminus q by linarith+
qed


text \<open>The inputs: doubles of at most \<open>2 ^ 1021\<close>, so that no difference overflows.\<close>

definition f64_ordinary :: "f64 \<Rightarrow> bool" where
  "f64_ordinary x \<longleftrightarrow> (\<exists>a. f64_val x = Some a \<and> f64_rep a \<and> \<bar>a\<bar> \<le> 2 ^ 1021)"

definition m2_sound :: "f64 rolling_stats \<Rightarrow> bool" where
  "m2_sound r \<longleftrightarrow> \<not> rs_m2 r < 0 \<and>
     (rs_count r < rs_window_size r \<longrightarrow>
       (\<exists>m. f64_val (rs_mean r) = Some m \<and> f64_rep m \<and> \<bar>m\<bar> \<le> 2 ^ 1021 \<and> (rs_count r = 0 \<longrightarrow> m = 0)))"

lemma f64_val_count:
  fixes c :: u64
  assumes "c \<noteq> 0"
  obtains k where "f64_val (f64_of_u64 c) = Some k" and "c = 1 \<Longrightarrow> k = 1" and "c \<noteq> 1 \<Longrightarrow> 2 \<le> k"
proof -
  let ?q = "of_int (uint c) :: rat"
  have "uint c \<le> 2 ^ 64" using uint_lt2p [of c] by simp
  then have "?q \<le> of_int (2 ^ 64)" by (simp only: of_int_le_iff)
  also have "\<dots> \<le> 2 ^ 1023" unfolding of_int_power of_int_numeral by (rule power_increasing) simp_all
  finally have "?q \<le> 2 ^ 1023" .
  moreover have "0 \<le> ?q" by (simp only: of_int_0_le_iff uint_ge_0)
  ultimately have "\<bar>?q\<bar> \<le> 2 ^ 1023" by (simp only: abs_of_nonneg)
  then have v: "f64_val (f64_of_u64 c) = Some (round64 ?q)"
    unfolding f64_of_u64_def f64_of_int_def by (rule f64_val_rnd)
  moreover have "round64 ?q = 1" if "c = 1" using that round64_pow2 [of 0] by simp
  moreover have "2 \<le> round64 ?q" if "c \<noteq> 1"
  proof -
    have "uint c \<noteq> 0" "uint c \<noteq> 1" using assms that by (simp_all add: word_uint_eq_iff)
    then have "2 \<le> uint c" using uint_ge_0 [of c] by linarith
    then have "2 \<le> ?q" using of_int_le_iff [where 'a = rat, of 2 "uint c"] by simp
    from round64_mono [OF this] show ?thesis using round64_pow2 [of 1] by simp
  qed
  ultimately show thesis by (rule that)
qed

lemma double_bound: "\<bar>a\<bar> \<le> 2 ^ 1021 \<Longrightarrow> \<bar>m\<bar> \<le> 2 ^ 1021 \<Longrightarrow> \<bar>a - m\<bar> \<le> (2 ^ 1023 :: rat)"
proof -
  assume "\<bar>a\<bar> \<le> 2 ^ 1021" "\<bar>m\<bar> \<le> (2 ^ 1021 :: rat)"
  then have "\<bar>a - m\<bar> \<le> 2 * 2 ^ 1021" by linarith
  also have "\<dots> = (2 :: rat) ^ Suc 1021" by (simp only: power_Suc)
  also have "\<dots> \<le> 2 ^ 1023" by (rule power_increasing) simp_all
  finally show ?thesis .
qed

text \<open>Welford's step: the new mean is between the old one and the value, so the two
  differences have the same sign.\<close>

lemma growth_step:
  assumes m: "f64_val mean = Some m" "f64_rep m" "\<bar>m\<bar> \<le> 2 ^ 1021"
    and a: "f64_val x = Some a" "f64_rep a" "\<bar>a\<bar> \<le> 2 ^ 1021"
    and c: "f64_val k = Some c" "2 \<le> c \<or> c = 1 \<and> m = 0"
  shows "f64_val (mean + (x - mean) / k) = Some (rounded_mean c m a)"
    and "\<bar>rounded_mean c m a\<bar> \<le> 2 ^ 1021"
    and "\<not> (x - mean) * (x - (mean + (x - mean) / k)) < 0"
proof -
  let ?d = "round64 (a - m)" and ?r = "rounded_mean c m a"
  have ab: "m \<le> ?r \<and> ?r \<le> a \<and> m \<le> m + round64 (?d / c) \<and> m + round64 (?d / c) \<le> a \<or>
      a \<le> ?r \<and> ?r \<le> m \<and> a \<le> m + round64 (?d / c) \<and> m + round64 (?d / c) \<le> m"
    using rounded_mean_above [OF a(2) m(2) _ c(2)] rounded_mean_below [OF a(2) m(2) _ c(2)]
    by (cases "m \<le> a") auto
  have d: "f64_val (x - mean) = Some ?d" by (rule f64_val_sub [OF a(1) m(1) double_bound [OF a(3) m(3)]])
  have "\<bar>?d\<bar> \<le> 2 ^ 1023" by (rule round64_bounded [OF double_bound [OF a(3) m(3)]])
  moreover have "\<bar>?d / c\<bar> \<le> \<bar>?d\<bar>"
    using c(2) divide_left_mono [of 1 c "\<bar>?d\<bar>"] by (auto simp: abs_divide)
  ultimately have "\<bar>?d / c\<bar> \<le> 2 ^ 1023" by (rule order_trans [rotated])
  then have q: "f64_val ((x - mean) / k) = Some (round64 (?d / c))"
    using c(2) by (intro f64_val_div [OF d c(1)]) auto
  have le: "(2 ^ 1021 :: rat) \<le> 2 ^ 1023" by (rule power_increasing) simp_all
  have "\<bar>m + round64 (?d / c)\<bar> \<le> 2 ^ 1021" using ab m(3) a(3) by linarith
  then have "\<bar>m + round64 (?d / c)\<bar> \<le> 2 ^ 1023" using le by (rule order_trans)
  from f64_val_add [OF m(1) q this] show v: "f64_val (mean + (x - mean) / k) = Some ?r"
    by (simp only: rounded_mean_def)
  show r: "\<bar>?r\<bar> \<le> 2 ^ 1021" using ab m(3) a(3) by linarith
  have e: "f64_val (x - (mean + (x - mean) / k)) = Some (round64 (a - ?r))"
    by (rule f64_val_sub [OF a(1) v double_bound [OF a(3) r]])
  have "0 \<le> ?d * round64 (a - ?r)"
  proof (cases "m \<le> a \<and> ?r \<le> a")
    case True
    then show ?thesis by (intro mult_nonneg_nonneg round64_nonneg) simp_all
  next
    case False
    with ab have "a \<le> m" "a \<le> ?r" by auto
    then have "round64 (a - m) \<le> round64 0" "round64 (a - ?r) \<le> round64 0" by (intro round64_mono; simp)+
    then show ?thesis by (intro mult_nonpos_nonpos) simp_all
  qed
  from f64_val_mul_nonneg [OF d e this]
  show "\<not> (x - mean) * (x - (mean + (x - mean) / k)) < 0" .
qed

lemma rs_add_sound:
  assumes r: "m2_sound r" and x: "f64_ordinary x" and run: "rs_add f64_of_u64 x r = Some r'"
  shows "m2_sound r'"
proof (cases "rs_count r < rs_window_size r")
  case True
  obtain m where m: "f64_val (rs_mean r) = Some m" "f64_rep m" "\<bar>m\<bar> \<le> 2 ^ 1021" "rs_count r = 0 \<longrightarrow> m = 0"
    using r True by (auto simp: m2_sound_def)
  obtain a where a: "f64_val x = Some a" "f64_rep a" "\<bar>a\<bar> \<le> 2 ^ 1021"
    using x by (auto simp: f64_ordinary_def)
  have c0: "rs_count r + 1 \<noteq> 0" using unat_Suc_less [of "rs_count r" "rs_window_size r"] True
    by (metis nat.distinct(1) unat_0 word_less_nat_alt)
  obtain c where c: "f64_val (f64_of_u64 (rs_count r + 1)) = Some c"
    "rs_count r + 1 = 1 \<Longrightarrow> c = 1" "rs_count r + 1 \<noteq> 1 \<Longrightarrow> 2 \<le> c"
    using f64_val_count [OF c0] by metis
  have c': "2 \<le> c \<or> c = 1 \<and> m = 0" using c(2,3) m(4) by (cases "rs_count r = 0") auto
  note g = growth_step [OF m(1-3) a c(1) c']
  have "\<not> rs_m2 r < 0" using r by (simp add: m2_sound_def)
  from f64_add_nonneg [OF this g(3)] run True g(1,2) c0 f64_rep_round64 show ?thesis
    by (auto simp: rs_add_def m2_sound_def Let_def rounded_mean_def split: if_splits)
next
  case False
  with run show ?thesis by (auto simp: rs_add_def m2_sound_def Let_def split: if_splits)
qed

lemma rs_run_sound:
  "m2_sound r \<Longrightarrow> \<forall>x \<in> set xs. f64_ordinary x \<Longrightarrow> rs_run f64_of_u64 xs r = Some r' \<Longrightarrow> m2_sound r'"
  by (induction xs arbitrary: r) (auto simp: bind_eq_Some_conv dest: rs_add_sound)

lemma m2_sound_new: "m2_sound (rs_new w)"
  using f64_rep_int [of 0] by (auto simp: m2_sound_def rs_new_def)

lemma variance_nonneg: "m2_sound r \<Longrightarrow> \<not> rs_variance f64_of_u64 r < 0"
proof -
  assume r: "m2_sound r"
  show ?thesis
  proof (cases "rs_count r < 2")
    case False
    then have "rs_count r - 1 \<noteq> 0" by auto
    then obtain k where "f64_val (f64_of_u64 (rs_count r - 1)) = Some k" "0 < k"
      using f64_val_count [of "rs_count r - 1"] by (metis less_le_trans zero_less_numeral zero_less_one)
    then have "0 < f64_of_u64 (rs_count r - 1)" using f64_less_val [OF f64_val_0] by simp
    with r False show ?thesis by (simp add: rs_variance_def m2_sound_def f64_div_nonneg)
  qed (simp add: rs_variance_def)
qed

text \<open>
  (C39) The standard deviation is well defined: for values of at most \<open>2 ^ 1021\<close> in size, any
  window and any number of values, rounding never makes the variance negative, so \<open>std_dev\<close>
  is NaN only if the variance is; and where the variance is finite, the square of \<open>std_dev\<close> is
  within relative error \<open>2 ^ - 50\<close> of it.
\<close>

theorem std_dev_sound:
  assumes "\<forall>x \<in> set xs. f64_ordinary x" and "rs_run f64_of_u64 xs (rs_new w) = Some r"
  shows "(rs_std_dev r = NaN \<longleftrightarrow> rs_variance f64_of_u64 r = NaN) \<and>
    (\<forall>v. f64_val (rs_variance f64_of_u64 r) = Some v \<longrightarrow>
      (\<exists>s. f64_val (rs_std_dev r) = Some s \<and> 0 \<le> s \<and> \<bar>s * s - v\<bar> \<le> v / 2 ^ 50))"
proof -
  have nn: "\<not> rs_variance f64_of_u64 r < 0"
    by (rule variance_nonneg [OF rs_run_sound [OF m2_sound_new assms]])
  have "\<exists>s. f64_val (rs_std_dev r) = Some s \<and> 0 \<le> s \<and> \<bar>s * s - v\<bar> \<le> v / 2 ^ 50"
    if v: "f64_val (rs_variance f64_of_u64 r) = Some v" for v
  proof -
    have "0 \<le> v" using nn f64_less_val [OF v f64_val_0] by simp
    from f64_sqrt_val [OF v this] obtain s where
      s: "f64_val (rs_std_dev r) = Some s" "0 \<le> s" "near 2 (s * s) v"
      unfolding rs_std_dev_def by blast
    have "\<bar>s * s - v\<bar> \<le> 1 / 2 ^ 50 * v" by (rule near_error [OF s(3)]) (simp_all add: power2_eq_square)
    with s show ?thesis by auto
  qed
  with nn show ?thesis by (simp add: rs_std_dev_def f64_sqrt_NaN_iff)
qed

theorem std_dev_sound_witness:
  "\<exists>r. rs_run f64_of_u64 [Fin 10, Fin 20, Fin 40] (rs_new 3) = Some r \<and>
     (rs_std_dev r = NaN \<longleftrightarrow> rs_variance f64_of_u64 r = NaN)"
proof -
  have "f64_ordinary (Fin (of_int i))" if "\<bar>i\<bar> < 2 ^ 53" for i
  proof -
    have "\<bar>of_int i :: rat\<bar> \<le> of_int (2 ^ 53)" using that by (simp flip: of_int_abs)
    also have "\<dots> \<le> 2 ^ 1021" unfolding of_int_power of_int_numeral by (rule power_increasing) simp_all
    finally show ?thesis using f64_rep_int [OF that] by (simp add: f64_ordinary_def)
  qed
  from this [of 10] this [of 20] this [of 40]
  have ok: "\<forall>x \<in> set [Fin 10, Fin 20, Fin 40]. f64_ordinary x" by simp
  obtain r where r: "rs_run f64_of_u64 [Fin 10, Fin 20, Fin 40] (rs_new 3) = Some r"
    using rs_run_holds [of 3 f64_of_u64 "[Fin 10, Fin 20, Fin 40]"] by auto
  from std_dev_sound [OF ok r] r show ?thesis by blast
qed

end
