(* ===== verification/Market_Maker.thy ===== *)
theory Market_Maker
  imports Float64
begin

text \<open>
  \<^verbatim>\<open>quant/market_maker.cpp\<close>: the quotes of the Avellaneda-Stoikov model, in \<open>double\<close>. The
  library's natural logarithm is the parameter \<open>log_fn\<close>; \<open>log_ok\<close> is what C++ documents of it: the
  logarithm of an argument that is not below 1 is not negative. The conversion of a rounded
  price that does not fit \<open>uint64_t\<close> is undefined behaviour, \<open>None\<close>.
\<close>

record AvellanedaStoikovParams =
  as_gamma :: f64
  as_sigma :: f64
  as_k :: f64
  as_T :: f64

definition AvellanedaStoikovParams_default :: AvellanedaStoikovParams where
  "AvellanedaStoikovParams_default =
     \<lparr>as_gamma = rnd (1 / 10), as_sigma = Fin 1, as_k = Fin (3 / 2), as_T = Fin 1\<rparr>"

record Quotes =
  qt_bid :: Price
  qt_ask :: Price

definition time_left :: "AvellanedaStoikovParams \<Rightarrow> f64 \<Rightarrow> f64" where
  "time_left p t = (let left = as_T p - t in if left < 0 then 0 else left)"

definition calculate_reservation_price :: "AvellanedaStoikovParams \<Rightarrow> f64 \<Rightarrow> int \<Rightarrow> f64 \<Rightarrow> f64" where
  "calculate_reservation_price p mid_price inventory t =
     (let variance = as_sigma p * as_sigma p;
          inventory_risk_penalty = f64_of_int inventory * as_gamma p * variance * time_left p t
      in mid_price - inventory_risk_penalty)"

definition calculate_optimal_spread :: "(f64 \<Rightarrow> f64) \<Rightarrow> AvellanedaStoikovParams \<Rightarrow> f64 \<Rightarrow> f64" where
  "calculate_optimal_spread log_fn p t =
     (let variance = as_sigma p * as_sigma p;
          time_component = as_gamma p * variance * time_left p t;
          density_component = Fin 2 / as_gamma p * log_fn (Fin 1 + as_gamma p / as_k p)
      in time_component + density_component)"

definition get_quotes ::
  "(f64 \<Rightarrow> f64) \<Rightarrow> AvellanedaStoikovParams \<Rightarrow> f64 \<Rightarrow> int \<Rightarrow> f64 \<Rightarrow> Quotes option" where
  "get_quotes log_fn p mid_price inventory t =
     (let reservation_price = calculate_reservation_price p mid_price inventory t;
          spread = calculate_optimal_spread log_fn p t;
          raw_bid = reservation_price - spread / Fin 2;
          raw_ask = reservation_price + spread / Fin 2
      in case (f64_to_u64 (f64_round raw_bid), f64_to_u64 (f64_round raw_ask)) of
           (Some b, Some a) \<Rightarrow> Some \<lparr>qt_bid = b, qt_ask = a\<rparr>
         | _ \<Rightarrow> None)"

definition update_volatility :: "f64 \<Rightarrow> AvellanedaStoikovParams \<Rightarrow> AvellanedaStoikovParams" where
  "update_volatility new_sigma p = p\<lparr>as_sigma := new_sigma\<rparr>"

definition log_ok :: "(f64 \<Rightarrow> f64) \<Rightarrow> bool" where
  "log_ok log_fn \<longleftrightarrow> (\<forall>x. \<not> x < Fin 1 \<longrightarrow> \<not> log_fn x < 0)"

section \<open>The spread and the reservation price\<close>

lemma time_left_nonneg: "\<not> time_left p t < 0"
  by (simp add: time_left_def Let_def)

lemma one_plus_nonneg: "\<not> x < 0 \<Longrightarrow> \<not> Fin 1 + x < Fin 1"
proof -
  assume "\<not> x < 0"
  then have "\<not> x < Fin 0" by (simp add: zero_f64_def)
  then have "\<not> x + Fin 1 < Fin 0 + Fin 1" by (rule f64_add_mono)
  moreover have "Fin 0 + Fin 1 = Fin 1"
    using round64_int [of 1] by (simp add: plus_f64_def f64_add_def rnd_def)
  ultimately show ?thesis by (simp add: f64_add_commute)
qed

lemma spread_nonneg:
  assumes "log_ok log_fn" and "0 < as_gamma p" and "0 < as_k p"
  shows "\<not> calculate_optimal_spread log_fn p t < 0"
proof -
  have g: "\<not> as_gamma p < 0" using assms(2) by (cases "as_gamma p") auto
  have "\<not> Fin 1 + as_gamma p / as_k p < Fin 1"
    by (intro one_plus_nonneg f64_div_nonneg g assms(3))
  then have log: "\<not> log_fn (Fin 1 + as_gamma p / as_k p) < 0" using assms(1) by (simp add: log_ok_def)
  have two: "\<not> Fin 2 / as_gamma p < 0" by (intro f64_div_nonneg assms(2)) simp
  have "\<not> as_gamma p * (as_sigma p * as_sigma p) * time_left p t < 0"
    by (intro f64_mul_nonneg g f64_square_nonneg time_left_nonneg)
  then show ?thesis
    unfolding calculate_optimal_spread_def Let_def
    by (rule f64_add_nonneg [OF _ f64_mul_nonneg [OF two log]])
qed

lemma reservation_antimono:
  assumes "\<not> as_gamma p < 0" and "i \<le> j"
  shows "\<not> calculate_reservation_price p m i t < calculate_reservation_price p m j t"
proof -
  have "\<not> f64_of_int j < f64_of_int i" unfolding f64_of_int_def using assms(2) by (intro rnd_mono) simp
  then have "\<not> f64_of_int j * as_gamma p * (as_sigma p * as_sigma p) * time_left p t <
      f64_of_int i * as_gamma p * (as_sigma p * as_sigma p) * time_left p t"
    by (intro f64_mul_mono assms(1) f64_square_nonneg time_left_nonneg)
  then show ?thesis unfolding calculate_reservation_price_def Let_def by (rule f64_sub_antimono)
qed

lemma get_quotes_Some:
  "get_quotes log_fn p m i t = Some q \<longleftrightarrow>
     f64_to_u64 (f64_round (calculate_reservation_price p m i t - calculate_optimal_spread log_fn p t / Fin 2)) =
       Some (qt_bid q) \<and>
     f64_to_u64 (f64_round (calculate_reservation_price p m i t + calculate_optimal_spread log_fn p t / Fin 2)) =
       Some (qt_ask q)"
  by (cases q) (auto simp: get_quotes_def Let_def split: option.splits)

text \<open>The documented behaviour of the logarithm can hold: \<open>x - 1\<close> has it.\<close>

lemma log_ok_minus_one: "log_ok (\<lambda>x. x - Fin 1)"
  unfolding log_ok_def
proof (intro allI impI)
  fix x :: f64 assume "\<not> x < Fin 1"
  then have "\<not> x - Fin 1 < Fin 1 - Fin 1" by (rule f64_sub_mono)
  moreover have "Fin 1 - Fin 1 = (0 :: f64)"
    by (simp add: minus_f64_def f64_sub_def f64_add_def f64_zero_def zero_f64_def)
  ultimately show "\<not> x - Fin 1 < 0" by simp
qed

definition unit_params :: AvellanedaStoikovParams where
  "unit_params = \<lparr>as_gamma = Fin 1, as_sigma = Fin 1, as_k = Fin 1, as_T = Fin 1\<rparr>"

lemma unit_time_left: "f64_int (time_left unit_params 0) 1"
proof -
  have one: "f64_int (Fin 1) 1" by (simp add: f64_int_def)
  have left: "f64_int (Fin 1 - 0) 1" using f64_int_sub [OF one f64_int_zero] by simp
  then have "\<not> Fin 1 - 0 < (0 :: f64)" using f64_less_val [of "Fin 1 - 0" 1 0 0] by (simp add: f64_int_def)
  with left show ?thesis by (simp add: time_left_def unit_params_def Let_def)
qed

lemma unit_reservation:
  assumes "\<bar>i\<bar> < 2 ^ 52"
  shows "f64_val (calculate_reservation_price unit_params (Fin 100) i 0) = Some (of_int (100 - i))"
proof -
  have one: "f64_int (Fin 1) 1" "f64_int (Fin 100) 100" by (simp_all add: f64_int_def)
  have "f64_int (Fin 100 - f64_of_int i * Fin 1 * (Fin 1 * Fin 1) * time_left unit_params 0)
      (100 - i * 1 * (1 * 1) * 1)"
    using assms by (intro f64_int_sub f64_int_mul one unit_time_left f64_int_of_int) auto
  then show ?thesis
    by (simp add: calculate_reservation_price_def unit_params_def f64_int_def Let_def)
qed

lemma unit_spread: "f64_val (calculate_optimal_spread (\<lambda>x. x - Fin 1) unit_params 0 / Fin 2) = Some (3 / 2)"
proof -
  have one: "f64_int (Fin 1) 1" "f64_int (Fin 2) 2" by (simp_all add: f64_int_def)
  have div: "f64_int (Fin 1 / Fin 1) 1" "f64_int (Fin 2 / Fin 1) 2"
    using f64_int_div [OF _ one(1), of "Fin 1" 1] f64_int_div [OF _ one(1), of "Fin 2" 2] one by simp_all
  have "f64_int (calculate_optimal_spread (\<lambda>x. x - Fin 1) unit_params 0)
      (1 * (1 * 1) * 1 + 2 * (1 + 1 - 1))"
    unfolding calculate_optimal_spread_def Let_def unit_params_def AvellanedaStoikovParams.simps
    by (intro f64_int_add f64_int_mul f64_int_sub one div unit_time_left [unfolded unit_params_def]) simp_all
  then have "f64_val (calculate_optimal_spread (\<lambda>x. x - Fin 1) unit_params 0) = Some 3"
    by (simp add: f64_int_def)
  from f64_val_div [OF this, of "Fin 2" 2] round64_half [of 3] show ?thesis by simp
qed

lemma unit_quotes:
  assumes "0 \<le> i" and "i < 50"
  shows "get_quotes (\<lambda>x. x - Fin 1) unit_params (Fin 100) i 0 =
    Some \<lparr>qt_bid = word_of_int (99 - i), qt_ask = word_of_int (102 - i)\<rparr>"
proof -
  let ?r = "calculate_reservation_price unit_params (Fin 100) i 0"
  let ?h = "calculate_optimal_spread (\<lambda>x. x - Fin 1) unit_params 0 / Fin 2"
  have r: "f64_val ?r = Some (of_int (100 - i))" using unit_reservation assms by simp
  have halves: "of_int (100 - i) - 3 / 2 = (of_int (197 - 2 * i) / 2 :: rat)"
    "of_int (100 - i) + 3 / 2 = (of_int (203 - 2 * i) / 2 :: rat)" by (simp_all add: field_simps)
  have bnd: "\<bar>of_int (100 - i) - 3 / 2 :: rat\<bar> \<le> 2 ^ 1023" "\<bar>of_int (100 - i) + 3 / 2 :: rat\<bar> \<le> 2 ^ 1023"
    using assms by (auto intro!: order_trans [of _ 200 "2 ^ 1023"] simp: abs_le_iff)
  have bid: "f64_val (?r - ?h) = Some (of_int (197 - 2 * i) / 2)"
    using f64_val_sub [OF r unit_spread bnd(1)] round64_half [of "197 - 2 * i"] assms
    unfolding halves by simp
  have ask: "f64_val (?r + ?h) = Some (of_int (203 - 2 * i) / 2)"
    using f64_val_add [OF r unit_spread bnd(2)] round64_half [of "203 - 2 * i"] assms
    unfolding halves by simp
  have half: "round_half_away (of_int (197 - 2 * i) / 2) = 99 - i"
    "round_half_away (of_int (203 - 2 * i) / 2) = 102 - i"
    using assms by (simp_all add: round_half_away_def floor_eq_iff diff_divide_distrib)
  have "f64_to_u64 (f64_round (?r - ?h)) = Some (word_of_int (99 - i))"
    "f64_to_u64 (f64_round (?r + ?h)) = Some (word_of_int (102 - i))"
    using f64_val_round [OF bid] f64_val_round [OF ask] assms unfolding half
    by (intro f64_to_u64_int; simp)+
  then show ?thesis by (simp add: get_quotes_def Let_def)
qed

section \<open>Properties\<close>

text \<open>
  (C19) The quotes never cross: for a positive risk aversion and density, whatever the mid
  price, inventory, volatility and time (rounding, overflow and NaN included), if both
  conversions to a price are defined then the bid is not above the ask.
\<close>

theorem quotes_not_crossed:
  assumes "log_ok log_fn" and "0 < as_gamma p" and "0 < as_k p" and "get_quotes log_fn p m i t = Some q"
  shows "qt_bid q \<le> qt_ask q"
proof -
  have "\<not> calculate_optimal_spread log_fn p t / Fin 2 < 0"
    by (intro f64_div_nonneg spread_nonneg assms) simp
  from f64_to_u64_mono [OF f64_sub_le_add [OF this]] assms(4) show ?thesis
    unfolding get_quotes_Some by blast
qed

theorem quotes_not_crossed_witness:
  "\<exists>q. get_quotes (\<lambda>x. x - Fin 1) unit_params (Fin 100) 0 0 = Some q \<and> qt_bid q \<le> qt_ask q"
proof -
  obtain q where q: "get_quotes (\<lambda>x. x - Fin 1) unit_params (Fin 100) 0 0 = Some q"
    using unit_quotes [of 0] by auto
  have "0 < as_gamma unit_params" "0 < as_k unit_params" by (simp_all add: unit_params_def)
  from quotes_not_crossed [OF log_ok_minus_one this q] q show ?thesis by blast
qed

text \<open>
  (C29) Inventory skews the quotes the right way: for a risk aversion that is not negative, where
  both conversions are defined, more inventory makes neither the bid nor the ask higher, so a long
  position quotes lower and a short one higher.
\<close>

theorem quotes_fall_with_inventory:
  assumes "\<not> as_gamma p < 0" and "i \<le> j"
    and "get_quotes log_fn p m i t = Some qi" and "get_quotes log_fn p m j t = Some qj"
  shows "qt_bid qj \<le> qt_bid qi \<and> qt_ask qj \<le> qt_ask qi"
  using f64_to_u64_mono [OF f64_sub_mono [OF reservation_antimono [OF assms(1,2)]]]
    f64_to_u64_mono [OF f64_add_mono [OF reservation_antimono [OF assms(1,2)]]] assms(3,4)
  unfolding get_quotes_Some by blast

theorem quotes_fall_with_inventory_witness:
  "\<exists>q q'. get_quotes (\<lambda>x. x - Fin 1) unit_params (Fin 100) 0 0 = Some q \<and>
     get_quotes (\<lambda>x. x - Fin 1) unit_params (Fin 100) 10 0 = Some q' \<and>
     qt_bid q' \<le> qt_bid q \<and> qt_ask q' \<le> qt_ask q"
proof -
  obtain q q' where q: "get_quotes (\<lambda>x. x - Fin 1) unit_params (Fin 100) 0 0 = Some q"
    "get_quotes (\<lambda>x. x - Fin 1) unit_params (Fin 100) 10 0 = Some q'"
    using unit_quotes [of 0] unit_quotes [of 10] by simp
  have "\<not> as_gamma unit_params < 0" by (simp add: unit_params_def)
  from quotes_fall_with_inventory [OF this _ q] q show ?thesis by auto
qed

text \<open>
  A large inventory has no quotes: the raw bid is negative, and converting it to the
  unsigned price type is undefined behaviour. With the mid price at 100, risk aversion and
  volatility 1 and one unit of time left, 200 units of inventory are enough.
\<close>

lemma large_inventory_has_no_quotes:
  assumes "log_ok log_fn" and "200 \<le> i" and "i < 2 ^ 52"
  shows "get_quotes log_fn unit_params (Fin 100) i 0 = None"
proof -
  let ?r = "calculate_reservation_price unit_params (Fin 100) i 0"
  let ?h = "calculate_optimal_spread log_fn unit_params 0 / Fin 2"
  have "\<not> ?h < 0"
    by (intro f64_div_nonneg spread_nonneg assms(1)) (simp_all add: unit_params_def)
  then have le: "\<not> ?r - 0 < ?r - ?h" by (rule f64_sub_antimono)
  have r: "f64_int ?r (100 - i)" using unit_reservation [of i] assms(2,3) by (simp add: f64_int_def)
  have r0: "f64_val (?r - 0) = Some (of_int (100 - i))"
    using f64_int_sub [OF r f64_int_zero] assms(2,3) by (simp add: f64_int_def)
  have "f64_to_u64 (f64_round (?r - ?h)) = None"
  proof (cases "f64_val (?r - ?h)")
    case None
    then show ?thesis by (cases "?r - ?h") (simp_all add: f64_to_u64_def)
  next
    case (Some v)
    then have "v \<le> of_int (100 - i)" using f64_less_val [OF r0 Some] le by simp
    then have "round_half_away v \<le> round_half_away (of_int (100 - i))" by (rule round_half_away_mono)
    also have "\<dots> \<le> - 100" unfolding round_half_away_of_int using assms(2) by simp
    finally show ?thesis using f64_val_round [OF Some] by (simp add: f64_to_u64_def)
  qed
  then show ?thesis by (simp add: get_quotes_def Let_def)
qed

theorem large_inventory_has_no_quotes_witness:
  "get_quotes (\<lambda>x. x - Fin 1) unit_params (Fin 100) 200 0 = None"
  by (rule large_inventory_has_no_quotes) (simp_all add: log_ok_minus_one)

end
