(* ===== verification/Cpu_Affinity.thy ===== *)
theory Cpu_Affinity
  imports Core_Types
begin

unbundle bit_operations_syntax

text \<open>
  \<^verbatim>\<open>concurrency/cpu_affinity.cpp\<close>: which set of cores the two platforms' branches ask the
  operating system for, and what they return. The system calls are parameters that take the
  thread and the mask. A \<open>cpu_set_t\<close> is 1024 bits; \<open>CPU_SET\<close> converts its argument to
  \<open>size_t\<close> and leaves the set alone when the bit is outside it. On Windows the mask is one
  64-bit word, and a shift by a negative amount or by 64 and more is undefined behaviour,
  \<open>None\<close>.
\<close>

type_synonym i32 = "32 word"
type_synonym cpu_set = "1024 word"

definition CPU_SET :: "i32 \<Rightarrow> cpu_set \<Rightarrow> cpu_set" where
  "CPU_SET cpu s =
     (let c = unat (scast cpu :: u64) in if c div 8 < 128 then s OR push_bit c 1 else s)"

definition pin_thread_linux :: "('t \<Rightarrow> cpu_set \<Rightarrow> int) \<Rightarrow> 't \<Rightarrow> i32 \<Rightarrow> bool" where
  "pin_thread_linux setaffinity thread core_id =
     (let cpuset = CPU_SET core_id 0 in setaffinity thread cpuset = 0)"

definition pin_thread_windows :: "('t \<Rightarrow> u64 \<Rightarrow> u64) \<Rightarrow> 't \<Rightarrow> i32 \<Rightarrow> bool option" where
  "pin_thread_windows set_mask thread core_id =
     (if 0 \<le> sint core_id \<and> sint core_id < 64
      then let mask = push_bit (nat (sint core_id)) 1 in Some (set_mask thread mask \<noteq> 0)
      else None)"

text \<open>Both overloads: of a given thread, and of the calling one.\<close>

datatype platform = Win32 | Linux | Other_Platform

definition pin_thread_to_core ::
  "platform \<Rightarrow> ('t \<Rightarrow> cpu_set \<Rightarrow> int) \<Rightarrow> ('t \<Rightarrow> u64 \<Rightarrow> u64) \<Rightarrow> 't \<Rightarrow> i32 \<Rightarrow> bool option" where
  "pin_thread_to_core platform setaffinity set_mask thread core_id =
     (case platform of
        Win32 \<Rightarrow> pin_thread_windows set_mask thread core_id
      | Linux \<Rightarrow> Some (pin_thread_linux setaffinity thread core_id)
      | Other_Platform \<Rightarrow> Some False)"

definition pin_current_to_core ::
  "platform \<Rightarrow> ('t \<Rightarrow> cpu_set \<Rightarrow> int) \<Rightarrow> ('t \<Rightarrow> u64 \<Rightarrow> u64) \<Rightarrow> 't \<Rightarrow> i32 \<Rightarrow> bool option" where
  "pin_current_to_core platform setaffinity set_mask self core_id =
     pin_thread_to_core platform setaffinity set_mask self core_id"

section \<open>The set asked for\<close>

lemma scast_unat:
  "unat (scast (c :: i32) :: u64) = (if 0 \<le> sint c then nat (sint c) else nat (sint c + 2 ^ 64))"
proof -
  have r: "- (2 ^ 31) \<le> sint c" "sint c < 2 ^ 31"
    using sint_ge [of c] sint_lt [of c] by simp_all
  have len: "LENGTH(64) = 64" by simp
  have "uint (scast c :: u64) = sint c mod 2 ^ 64"
    unfolding scast_eq uint_word_of_int len by (rule refl)
  also have "\<dots> = (if 0 \<le> sint c then sint c else sint c + 2 ^ 64)"
  proof (cases "0 \<le> sint c")
    case True
    then have "sint c mod 2 ^ 64 = sint c" using r by (intro mod_pos_pos_trivial) simp_all
    then show ?thesis using True by (simp only: if_True)
  next
    case False
    have "(sint c + 2 ^ 64) mod 2 ^ 64 = sint c + 2 ^ 64"
      using False r by (intro mod_pos_pos_trivial) simp_all
    then have "sint c mod 2 ^ 64 = sint c + 2 ^ 64" by (simp only: mod_add_self2)
    then show ?thesis using False by (simp only: if_False)
  qed
  finally show ?thesis by (simp add: unat_eq_nat_uint)
qed

lemma CPU_SET_bits:
  "bit (CPU_SET c 0) i \<longleftrightarrow> int i = sint c \<and> sint c < 1024"
proof -
  have r: "- (2 ^ 31) \<le> sint c" "sint c < 2 ^ 31"
    using sint_ge [of c] sint_lt [of c] by simp_all
  show ?thesis
    using r by (auto simp: CPU_SET_def Let_def scast_unat bit_simps nat_eq_iff less_eq_nat_def)
qed

text \<open>
  Pinning asks for exactly the one core, when there is a bit for it; otherwise for no core at
  all, so that on a system that rejects the empty set, as Linux does, it returns false.
\<close>

lemma pin_thread_linux_exact:
  "pin_thread_linux setaffinity thread core_id \<longleftrightarrow>
     setaffinity thread (if 0 \<le> sint core_id \<and> sint core_id < 1024 then push_bit (nat (sint core_id)) 1
       else 0) = 0"
proof -
  have "CPU_SET core_id 0 =
      (if 0 \<le> sint core_id \<and> sint core_id < 1024 then push_bit (nat (sint core_id)) 1 else 0)"
    by (rule bit_eqI) (auto simp: CPU_SET_bits bit_simps)
  then show ?thesis by (simp only: pin_thread_linux_def Let_def)
qed

lemma pin_thread_linux_rejects:
  assumes "\<And>t. setaffinity t 0 \<noteq> 0" and "sint core_id < 0 \<or> 1024 \<le> sint core_id"
  shows "\<not> pin_thread_linux setaffinity thread core_id"
  using assms by (auto simp: pin_thread_linux_exact)

text \<open>
  The two branches agree on what they ask for, for the cores both can name: the low 64 bits
  of the one set are the other.
\<close>

lemma pin_masks_agree:
  assumes "0 \<le> sint core_id" and "sint core_id < 64"
  shows "pin_thread_to_core Win32 sa (\<lambda>t m. if m = ucast (CPU_SET core_id 0) then 1 else 0) t core_id = Some True"
proof -
  have "push_bit (nat (sint core_id)) 1 = (ucast (CPU_SET core_id 0) :: u64)"
    using assms by (intro bit_eqI) (auto simp: CPU_SET_bits bit_simps)
  with assms show ?thesis by (simp add: pin_thread_to_core_def pin_thread_windows_def)
qed

lemma pin_thread_windows_undefined:
  "pin_thread_windows set_mask thread core_id = None \<longleftrightarrow> sint core_id < 0 \<or> 64 \<le> sint core_id"
  by (auto simp: pin_thread_windows_def Let_def)

end
