(* ===== verification/SPSC_Release_Acquire.thy ===== *)
theory SPSC_Release_Acquire
  imports SPSC_Queue
begin

text \<open>
  The same queue under the memory orders it asks for. An atomic variable is its modification
  order, a list of messages; a thread's view says how far it has seen each of the two
  variables and which buffer accesses of each thread happen before its next step. A load may
  read any message that is not older than the view: \<open>choice\<close> picks one, and an index outside
  the readable range is brought into it. A release store attaches the view to its message and an acquire
  load joins it; relaxed ones do not. A buffer access that conflicts with one of the other
  thread that does not happen before it is a data race, undefined behaviour in C++.
\<close>

section \<open>Views, messages and atomic accesses\<close>

datatype memory_order = Relaxed | Acquire | Release

record view =
  vw_head :: nat    \<comment> \<open>position in the modification order of \<open>head_\<close>\<close>
  vw_tail :: nat    \<comment> \<open>position in the modification order of \<open>tail_\<close>\<close>
  vw_writes :: nat  \<comment> \<open>buffer writes of the producer that happened before\<close>
  vw_reads :: nat   \<comment> \<open>buffer reads of the consumer that happened before\<close>

record message =
  msg_index :: u64
  msg_view :: view

definition empty_view :: view where
  "empty_view = \<lparr>vw_head = 0, vw_tail = 0, vw_writes = 0, vw_reads = 0\<rparr>"

definition join_view :: "view \<Rightarrow> view \<Rightarrow> view" where
  "join_view v w = \<lparr>vw_head = max (vw_head v) (vw_head w), vw_tail = max (vw_tail v) (vw_tail w),
     vw_writes = max (vw_writes v) (vw_writes w), vw_reads = max (vw_reads v) (vw_reads w)\<rparr>"

definition acquired :: "memory_order \<Rightarrow> view \<Rightarrow> message \<Rightarrow> view" where
  "acquired mo v m = (if mo = Acquire then join_view v (msg_view m) else v)"

definition released :: "memory_order \<Rightarrow> view \<Rightarrow> view" where
  "released mo v = (if mo = Release then v else empty_view)"

definition readable :: "nat \<Rightarrow> nat \<Rightarrow> message list \<Rightarrow> nat" where
  "readable choice seen ms = max seen (min choice (length ms - 1))"

definition load_head :: "memory_order \<Rightarrow> nat \<Rightarrow> view \<Rightarrow> message list \<Rightarrow> u64 \<times> view" where
  "load_head mo choice v ms =
     (let i = readable choice (vw_head v) ms
      in (msg_index (ms ! i), acquired mo (v\<lparr>vw_head := i\<rparr>) (ms ! i)))"

definition load_tail :: "memory_order \<Rightarrow> nat \<Rightarrow> view \<Rightarrow> message list \<Rightarrow> u64 \<times> view" where
  "load_tail mo choice v ms =
     (let i = readable choice (vw_tail v) ms
      in (msg_index (ms ! i), acquired mo (v\<lparr>vw_tail := i\<rparr>) (ms ! i)))"

definition store_head :: "memory_order \<Rightarrow> u64 \<Rightarrow> view \<Rightarrow> message list \<Rightarrow> message list \<times> view" where
  "store_head mo x v ms =
     (let v1 = v\<lparr>vw_head := length ms\<rparr>
      in (ms @ [\<lparr>msg_index = x, msg_view = released mo v1\<rparr>], v1))"

definition store_tail :: "memory_order \<Rightarrow> u64 \<Rightarrow> view \<Rightarrow> message list \<Rightarrow> message list \<times> view" where
  "store_tail mo x v ms =
     (let v1 = v\<lparr>vw_tail := length ms\<rparr>
      in (ms @ [\<lparr>msg_index = x, msg_view = released mo v1\<rparr>], v1))"

section \<open>The threads\<close>

text \<open>
  The queue's fields and the two threads. \<open>ra_written\<close> and \<open>ra_read\<close> say for each slot the
  number of the last write and of the last read, 0 for none since the construction.
\<close>

record 'a ra =
  ra_mask :: u64
  ra_buffer :: "'a list"
  ra_written :: "nat list"
  ra_read :: "nat list"
  ra_head :: "message list"
  ra_tail :: "message list"
  ra_cached_tail :: u64
  ra_cached_head :: u64
  ra_pview :: view
  ra_cview :: view
  ra_producer :: "'a producer"
  ra_consumer :: "'a consumer"
  ra_pushed :: "'a list"
  ra_popped :: "'a list"

datatype 'a outcome =
    Continues
  | Push_Result bool
  | Pop_Result "'a option"
  | Out_Of_Bounds
  | Data_Race

definition ra_new :: "'a \<Rightarrow> u64 \<Rightarrow> 'a ra option" where
  "ra_new d capacity =
     (let first = [\<lparr>msg_index = 0, msg_view = empty_view\<rparr>]
      in map_option (\<lambda>q. \<lparr>ra_mask = sq_mask q, ra_buffer = sq_buffer q,
           ra_written = replicate (unat capacity) 0, ra_read = replicate (unat capacity) 0,
           ra_head = first, ra_tail = first, ra_cached_tail = 0, ra_cached_head = 0,
           ra_pview = empty_view, ra_cview = empty_view, ra_producer = P_Idle, ra_consumer = C_Idle,
           ra_pushed = [], ra_popped = []\<rparr>) (sq_new d capacity))"

definition ra_write :: "u64 \<Rightarrow> 'a \<Rightarrow> 'a ra \<Rightarrow> 'a outcome + 'a ra" where
  "ra_write i x t =
     (let s = unat i; v = ra_pview t; n = Suc (vw_writes v)
      in if s \<ge> length (ra_buffer t) then Inl Out_Of_Bounds
         else if ra_read t ! s > vw_reads v then Inl Data_Race
         else Inr (t\<lparr>ra_buffer := (ra_buffer t)[s := x], ra_written := (ra_written t)[s := n],
                     ra_pview := v\<lparr>vw_writes := n\<rparr>\<rparr>))"

definition ra_fetch :: "u64 \<Rightarrow> 'a ra \<Rightarrow> 'a outcome + 'a \<times> 'a ra" where
  "ra_fetch i t =
     (let s = unat i; v = ra_cview t; n = Suc (vw_reads v)
      in if s \<ge> length (ra_buffer t) then Inl Out_Of_Bounds
         else if ra_written t ! s > vw_writes v then Inl Data_Race
         else Inr (ra_buffer t ! s, t\<lparr>ra_read := (ra_read t)[s := n], ra_cview := v\<lparr>vw_reads := n\<rparr>\<rparr>))"

definition ra_push_step :: "nat \<Rightarrow> 'a \<Rightarrow> 'a ra \<Rightarrow> 'a outcome \<times> 'a ra" where
  "ra_push_step choice x t =
     (case ra_producer t of
        P_Idle \<Rightarrow>
          (let (head, v) = load_head Relaxed choice (ra_pview t) (ra_head t);
               next_head = (head + 1) AND ra_mask t
           in (Continues, t\<lparr>ra_pview := v,
                 ra_producer := if next_head = ra_cached_tail t then P_Refresh x head next_head
                                else P_Write x head next_head\<rparr>))
      | P_Refresh item head next_head \<Rightarrow>
          (let (tail, v) = load_tail Acquire choice (ra_pview t) (ra_tail t);
               t1 = t\<lparr>ra_pview := v, ra_cached_tail := tail\<rparr>
           in if next_head = ra_cached_tail t1
              then (Push_Result False, t1\<lparr>ra_producer := P_Idle\<rparr>)
              else (Continues, t1\<lparr>ra_producer := P_Write item head next_head\<rparr>))
      | P_Write item head next_head \<Rightarrow>
          (case ra_write head item t of
             Inl r \<Rightarrow> (r, t)
           | Inr t1 \<Rightarrow> (Continues, t1\<lparr>ra_producer := P_Publish item next_head\<rparr>))
      | P_Publish item next_head \<Rightarrow>
          (let (ms, v) = store_head Release next_head (ra_pview t) (ra_head t)
           in (Push_Result True, t\<lparr>ra_head := ms, ra_pview := v, ra_producer := P_Idle,
                 ra_pushed := ra_pushed t @ [item]\<rparr>)))"

definition ra_pop_step :: "nat \<Rightarrow> 'a ra \<Rightarrow> 'a outcome \<times> 'a ra" where
  "ra_pop_step choice t =
     (case ra_consumer t of
        C_Idle \<Rightarrow>
          (let (tail, v) = load_tail Relaxed choice (ra_cview t) (ra_tail t)
           in (Continues, t\<lparr>ra_cview := v,
                 ra_consumer := if tail = ra_cached_head t then C_Refresh tail else C_Read tail\<rparr>))
      | C_Refresh tail \<Rightarrow>
          (let (head, v) = load_head Acquire choice (ra_cview t) (ra_head t);
               t1 = t\<lparr>ra_cview := v, ra_cached_head := head\<rparr>
           in if tail = ra_cached_head t1
              then (Pop_Result None, t1\<lparr>ra_consumer := C_Idle\<rparr>)
              else (Continues, t1\<lparr>ra_consumer := C_Read tail\<rparr>))
      | C_Read tail \<Rightarrow>
          (case ra_fetch tail t of
             Inl r \<Rightarrow> (r, t)
           | Inr (item, t1) \<Rightarrow> (Continues, t1\<lparr>ra_consumer := C_Publish item tail\<rparr>))
      | C_Publish item tail \<Rightarrow>
          (let (ms, v) = store_tail Release ((tail + 1) AND ra_mask t) (ra_cview t) (ra_tail t)
           in (Pop_Result (Some item), t\<lparr>ra_tail := ms, ra_cview := v, ra_consumer := C_Idle,
                 ra_popped := ra_popped t @ [item]\<rparr>)))"

inductive ra_reach :: "'a ra \<Rightarrow> 'a ra \<Rightarrow> bool" for t0 where
  ra_start: "ra_reach t0 t0"
| ra_produce: "ra_reach t0 t \<Longrightarrow> ra_reach t0 (snd (ra_push_step choice x t))"
| ra_consume: "ra_reach t0 t \<Longrightarrow> ra_reach t0 (snd (ra_pop_step choice t))"

section \<open>What the views know\<close>

text \<open>
  \<open>H\<close> pushes and \<open>T\<close> pops are published, \<open>W\<close> writes and \<open>R\<close> reads done. The producer has seen
  \<open>CT\<close> of the pops, and that many reads happen before its next step; the consumer has seen
  \<open>CH\<close> of the pushes and their writes.
\<close>

definition below :: "nat \<Rightarrow> nat \<Rightarrow> nat \<Rightarrow> nat \<Rightarrow> view \<Rightarrow> bool" where
  "below H T W R v \<longleftrightarrow> vw_head v \<le> H \<and> vw_tail v \<le> T \<and> vw_writes v \<le> W \<and> vw_reads v \<le> R"

definition head_hist :: "nat \<Rightarrow> nat \<Rightarrow> nat \<Rightarrow> nat \<Rightarrow> nat \<Rightarrow> message list \<Rightarrow> bool" where
  "head_hist n H T W R ms \<longleftrightarrow> length ms = Suc H \<and>
     (\<forall>i \<le> H. unat (msg_index (ms ! i)) = i mod n \<and> vw_head (msg_view (ms ! i)) = i \<and>
        i \<le> vw_writes (msg_view (ms ! i)) \<and> below H T W R (msg_view (ms ! i)))"

definition tail_hist :: "nat \<Rightarrow> nat \<Rightarrow> nat \<Rightarrow> nat \<Rightarrow> nat \<Rightarrow> message list \<Rightarrow> bool" where
  "tail_hist n H T W R ms \<longleftrightarrow> length ms = Suc T \<and>
     (\<forall>i \<le> T. unat (msg_index (ms ! i)) = i mod n \<and> vw_tail (msg_view (ms ! i)) = i \<and>
        i \<le> vw_reads (msg_view (ms ! i)) \<and> below H T W R (msg_view (ms ! i)))"

definition producer_view :: "nat \<Rightarrow> nat \<Rightarrow> nat \<Rightarrow> nat \<Rightarrow> view \<Rightarrow> bool" where
  "producer_view H CT W R v \<longleftrightarrow> vw_head v = H \<and> vw_tail v = CT \<and> vw_writes v = W \<and>
     CT \<le> vw_reads v \<and> vw_reads v \<le> R"

definition consumer_view :: "nat \<Rightarrow> nat \<Rightarrow> nat \<Rightarrow> nat \<Rightarrow> view \<Rightarrow> bool" where
  "consumer_view CH T W R v \<longleftrightarrow> vw_head v = CH \<and> vw_tail v = T \<and> vw_reads v = R \<and>
     CH \<le> vw_writes v \<and> vw_writes v \<le> W"

lemma head_hist_mono:
  "head_hist n H T W R ms \<Longrightarrow> T \<le> T' \<Longrightarrow> W \<le> W' \<Longrightarrow> R \<le> R' \<Longrightarrow> head_hist n H T' W' R' ms"
  by (fastforce simp: head_hist_def below_def)

lemma tail_hist_mono:
  "tail_hist n H T W R ms \<Longrightarrow> H \<le> H' \<Longrightarrow> W \<le> W' \<Longrightarrow> R \<le> R' \<Longrightarrow> tail_hist n H' T W' R' ms"
  by (fastforce simp: tail_hist_def below_def)

lemma load_own_head:
  "head_hist n H T W R ms \<Longrightarrow> producer_view H CT W' R' v \<Longrightarrow>
     load_head Relaxed choice v ms = (msg_index (ms ! H), v)"
  by (simp add: load_head_def readable_def acquired_def head_hist_def producer_view_def Let_def)

lemma load_own_tail:
  "tail_hist n H T W R ms \<Longrightarrow> consumer_view CH T W' R' v \<Longrightarrow>
     load_tail Relaxed choice v ms = (msg_index (ms ! T), v)"
  by (simp add: load_tail_def readable_def acquired_def tail_hist_def consumer_view_def Let_def)

lemma acquire_tail:
  assumes "tail_hist n H T W R ms" and "producer_view H CT W R v" and "CT \<le> T"
  obtains CT' where "CT \<le> CT'" and "CT' \<le> T" and "unat (fst (load_tail Acquire choice v ms)) = CT' mod n"
    and "producer_view H CT' W R (snd (load_tail Acquire choice v ms))"
proof -
  let ?i = "readable choice (vw_tail v) ms"
  have i: "CT \<le> ?i" "?i \<le> T"
    using assms by (auto simp: readable_def tail_hist_def producer_view_def)
  with assms(1) have m: "unat (msg_index (ms ! ?i)) = ?i mod n" "vw_tail (msg_view (ms ! ?i)) = ?i"
    "?i \<le> vw_reads (msg_view (ms ! ?i))" "below H T W R (msg_view (ms ! ?i))"
    by (auto simp: tail_hist_def)
  with assms(2) i show thesis
    by (intro that [of ?i])
      (auto simp: load_tail_def acquired_def join_view_def producer_view_def below_def Let_def)
qed

lemma acquire_head:
  assumes "head_hist n H T W R ms" and "consumer_view CH T W R v" and "CH \<le> H"
  obtains CH' where "CH \<le> CH'" and "CH' \<le> H" and "unat (fst (load_head Acquire choice v ms)) = CH' mod n"
    and "consumer_view CH' T W R (snd (load_head Acquire choice v ms))"
proof -
  let ?i = "readable choice (vw_head v) ms"
  have i: "CH \<le> ?i" "?i \<le> H"
    using assms by (auto simp: readable_def head_hist_def consumer_view_def)
  with assms(1) have m: "unat (msg_index (ms ! ?i)) = ?i mod n" "vw_head (msg_view (ms ! ?i)) = ?i"
    "?i \<le> vw_writes (msg_view (ms ! ?i))" "below H T W R (msg_view (ms ! ?i))"
    by (auto simp: head_hist_def)
  with assms(2) i show thesis
    by (intro that [of ?i])
      (auto simp: load_head_def acquired_def join_view_def consumer_view_def below_def Let_def)
qed

lemma release_head:
  assumes "head_hist n H T W R ms" and "producer_view H CT W R v" and "CT \<le> T" and "W = Suc H"
    and "unat x = Suc H mod n"
  shows "head_hist n (Suc H) T W R (fst (store_head Release x v ms)) \<and>
    producer_view (Suc H) CT W R (snd (store_head Release x v ms))"
  using assms
  by (auto simp: head_hist_def producer_view_def store_head_def released_def below_def Let_def
      nth_append le_Suc_eq)

lemma release_tail:
  assumes "tail_hist n H T W R ms" and "consumer_view CH T W R v" and "CH \<le> H" and "R = Suc T"
    and "unat x = Suc T mod n"
  shows "tail_hist n H (Suc T) W R (fst (store_tail Release x v ms)) \<and>
    consumer_view CH (Suc T) W R (snd (store_tail Release x v ms))"
  using assms
  by (auto simp: tail_hist_def consumer_view_def store_tail_def released_def below_def Let_def
      nth_append le_Suc_eq)

section \<open>The invariant\<close>

text \<open>
  Between the last access of the buffer and the store that publishes it, the thread is one
  access ahead of its index.
\<close>

fun ahead_p :: "'a producer \<Rightarrow> nat" where
  "ahead_p (P_Publish _ _) = 1"
| "ahead_p _ = 0"

fun ahead_c :: "'a consumer \<Rightarrow> nat" where
  "ahead_c (C_Publish _ _) = 1"
| "ahead_c _ = 0"

fun push_ok :: "nat \<Rightarrow> nat \<Rightarrow> nat \<Rightarrow> 'a list \<Rightarrow> 'a producer \<Rightarrow> bool" where
  "push_ok n H CT buf P_Idle \<longleftrightarrow> True"
| "push_ok n H CT buf (P_Refresh x head nxt) \<longleftrightarrow> unat head = H mod n \<and> unat nxt = Suc H mod n"
| "push_ok n H CT buf (P_Write x head nxt) \<longleftrightarrow>
     unat head = H mod n \<and> unat nxt = Suc H mod n \<and> Suc H < CT + n"
| "push_ok n H CT buf (P_Publish x nxt) \<longleftrightarrow>
     unat nxt = Suc H mod n \<and> Suc H < CT + n \<and> buf ! (H mod n) = x"

fun pop_ok :: "nat \<Rightarrow> nat \<Rightarrow> nat \<Rightarrow> 'a list \<Rightarrow> 'a consumer \<Rightarrow> bool" where
  "pop_ok n T CH pushed C_Idle \<longleftrightarrow> True"
| "pop_ok n T CH pushed (C_Refresh tail) \<longleftrightarrow> unat tail = T mod n"
| "pop_ok n T CH pushed (C_Read tail) \<longleftrightarrow> unat tail = T mod n \<and> T < CH"
| "pop_ok n T CH pushed (C_Publish x tail) \<longleftrightarrow> unat tail = T mod n \<and> T < CH \<and> x = pushed ! T"

definition slots_ok :: "nat \<Rightarrow> 'a list \<Rightarrow> nat \<Rightarrow> nat \<Rightarrow> nat \<Rightarrow> 'a list \<Rightarrow> nat list \<Rightarrow> nat list \<Rightarrow> bool" where
  "slots_ok n pushed T W R buf written rd \<longleftrightarrow>
     length buf = n \<and> length written = n \<and> length rd = n \<and>
     (\<forall>i. T \<le> i \<longrightarrow> i < length pushed \<longrightarrow> buf ! (i mod n) = pushed ! i) \<and>
     (\<forall>i. T \<le> i \<longrightarrow> i < W \<longrightarrow> written ! (i mod n) = Suc i) \<and>
     (\<forall>s < n. rd ! s = 0 \<or> (\<exists>j < R. j mod n = s \<and> rd ! s = Suc j))"

definition ra_inv :: "nat \<Rightarrow> nat \<Rightarrow> nat \<Rightarrow> 'a ra \<Rightarrow> bool" where
  "ra_inv k CT CH t \<longleftrightarrow>
     (let n = 2 ^ k; H = length (ra_pushed t); T = length (ra_popped t);
          W = H + ahead_p (ra_producer t); R = T + ahead_c (ra_consumer t)
      in k < 64 \<and> ra_mask t = 2 ^ k - 1 \<and>
         CT \<le> T \<and> T \<le> CH \<and> CH \<le> H \<and> H < CT + n \<and>
         unat (ra_cached_tail t) = CT mod n \<and> unat (ra_cached_head t) = CH mod n \<and>
         head_hist n H T W R (ra_head t) \<and> tail_hist n H T W R (ra_tail t) \<and>
         producer_view H CT W R (ra_pview t) \<and> consumer_view CH T W R (ra_cview t) \<and>
         slots_ok n (ra_pushed t) T W R (ra_buffer t) (ra_written t) (ra_read t) \<and>
         push_ok n H CT (ra_buffer t) (ra_producer t) \<and> pop_ok n T CH (ra_pushed t) (ra_consumer t) \<and>
         ra_popped t = take T (ra_pushed t))"

lemma slots_ok_write:
  assumes "slots_ok n pushed T H R buf written rd" and "H = length pushed" and "H < T + n" and "T \<le> H"
  shows "slots_ok n pushed T (Suc H) R (buf[H mod n := x]) (written[H mod n := Suc H]) rd"
proof -
  have other: "i mod n \<noteq> H mod n" if "T \<le> i" "i < H" for i
    using mod_inj_near [of i n H] that assms(3) by auto
  have "0 < n" using assms(3,4) by simp
  then have "H mod n < n" by simp
  with assms other other [symmetric] show ?thesis
    by (auto simp: slots_ok_def less_Suc_eq nth_list_update)
qed

lemma slots_ok_read:
  assumes "slots_ok n pushed T W T buf written rd" and "0 < n"
  shows "slots_ok n pushed T W (Suc T) buf written (rd[T mod n := Suc T])"
  using assms by (auto simp: slots_ok_def nth_list_update less_Suc_eq)

lemma slots_ok_push:
  "slots_ok n pushed T W R buf written rd \<Longrightarrow> buf ! (length pushed mod n) = x \<Longrightarrow>
     slots_ok n (pushed @ [x]) T W R buf written rd"
  by (auto simp: slots_ok_def nth_append less_Suc_eq)

lemma slots_ok_pop:
  "slots_ok n pushed T W R buf written rd \<Longrightarrow> slots_ok n pushed (Suc T) W R buf written rd"
  by (simp add: slots_ok_def)

text \<open>The last reader of the slot the producer writes was seen by its acquire load.\<close>

lemma read_seen:
  assumes "slots_ok n pushed T W R buf written rd" and "H < CT + n" and "Suc H < CT + n"
    and "R \<le> Suc T" and "T \<le> H" and "R = Suc T \<longrightarrow> T < H" and "0 < n"
  shows "rd ! (H mod n) \<le> CT"
proof -
  have "H mod n < n" using assms(7) by simp
  with assms(1) have "rd ! (H mod n) = 0 \<or> (\<exists>j < R. j mod n = H mod n \<and> rd ! (H mod n) = Suc j)"
    by (simp add: slots_ok_def)
  then show ?thesis
  proof (elim disjE exE conjE)
    fix j assume j: "j < R" "j mod n = H mod n" "rd ! (H mod n) = Suc j"
    then have "j < H" using assms(4-6) by (cases "R = Suc T") auto
    then have "\<not> H < j + n" using mod_inj_near [of j n H] j(2) by auto
    then show ?thesis using j(3) assms(3) by simp
  qed simp
qed

lemma ra_inv_new:
  assumes "ra_new d c = Some t"
  obtains k where "unat c = 2 ^ k" and "ra_inv k 0 0 t"
proof -
  obtain q where q: "sq_new d c = Some q" using assms by (auto simp: ra_new_def Let_def)
  obtain k where k: "unat c = 2 ^ k" "spsc_inv k 0 0 (threads_of q)" by (rule spsc_inv_new [OF q])
  then have "k < 64" "sq_mask q = 2 ^ k - 1" "length (sq_buffer q) = 2 ^ k"
    by (auto simp: spsc_inv_def ring_ok_def threads_of_def)
  with assms q k have "ra_inv k 0 0 t"
    by (auto simp: ra_new_def ra_inv_def Let_def head_hist_def tail_hist_def producer_view_def
        consumer_view_def slots_ok_def below_def empty_view_def)
  with k(1) show thesis by (rule that)
qed

lemma ra_push_step_inv:
  assumes inv: "ra_inv k CT CH t"
  obtains CT' where "ra_inv k CT' CH (snd (ra_push_step choice x t))" and "CT \<le> CT'"
    and "fst (ra_push_step choice x t) \<notin> {Out_Of_Bounds, Data_Race}"
    and "fst (ra_push_step choice x t) = Push_Result False \<Longrightarrow>
      length (ra_pushed t) = CT' + (2 ^ k - 1)"
proof -
  let ?H = "length (ra_pushed t)" and ?T = "length (ra_popped t)" and ?n = "2 ^ k :: nat"
  let ?W = "?H + ahead_p (ra_producer t)" and ?R = "?T + ahead_c (ra_consumer t)"
  have k: "k < 64" "ra_mask t = 2 ^ k - 1"
    and order: "CT \<le> ?T" "?T \<le> CH" "CH \<le> ?H" "?H < CT + ?n"
    and cached: "unat (ra_cached_tail t) = CT mod ?n" "unat (ra_cached_head t) = CH mod ?n"
    and hh: "head_hist ?n ?H ?T ?W ?R (ra_head t)" and th: "tail_hist ?n ?H ?T ?W ?R (ra_tail t)"
    and pv: "producer_view ?H CT ?W ?R (ra_pview t)" and cv: "consumer_view CH ?T ?W ?R (ra_cview t)"
    and sl: "slots_ok ?n (ra_pushed t) ?T ?W ?R (ra_buffer t) (ra_written t) (ra_read t)"
    and ps: "push_ok ?n ?H CT (ra_buffer t) (ra_producer t)"
    and pp: "pop_ok ?n ?T CH (ra_pushed t) (ra_consumer t)"
    and pre: "ra_popped t = take ?T (ra_pushed t)"
    using inv by (simp_all add: ra_inv_def Let_def)
  show thesis
  proof (cases "ra_producer t")
    case P_Idle
    let ?h = "msg_index (ra_head t ! ?H)"
    have load: "load_head Relaxed choice (ra_pview t) (ra_head t) = (?h, ra_pview t)"
      by (rule load_own_head [OF hh pv])
    have h: "unat ?h = ?H mod ?n" using hh by (simp add: head_hist_def)
    have nxt: "unat ((?h + 1) AND ra_mask t) = Suc ?H mod ?n"
      using next_index [OF k(1), of ?h] k(2) h by (simp add: mod_Suc_eq)
    have "Suc ?H < CT + ?n" if "(?h + 1) AND ra_mask t \<noteq> ra_cached_tail t"
    proof (rule ccontr)
      assume "\<not> ?thesis"
      with order have "Suc ?H = CT + ?n" by simp
      with nxt cached have "unat ((?h + 1) AND ra_mask t) = unat (ra_cached_tail t)" by simp
      with that show False by (simp add: word_unat_eq_iff)
    qed
    with inv P_Idle load h nxt show thesis
      by (intro that [of CT]) (auto simp: ra_push_step_def ra_inv_def Let_def)
  next
    case (P_Refresh item h nx)
    with ps have pc: "unat h = ?H mod ?n" "unat nx = Suc ?H mod ?n" by simp_all
    obtain CT' where CT': "CT \<le> CT'" "CT' \<le> ?T"
      and tl: "unat (fst (load_tail Acquire choice (ra_pview t) (ra_tail t))) = CT' mod ?n"
      and pv': "producer_view ?H CT' ?W ?R (snd (load_tail Acquire choice (ra_pview t) (ra_tail t)))"
      by (rule acquire_tail [OF th pv order(1)])
    obtain tail v where tv: "load_tail Acquire choice (ra_pview t) (ra_tail t) = (tail, v)"
      by (metis surj_pair)
    have bound: "?H < CT' + ?n" using order CT' by simp
    have full: "?H = CT' + (?n - 1)" if "nx = tail"
    proof -
      have "Suc ?H = CT' + ?n"
        using that pc(2) tl tv order CT' bound by (intro next_head_full) auto
      then show ?thesis using zero_less_power [of "2::nat" k] by linarith
    qed
    have room: "Suc ?H < CT' + ?n" if "nx \<noteq> tail"
    proof (rule ccontr)
      assume "\<not> ?thesis"
      with bound have "Suc ?H = CT' + ?n" by simp
      with pc(2) tl tv have "unat nx = unat tail" by simp
      with that show False by (simp add: word_unat_eq_iff)
    qed
    show thesis
      using inv P_Refresh pc tv tl pv' bound CT' full room
      by (intro that [of CT']; cases "nx = tail") (simp_all add: ra_push_step_def ra_inv_def Let_def)
  next
    case (P_Write item h nx)
    with ps have pc: "unat h = ?H mod ?n" "unat nx = Suc ?H mod ?n" "Suc ?H < CT + ?n" by simp_all
    have pos: "(0::nat) < ?n" by simp
    have "?R \<le> Suc ?T" "?R = Suc ?T \<longrightarrow> ?T < ?H"
      using pp order by (cases "ra_consumer t"; simp)+
    then have "ra_read t ! (?H mod ?n) \<le> CT"
      using order pc by (intro read_seen [OF sl]) auto
    then have seen: "ra_read t ! unat h \<le> vw_reads (ra_pview t)"
      using pv pc(1) by (simp add: producer_view_def)
    have W: "?W = ?H" using P_Write by simp
    have len: "length (ra_buffer t) = ?n" using sl by (simp add: slots_ok_def)
    have sl': "slots_ok ?n (ra_pushed t) ?T (Suc ?H) ?R ((ra_buffer t)[?H mod ?n := item])
        ((ra_written t)[?H mod ?n := Suc ?H]) (ra_read t)"
      using sl W order by (intro slots_ok_write) auto
    have hh': "head_hist ?n ?H ?T (Suc ?H) ?R (ra_head t)" and th': "tail_hist ?n ?H ?T (Suc ?H) ?R (ra_tail t)"
      using head_hist_mono [OF hh, of ?T "Suc ?H" ?R] tail_hist_mono [OF th, of ?H "Suc ?H" ?R] W by auto
    have vw: "vw_writes (ra_pview t) = ?H" using pv W by (simp add: producer_view_def)
    have lt: "unat h < ?n" using pc(1) by simp
    have buf: "(ra_buffer t)[?H mod ?n := item] ! (?H mod ?n) = item" using len by simp
    have wr: "ra_write h item t = Inr (t\<lparr>ra_buffer := (ra_buffer t)[?H mod ?n := item],
        ra_written := (ra_written t)[?H mod ?n := Suc ?H], ra_pview := (ra_pview t)\<lparr>vw_writes := Suc ?H\<rparr>\<rparr>)"
      using seen len lt vw unfolding ra_write_def Let_def pc(1) [symmetric] by simp
    show thesis
      using P_Write k order cached hh' th' pv cv sl' pp pre pc buf wr
      by (intro that [of CT])
        (simp_all add: ra_push_step_def ra_inv_def Let_def producer_view_def consumer_view_def)
  next
    case (P_Publish item nx)
    with ps have pc: "unat nx = Suc ?H mod ?n" "Suc ?H < CT + ?n" "ra_buffer t ! (?H mod ?n) = item"
      by simp_all
    have W: "?W = Suc ?H" using P_Publish by simp
    obtain ms v where st: "store_head Release nx (ra_pview t) (ra_head t) = (ms, v)" by (metis surj_pair)
    from release_head [OF hh pv order(1) W pc(1)] st
    have hh': "head_hist ?n (Suc ?H) ?T (Suc ?H) ?R ms" and pv': "producer_view (Suc ?H) CT (Suc ?H) ?R v"
      using W by simp_all
    have th': "tail_hist ?n (Suc ?H) ?T (Suc ?H) ?R (ra_tail t)"
      using tail_hist_mono [OF th, of "Suc ?H" "Suc ?H" ?R] W by simp
    have sl': "slots_ok ?n (ra_pushed t @ [item]) ?T (Suc ?H) ?R (ra_buffer t) (ra_written t) (ra_read t)"
      using slots_ok_push [OF sl pc(3)] W by simp
    have pp': "pop_ok ?n ?T CH (ra_pushed t @ [item]) (ra_consumer t)"
      using pp order by (cases "ra_consumer t") (auto simp: nth_append)
    show thesis
      using P_Publish k order cached hh' th' pv' cv sl' pp' pre pc st W
      by (intro that [of CT]) (auto simp: ra_push_step_def ra_inv_def Let_def)
  qed
qed

lemma ra_pop_step_inv:
  assumes inv: "ra_inv k CT CH t"
  obtains CH' where "ra_inv k CT CH' (snd (ra_pop_step choice t))" and "CH \<le> CH'"
    and "fst (ra_pop_step choice t) \<notin> {Out_Of_Bounds, Data_Race}"
    and "fst (ra_pop_step choice t) = Pop_Result None \<Longrightarrow> length (ra_popped t) = CH'"
proof -
  let ?H = "length (ra_pushed t)" and ?T = "length (ra_popped t)" and ?n = "2 ^ k :: nat"
  let ?W = "?H + ahead_p (ra_producer t)" and ?R = "?T + ahead_c (ra_consumer t)"
  have k: "k < 64" "ra_mask t = 2 ^ k - 1"
    and order: "CT \<le> ?T" "?T \<le> CH" "CH \<le> ?H" "?H < CT + ?n"
    and cached: "unat (ra_cached_tail t) = CT mod ?n" "unat (ra_cached_head t) = CH mod ?n"
    and hh: "head_hist ?n ?H ?T ?W ?R (ra_head t)" and th: "tail_hist ?n ?H ?T ?W ?R (ra_tail t)"
    and pv: "producer_view ?H CT ?W ?R (ra_pview t)" and cv: "consumer_view CH ?T ?W ?R (ra_cview t)"
    and sl: "slots_ok ?n (ra_pushed t) ?T ?W ?R (ra_buffer t) (ra_written t) (ra_read t)"
    and ps: "push_ok ?n ?H CT (ra_buffer t) (ra_producer t)"
    and pp: "pop_ok ?n ?T CH (ra_pushed t) (ra_consumer t)"
    and pre: "ra_popped t = take ?T (ra_pushed t)"
    using inv by (simp_all add: ra_inv_def Let_def)
  show thesis
  proof (cases "ra_consumer t")
    case C_Idle
    let ?tl = "msg_index (ra_tail t ! ?T)"
    have load: "load_tail Relaxed choice (ra_cview t) (ra_tail t) = (?tl, ra_cview t)"
      by (rule load_own_tail [OF th cv])
    have tl: "unat ?tl = ?T mod ?n" using th by (simp add: tail_hist_def)
    have "?T < CH" if "?tl \<noteq> ra_cached_head t"
      using that tl cached order(2) by (cases "?T = CH") (auto simp: word_unat_eq_iff)
    with inv C_Idle load tl show thesis
      by (intro that [of CH]) (auto simp: ra_pop_step_def ra_inv_def Let_def)
  next
    case (C_Refresh tl)
    with pp have pc: "unat tl = ?T mod ?n" by simp
    obtain CH' where CH': "CH \<le> CH'" "CH' \<le> ?H"
      and hd: "unat (fst (load_head Acquire choice (ra_cview t) (ra_head t))) = CH' mod ?n"
      and cv': "consumer_view CH' ?T ?W ?R (snd (load_head Acquire choice (ra_cview t) (ra_head t)))"
      by (rule acquire_head [OF hh cv order(3)])
    obtain head v where hv: "load_head Acquire choice (ra_cview t) (ra_head t) = (head, v)"
      by (metis surj_pair)
    have empty: "?T = CH'" if "tl = head"
    proof -
      have "?T mod ?n = CH' mod ?n" using that pc hd hv by simp
      then show ?thesis by (rule mod_inj_near) (use order CH' in linarith)+
    qed
    have some: "?T < CH'" if "tl \<noteq> head"
      using that pc hd hv order CH' by (cases "?T = CH'") (auto simp: word_unat_eq_iff)
    show thesis
      using inv C_Refresh pc hv hd cv' order CH' empty some
      by (intro that [of CH']; cases "tl = head") (simp_all add: ra_pop_step_def ra_inv_def Let_def)
  next
    case (C_Read tl)
    with pp have pc: "unat tl = ?T mod ?n" "?T < CH" by simp_all
    have R: "?R = ?T" using C_Read by simp
    have len: "length (ra_buffer t) = ?n" using sl by (simp add: slots_ok_def)
    have "ra_written t ! (?T mod ?n) = Suc ?T" using sl pc order by (simp add: slots_ok_def)
    then have seen: "ra_written t ! unat tl \<le> vw_writes (ra_cview t)"
      using cv pc by (simp add: consumer_view_def)
    have item: "ra_buffer t ! unat tl = ra_pushed t ! ?T" using sl pc order by (simp add: slots_ok_def)
    have sl': "slots_ok ?n (ra_pushed t) ?T ?W (Suc ?T) (ra_buffer t) (ra_written t)
        ((ra_read t)[?T mod ?n := Suc ?T])"
      using slots_ok_read [of ?n "ra_pushed t" ?T ?W] sl R by simp
    have hh': "head_hist ?n ?H ?T ?W (Suc ?T) (ra_head t)" and th': "tail_hist ?n ?H ?T ?W (Suc ?T) (ra_tail t)"
      using head_hist_mono [OF hh, of ?T ?W "Suc ?T"] tail_hist_mono [OF th, of ?H ?W "Suc ?T"] R by auto
    have vw: "vw_reads (ra_cview t) = ?T" using cv R by (simp add: consumer_view_def)
    have lt: "unat tl < ?n" using pc(1) by simp
    have fetch: "ra_fetch tl t = Inr (ra_pushed t ! ?T, t\<lparr>ra_read := (ra_read t)[?T mod ?n := Suc ?T],
        ra_cview := (ra_cview t)\<lparr>vw_reads := Suc ?T\<rparr>\<rparr>)"
      using seen item len lt vw unfolding ra_fetch_def Let_def pc(1) [symmetric] by simp
    show thesis
      using C_Read k order cached hh' th' pv cv sl' ps pre pc fetch
      by (intro that [of CH])
        (simp_all add: ra_pop_step_def ra_inv_def Let_def producer_view_def consumer_view_def)
  next
    case (C_Publish item tl)
    with pp have pc: "unat tl = ?T mod ?n" "?T < CH" "item = ra_pushed t ! ?T" by simp_all
    have R: "?R = Suc ?T" using C_Publish by simp
    have nxt: "unat ((tl + 1) AND ra_mask t) = Suc ?T mod ?n"
      using next_index [OF k(1), of tl] k(2) pc(1) by (simp add: mod_Suc_eq)
    obtain ms v where st: "store_tail Release ((tl + 1) AND ra_mask t) (ra_cview t) (ra_tail t) = (ms, v)"
      by (metis surj_pair)
    from release_tail [OF th cv order(3) R nxt] st
    have th': "tail_hist ?n ?H (Suc ?T) ?W (Suc ?T) ms" and cv': "consumer_view CH (Suc ?T) ?W (Suc ?T) v"
      using R by simp_all
    have hh': "head_hist ?n ?H (Suc ?T) ?W (Suc ?T) (ra_head t)"
      using head_hist_mono [OF hh, of "Suc ?T" ?W "Suc ?T"] R by simp
    have sl': "slots_ok ?n (ra_pushed t) (Suc ?T) ?W (Suc ?T) (ra_buffer t) (ra_written t) (ra_read t)"
      using slots_ok_pop [OF sl] R by simp
    have pre': "ra_popped t @ [item] = take (Suc ?T) (ra_pushed t)"
      using pre pc order by (simp add: take_Suc_conv_app_nth)
    have "min ?H (Suc ?T) = Suc ?T" using pc(2) order by simp
    then show thesis
      using C_Publish k order cached hh' th' pv cv' sl' ps pre' pc st R
      by (intro that [of CH]) (auto simp: ra_pop_step_def ra_inv_def Let_def)
  qed
qed

lemma ra_reach_inv:
  assumes "ra_new d c = Some t0" and "ra_reach t0 t"
  obtains k CT CH where "unat c = 2 ^ k" and "ra_inv k CT CH t"
proof -
  obtain k where k: "unat c = 2 ^ k" "ra_inv k 0 0 t0" by (rule ra_inv_new [OF assms(1)])
  from assms(2) have "\<exists>CT CH. ra_inv k CT CH t"
  proof (induction rule: ra_reach.induct)
    case ra_start
    with k(2) show ?case by blast
  next
    case (ra_produce t choice x)
    then obtain CT CH where "ra_inv k CT CH t" by blast
    then show ?case by (rule ra_push_step_inv [of k CT CH t choice x]) blast
  next
    case (ra_consume t choice)
    then obtain CT CH where "ra_inv k CT CH t" by blast
    then show ?case by (rule ra_pop_step_inv [of k CT CH t choice]) blast
  qed
  with k(1) that show thesis by blast
qed

section \<open>Properties\<close>

text \<open>
  (C11) The queue's memory orders suffice: in every state that the release and acquire
  accesses allow, with loads that may return stale indices, no step of either thread accesses
  the buffer out of bounds or races with the other thread; every conflicting access happens
  before it.
\<close>

theorem spsc_orders_suffice:
  assumes "ra_new d c = Some t0" and "ra_reach t0 t"
  shows "fst (ra_push_step choice x t) \<notin> {Out_Of_Bounds, Data_Race} \<and>
    fst (ra_pop_step choice t) \<notin> {Out_Of_Bounds, Data_Race}"
proof -
  obtain k CT CH where inv: "ra_inv k CT CH t" by (rule ra_reach_inv [OF assms])
  show ?thesis
    by (rule ra_push_step_inv [OF inv, of choice x], rule ra_pop_step_inv [OF inv, of choice]) blast
qed

text \<open>A schedule says which thread moves, with the choices of its loads.\<close>

fun run_ra :: "(nat \<times> 'a option) list \<Rightarrow> 'a ra \<Rightarrow> 'a ra" where
  "run_ra [] t = t"
| "run_ra ((choice, Some x) # ss) t = run_ra ss (snd (ra_push_step choice x t))"
| "run_ra ((choice, None) # ss) t = run_ra ss (snd (ra_pop_step choice t))"

lemma run_ra_reach: "ra_reach t0 t \<Longrightarrow> ra_reach t0 (run_ra ss t)"
  by (induction ss t rule: run_ra.induct) (auto intro: ra_reach.intros)

text \<open>
  Two pushes and two pops on two slots; the third push first loads a stale tail and fails,
  then loads the current one and is about to write the slot that the first pop has read.
\<close>

definition ra_demo :: "nat ra" where
  "ra_demo = run_ra
     [(0, Some 5), (0, Some 5), (0, Some 5), (0, None), (1, None), (0, None), (0, None),
      (0, Some 6), (1, Some 6), (0, Some 6), (0, Some 6), (0, None), (2, None), (0, None), (0, None),
      (0, Some 7), (1, Some 7), (0, Some 7), (2, Some 7)] (the (ra_new 0 2))"

lemma ra_demo_reach:
  obtains t0 where "ra_new (0::nat) 2 = Some t0" and "ra_reach t0 ra_demo"
proof -
  obtain t0 where t0: "ra_new (0::nat) 2 = Some t0" by (auto simp: ra_new_def sq_new_def Let_def)
  have "ra_reach t0 ra_demo"
    unfolding ra_demo_def t0 option.sel by (rule run_ra_reach [OF ra_start])
  with t0 show thesis by (rule that)
qed

lemma ra_demo_writes: "ra_producer ra_demo = P_Write 7 0 1 \<and> ra_read ra_demo = [1, 2]"
  by code_simp

theorem spsc_orders_suffice_witness:
  "ra_producer ra_demo = P_Write 7 0 1 \<and> ra_read ra_demo ! 0 = 1 \<and>
     fst (ra_push_step 0 8 ra_demo) \<notin> {Out_Of_Bounds, Data_Race}"
proof (rule ra_demo_reach)
  fix t0 assume "ra_new (0::nat) 2 = Some t0" "ra_reach t0 ra_demo"
  from spsc_orders_suffice [OF this] ra_demo_writes show ?thesis by simp
qed

text \<open>
  Under every interleaving of the two threads and every choice of the values that the
  acquire loads may return the queue is a FIFO channel: the items popped are the first items
  pushed, in order, none lost, duplicated or overwritten, and at most \<open>capacity - 1\<close> are in
  flight.
\<close>

lemma spsc_fifo_release_acquire:
  assumes "ra_new d c = Some t0" and "ra_reach t0 t"
  shows "ra_popped t = take (length (ra_popped t)) (ra_pushed t) \<and>
    length (ra_popped t) \<le> length (ra_pushed t) \<and>
    length (ra_pushed t) - length (ra_popped t) \<le> unat c - 1"
proof -
  obtain k CT CH where k: "unat c = 2 ^ k" and inv: "ra_inv k CT CH t" by (rule ra_reach_inv [OF assms])
  then show ?thesis by (auto simp: ra_inv_def Let_def)
qed

theorem spsc_fifo_release_acquire_witness:
  "ra_producer ra_demo = P_Write 7 0 1 \<and> length (ra_pushed ra_demo) - length (ra_popped ra_demo) \<le> 1"
proof (rule ra_demo_reach)
  fix t0 assume "ra_new (0::nat) 2 = Some t0" "ra_reach t0 ra_demo"
  from spsc_fifo_release_acquire [OF this] ra_demo_writes show ?thesis by simp
qed

end
