(* ===== verification/SPSC_Refinement.thy ===== *)
theory SPSC_Refinement
  imports SPSC_Release_Acquire
begin

text \<open>
  What the queue promises its two threads, as an abstract channel, and the refinement: whatever
  the threads of \<open>SPSC_Release_Acquire\<close> return, in the order in which they return it, the channel
  can return too. The channel has no ring, no indices and no memory orders. Its state is the
  history of the items and how much of the other thread's progress each thread knows of; that
  knowledge grows at any time, and only a thread that knows of no room (no item) may fail.
\<close>

section \<open>The channel\<close>

record 'a channel =
  ch_items :: "'a list"
  ch_taken :: nat
  ch_known_taken :: nat
  ch_known_items :: nat

datatype 'a channel_event = Enqueued 'a | Was_Full | Dequeued 'a | Was_Empty | Undefined

definition channel_new :: "'a channel" where
  "channel_new = \<lparr>ch_items = [], ch_taken = 0, ch_known_taken = 0, ch_known_items = 0\<rparr>"

text \<open>A run of a channel that holds \<open>room\<close> items, with the events it makes.\<close>

inductive channel_run :: "nat \<Rightarrow> 'a channel \<Rightarrow> 'a channel_event list \<Rightarrow> 'a channel \<Rightarrow> bool"
  for room where
  ch_stop: "channel_run room c [] c"
| ch_producer_learns: "\<lbrakk>channel_run room (c\<lparr>ch_known_taken := n\<rparr>) es c'; ch_known_taken c \<le> n; n \<le> ch_taken c\<rbrakk>
     \<Longrightarrow> channel_run room c es c'"
| ch_consumer_learns: "\<lbrakk>channel_run room (c\<lparr>ch_known_items := n\<rparr>) es c'; ch_known_items c \<le> n;
     n \<le> length (ch_items c)\<rbrakk> \<Longrightarrow> channel_run room c es c'"
| ch_enqueue: "\<lbrakk>channel_run room (c\<lparr>ch_items := ch_items c @ [x]\<rparr>) es c';
     length (ch_items c) < ch_known_taken c + room\<rbrakk> \<Longrightarrow> channel_run room c (Enqueued x # es) c'"
| ch_full: "\<lbrakk>channel_run room c es c'; length (ch_items c) = ch_known_taken c + room\<rbrakk>
     \<Longrightarrow> channel_run room c (Was_Full # es) c'"
| ch_dequeue: "\<lbrakk>channel_run room (c\<lparr>ch_taken := Suc (ch_taken c)\<rparr>) es c'; ch_taken c < ch_known_items c\<rbrakk>
     \<Longrightarrow> channel_run room c (Dequeued (ch_items c ! ch_taken c) # es) c'"
| ch_empty: "\<lbrakk>channel_run room c es c'; ch_taken c = ch_known_items c\<rbrakk>
     \<Longrightarrow> channel_run room c (Was_Empty # es) c'"

section \<open>What the channel guarantees\<close>

fun enqueued :: "'a channel_event list \<Rightarrow> 'a list" where
  "enqueued [] = []"
| "enqueued (Enqueued x # es) = x # enqueued es"
| "enqueued (_ # es) = enqueued es"

fun dequeued :: "'a channel_event list \<Rightarrow> 'a list" where
  "dequeued [] = []"
| "dequeued (Dequeued x # es) = x # dequeued es"
| "dequeued (_ # es) = dequeued es"

definition channel_ok :: "nat \<Rightarrow> 'a channel \<Rightarrow> bool" where
  "channel_ok room c \<longleftrightarrow> ch_known_taken c \<le> ch_taken c \<and> ch_taken c \<le> ch_known_items c \<and>
     ch_known_items c \<le> length (ch_items c) \<and> length (ch_items c) \<le> ch_known_taken c + room"

lemma channel_run_ok:
  "channel_run room c es c' \<Longrightarrow> channel_ok room c \<Longrightarrow>
     channel_ok room c' \<and> ch_items c' = ch_items c @ enqueued es \<and> Undefined \<notin> set es"
  by (induction rule: channel_run.induct) (auto simp: channel_ok_def)

lemma channel_run_order:
  "channel_run room c es c' \<Longrightarrow> channel_ok room c \<Longrightarrow>
     take (ch_taken c') (ch_items c') = take (ch_taken c) (ch_items c) @ dequeued es"
proof (induction rule: channel_run.induct)
  case (ch_dequeue c es c')
  let ?c = "c\<lparr>ch_taken := Suc (ch_taken c)\<rparr>"
  have len: "ch_taken c < length (ch_items c)" using ch_dequeue by (simp add: channel_ok_def)
  have "channel_ok room ?c" using ch_dequeue.hyps(2) ch_dequeue.prems by (simp add: channel_ok_def)
  with ch_dequeue.IH show ?case using len by (simp add: take_Suc_conv_app_nth)
qed (auto simp: channel_ok_def)

section \<open>The events of the threads\<close>

text \<open>An error of the concrete queue is \<open>Undefined\<close>, which the channel never does.\<close>

fun event_of :: "'a outcome \<Rightarrow> 'a ra \<Rightarrow> 'a channel_event list" where
  "event_of Continues t = []"
| "event_of (Push_Result b) t = (if b then [Enqueued (last (ra_pushed t))] else [Was_Full])"
| "event_of (Pop_Result None) t = [Was_Empty]"
| "event_of (Pop_Result (Some x)) t = [Dequeued x]"
| "event_of Out_Of_Bounds t = [Undefined]"
| "event_of Data_Race t = [Undefined]"

fun move :: "nat \<times> 'a option \<Rightarrow> 'a ra \<Rightarrow> 'a outcome \<times> 'a ra" where
  "move (choice, Some x) t = ra_push_step choice x t"
| "move (choice, None) t = ra_pop_step choice t"

fun trace_ra :: "(nat \<times> 'a option) list \<Rightarrow> 'a ra \<Rightarrow> 'a channel_event list" where
  "trace_ra [] t = []"
| "trace_ra (a # as) t = (case move a t of (r, t') \<Rightarrow> event_of r t' @ trace_ra as t')"

section \<open>The simulation\<close>

definition channel_of :: "nat \<Rightarrow> nat \<Rightarrow> 'a ra \<Rightarrow> 'a channel" where
  "channel_of CT CH t = \<lparr>ch_items = ra_pushed t, ch_taken = length (ra_popped t),
     ch_known_taken = CT, ch_known_items = CH\<rparr>"

lemma ra_inv_order:
  "ra_inv k CT CH t \<Longrightarrow> CT \<le> length (ra_popped t) \<and> length (ra_popped t) \<le> CH \<and>
     CH \<le> length (ra_pushed t) \<and> length (ra_pushed t) < CT + 2 ^ k \<and>
     ra_popped t = take (length (ra_popped t)) (ra_pushed t)"
  by (simp add: ra_inv_def Let_def)

lemma ra_push_step_effect:
  "fst (ra_push_step choice x t) \<in> {Continues, Push_Result True, Push_Result False, Out_Of_Bounds, Data_Race} \<and>
   ra_popped (snd (ra_push_step choice x t)) = ra_popped t \<and>
   (if fst (ra_push_step choice x t) = Push_Result True
    then \<exists>y. ra_pushed (snd (ra_push_step choice x t)) = ra_pushed t @ [y]
    else ra_pushed (snd (ra_push_step choice x t)) = ra_pushed t)"
  by (auto simp: ra_push_step_def ra_write_def Let_def split: producer.split prod.splits sum.splits if_splits)

lemma ra_pop_step_effect:
  "ra_pushed (snd (ra_pop_step choice t)) = ra_pushed t \<and>
   (case fst (ra_pop_step choice t) of
      Pop_Result (Some x) \<Rightarrow> ra_popped (snd (ra_pop_step choice t)) = ra_popped t @ [x]
    | Push_Result b \<Rightarrow> False
    | _ \<Rightarrow> ra_popped (snd (ra_pop_step choice t)) = ra_popped t)"
  by (auto simp: ra_pop_step_def ra_fetch_def Let_def split: consumer.split prod.splits sum.splits if_splits)

lemma push_simulated:
  assumes inv: "ra_inv k CT CH t"
  obtains CT' where "ra_inv k CT' CH (snd (ra_push_step choice x t))"
    and "\<And>es c'. channel_run (2 ^ k - 1) (channel_of CT' CH (snd (ra_push_step choice x t))) es c' \<Longrightarrow>
      channel_run (2 ^ k - 1) (channel_of CT CH t)
        (event_of (fst (ra_push_step choice x t)) (snd (ra_push_step choice x t)) @ es) c'"
proof -
  obtain r t' where step: "ra_push_step choice x t = (r, t')" by (metis surj_pair)
  obtain CT' where inv': "ra_inv k CT' CH t'" and le: "CT \<le> CT'" and ok: "r \<notin> {Out_Of_Bounds, Data_Race}"
    and full: "r = Push_Result False \<Longrightarrow> length (ra_pushed t) = CT' + (2 ^ k - 1)"
    using ra_push_step_inv [OF inv, of choice x] unfolding step fst_conv snd_conv by metis
  note eff = ra_push_step_effect [of choice x t, unfolded step fst_conv snd_conv]
  have CT': "CT' \<le> length (ra_popped t)" using ra_inv_order [OF inv'] eff by simp
  have learn: "channel_run (2 ^ k - 1) (channel_of CT CH t) es c'"
    if "channel_run (2 ^ k - 1) (channel_of CT' CH t) es c'" for es c'
    by (rule ch_producer_learns [where n = CT']) (use that le CT' in \<open>simp_all add: channel_of_def\<close>)
  have "channel_run (2 ^ k - 1) (channel_of CT CH t) (event_of r t' @ es) c'"
    if run: "channel_run (2 ^ k - 1) (channel_of CT' CH t') es c'" for es c'
  proof (cases "r = Push_Result True")
    case True
    then obtain y where y: "ra_pushed t' = ra_pushed t @ [y]" "ra_popped t' = ra_popped t" using eff by auto
    have "length (ra_pushed t) < CT' + (2 ^ k - 1)" using ra_inv_order [OF inv'] y(1) by auto
    then have "channel_run (2 ^ k - 1) (channel_of CT' CH t) (Enqueued y # es) c'"
      using run y by (intro ch_enqueue) (simp_all add: channel_of_def)
    then show ?thesis using learn True y by simp
  next
    case False
    then have same: "channel_of CT' CH t' = channel_of CT' CH t" using eff by (simp add: channel_of_def)
    from False ok eff consider "r = Continues" | "r = Push_Result False" by auto
    then show ?thesis
    proof cases
      case 1
      then show ?thesis using learn run same by simp
    next
      case 2
      then have "channel_run (2 ^ k - 1) (channel_of CT' CH t) (Was_Full # es) c'"
        using run full same by (intro ch_full) (simp_all add: channel_of_def)
      then show ?thesis using learn 2 by simp
    qed
  qed
  with inv' show thesis using that step by simp
qed

lemma pop_simulated:
  assumes inv: "ra_inv k CT CH t"
  obtains CH' where "ra_inv k CT CH' (snd (ra_pop_step choice t))"
    and "\<And>es c'. channel_run (2 ^ k - 1) (channel_of CT CH' (snd (ra_pop_step choice t))) es c' \<Longrightarrow>
      channel_run (2 ^ k - 1) (channel_of CT CH t)
        (event_of (fst (ra_pop_step choice t)) (snd (ra_pop_step choice t)) @ es) c'"
proof -
  obtain r t' where step: "ra_pop_step choice t = (r, t')" by (metis surj_pair)
  obtain CH' where inv': "ra_inv k CT CH' t'" and le: "CH \<le> CH'" and ok: "r \<notin> {Out_Of_Bounds, Data_Race}"
    and none: "r = Pop_Result None \<Longrightarrow> length (ra_popped t) = CH'"
    using ra_pop_step_inv [OF inv, of choice] unfolding step fst_conv snd_conv by metis
  note eff = ra_pop_step_effect [of choice t, unfolded step fst_conv snd_conv]
  have CH': "CH' \<le> length (ra_pushed t)" using ra_inv_order [OF inv'] eff by simp
  have learn: "channel_run (2 ^ k - 1) (channel_of CT CH t) es c'"
    if "channel_run (2 ^ k - 1) (channel_of CT CH' t) es c'" for es c'
    by (rule ch_consumer_learns [where n = CH']) (use that le CH' in \<open>simp_all add: channel_of_def\<close>)
  have "channel_run (2 ^ k - 1) (channel_of CT CH t) (event_of r t' @ es) c'"
    if run: "channel_run (2 ^ k - 1) (channel_of CT CH' t') es c'" for es c'
  proof (cases "\<exists>x. r = Pop_Result (Some x)")
    case True
    then obtain x where r: "r = Pop_Result (Some x)" by blast
    then have x: "ra_pushed t' = ra_pushed t" "ra_popped t' = ra_popped t @ [x]" using eff by auto
    have taken: "length (ra_popped t) < CH'" using ra_inv_order [OF inv'] x by simp
    have "ra_popped t @ [x] = take (Suc (length (ra_popped t))) (ra_pushed t)"
      using ra_inv_order [OF inv'] x by simp
    then have "(ra_popped t @ [x]) ! length (ra_popped t) = ra_pushed t ! length (ra_popped t)"
      by (metis lessI nth_take)
    then have item: "x = ra_pushed t ! length (ra_popped t)" by simp
    have "channel_run (2 ^ k - 1) (channel_of CT CH' t)
        (Dequeued (ch_items (channel_of CT CH' t) ! ch_taken (channel_of CT CH' t)) # es) c'"
      using run x taken by (intro ch_dequeue) (simp_all add: channel_of_def)
    then show ?thesis using learn r item by (simp add: channel_of_def)
  next
    case False
    then have same: "channel_of CT CH' t' = channel_of CT CH' t"
      using eff by (cases r) (auto simp: channel_of_def split: option.splits)
    from False ok eff consider "r = Continues" | "r = Pop_Result None"
      by (cases r) (auto split: option.splits)
    then show ?thesis
    proof cases
      case 1
      then show ?thesis using learn run same by simp
    next
      case 2
      then have "channel_run (2 ^ k - 1) (channel_of CT CH' t) (Was_Empty # es) c'"
        using run none same by (intro ch_empty) (simp_all add: channel_of_def)
      then show ?thesis using learn 2 by simp
    qed
  qed
  with inv' show thesis using that step by simp
qed

lemma trace_simulated:
  "ra_inv k CT CH t \<Longrightarrow> \<exists>c'. channel_run (2 ^ k - 1) (channel_of CT CH t) (trace_ra as t) c'"
proof (induction as arbitrary: CT CH t)
  case Nil
  show ?case by (auto intro: ch_stop)
next
  case (Cons a as)
  obtain choice w where a: "a = (choice, w)" by (cases a)
  show ?case
  proof (cases w)
    case None
    show ?thesis
      by (rule pop_simulated [OF Cons.prems, of choice])
        (use Cons.IH None a in \<open>fastforce simp: case_prod_beta\<close>)
  next
    case (Some x)
    show ?thesis
      by (rule push_simulated [OF Cons.prems, of choice x])
        (use Cons.IH Some a in \<open>fastforce simp: case_prod_beta\<close>)
  qed
qed

section \<open>Properties\<close>

text \<open>
  (C10) The queue refines the channel: for every schedule of the two threads and every choice of
  the values their loads return, the results of the pushes and pops, in the order in which they
  are made, are a run of the abstract channel of capacity \<open>capacity - 1\<close>. So the items popped
  are the first items pushed, in order, at most \<open>capacity - 1\<close> are in flight, and no access is
  out of bounds or a race.
\<close>

theorem spsc_refines_channel:
  assumes "ra_new d c = Some t0"
  shows "\<exists>c' rest. channel_run (unat c - 1) channel_new (trace_ra schedule t0) c' \<and>
    enqueued (trace_ra schedule t0) = dequeued (trace_ra schedule t0) @ rest \<and>
    length rest \<le> unat c - 1 \<and> Undefined \<notin> set (trace_ra schedule t0)"
proof -
  let ?es = "trace_ra schedule t0"
  obtain k where k: "unat c = 2 ^ k" "ra_inv k 0 0 t0" by (rule ra_inv_new [OF assms])
  have "ra_pushed t0 = []" "ra_popped t0 = []" using assms by (auto simp: ra_new_def Let_def)
  then have "channel_of 0 0 t0 = channel_new" by (simp add: channel_of_def channel_new_def)
  with trace_simulated [OF k(2), of schedule] k(1) obtain c' where
    run: "channel_run (unat c - 1) channel_new ?es c'" by auto
  have "channel_ok (unat c - 1) channel_new" by (simp add: channel_ok_def channel_new_def)
  note ok = channel_run_ok [OF run this] and order = channel_run_order [OF run this]
  have fin: "channel_ok (unat c - 1) c'" "ch_items c' = enqueued ?es" "Undefined \<notin> set ?es"
    using ok by (simp_all add: channel_new_def)
  have "take (ch_taken c') (ch_items c') = dequeued ?es" using order by (simp add: channel_new_def)
  then have "enqueued ?es = dequeued ?es @ drop (ch_taken c') (ch_items c')"
    using fin(2) by (metis append_take_drop_id)
  moreover have "length (drop (ch_taken c') (ch_items c')) \<le> unat c - 1"
    using fin(1) by (auto simp: channel_ok_def)
  ultimately show ?thesis using run fin(3) by blast
qed

text \<open>Two pushes on two slots, the second against a stale tail, and a pop.\<close>

definition demo_schedule :: "(nat \<times> nat option) list" where
  "demo_schedule = [(0, Some 5), (0, Some 5), (0, Some 5), (0, Some 6), (0, Some 6),
     (0, None), (1, None), (0, None), (0, None)]"

lemma demo_schedule_trace:
  "trace_ra demo_schedule (the (ra_new 0 2)) = [Enqueued 5, Was_Full, Dequeued 5]"
  by code_simp

theorem spsc_refines_channel_witness:
  "\<exists>c'. channel_run 1 channel_new [Enqueued (5 :: nat), Was_Full, Dequeued 5] c'"
proof -
  obtain t0 where t0: "ra_new (0 :: nat) 2 = Some t0" by (auto simp: ra_new_def sq_new_def Let_def)
  from spsc_refines_channel [OF t0, of demo_schedule] demo_schedule_trace t0 show ?thesis by simp
qed

section \<open>Wait-freedom\<close>

text \<open>How many of its own steps a thread needs at most to return from its call.\<close>

fun push_rank :: "'a producer \<Rightarrow> nat" where
  "push_rank P_Idle = 4"
| "push_rank (P_Refresh _ _ _) = 3"
| "push_rank (P_Write _ _ _) = 2"
| "push_rank (P_Publish _ _) = 1"

fun pop_rank :: "'a consumer \<Rightarrow> nat" where
  "pop_rank C_Idle = 4"
| "pop_rank (C_Refresh _) = 3"
| "pop_rank (C_Read _) = 2"
| "pop_rank (C_Publish _ _) = 1"

fun push_returned :: "'a channel_event \<Rightarrow> bool" where
  "push_returned (Enqueued _) = True"
| "push_returned Was_Full = True"
| "push_returned _ = False"

fun pop_returned :: "'a channel_event \<Rightarrow> bool" where
  "pop_returned (Dequeued _) = True"
| "pop_returned Was_Empty = True"
| "pop_returned _ = False"

fun producer_moves :: "(nat \<times> 'a option) list \<Rightarrow> nat" where
  "producer_moves [] = 0"
| "producer_moves ((_, Some _) # as) = Suc (producer_moves as)"
| "producer_moves ((_, None) # as) = producer_moves as"

fun consumer_moves :: "(nat \<times> 'a option) list \<Rightarrow> nat" where
  "consumer_moves [] = 0"
| "consumer_moves ((_, None) # as) = Suc (consumer_moves as)"
| "consumer_moves ((_, Some _) # as) = consumer_moves as"

lemma push_step_rank:
  "fst (ra_push_step choice x t) = Continues \<Longrightarrow>
     push_rank (ra_producer (snd (ra_push_step choice x t))) < push_rank (ra_producer t)"
  "ra_consumer (snd (ra_push_step choice x t)) = ra_consumer t"
  by (auto simp: ra_push_step_def ra_write_def Let_def split: producer.split prod.splits sum.splits if_splits)

lemma pop_step_rank:
  "fst (ra_pop_step choice t) = Continues \<Longrightarrow>
     pop_rank (ra_consumer (snd (ra_pop_step choice t))) < pop_rank (ra_consumer t)"
  "ra_producer (snd (ra_pop_step choice t)) = ra_producer t"
  by (auto simp: ra_pop_step_def ra_fetch_def Let_def split: consumer.split prod.splits sum.splits if_splits)

lemma push_step_returns:
  assumes "ra_inv k CT CH t" and "fst (ra_push_step choice x t) \<noteq> Continues"
  shows "list_ex push_returned (event_of (fst (ra_push_step choice x t)) t')"
proof -
  have "fst (ra_push_step choice x t) \<notin> {Out_Of_Bounds, Data_Race}"
    by (rule ra_push_step_inv [OF assms(1), of choice x])
  with ra_push_step_effect [of choice x t] assms(2) show ?thesis by auto
qed

lemma pop_step_returns:
  assumes "ra_inv k CT CH t" and "fst (ra_pop_step choice t) \<noteq> Continues"
  shows "list_ex pop_returned (event_of (fst (ra_pop_step choice t)) t')"
proof -
  have "fst (ra_pop_step choice t) \<notin> {Out_Of_Bounds, Data_Race}"
    by (rule ra_pop_step_inv [OF assms(1), of choice])
  with ra_pop_step_effect [of choice t] assms(2) show ?thesis
    by (cases "fst (ra_pop_step choice t)") (auto split: option.splits)
qed

lemma push_progress:
  "ra_inv k CT CH t \<Longrightarrow> push_rank (ra_producer t) \<le> producer_moves as \<Longrightarrow>
     list_ex push_returned (trace_ra as t)"
proof (induction as arbitrary: CT CH t)
  case Nil
  then show ?case by (cases "ra_producer t") simp_all
next
  case (Cons a as)
  obtain choice w where a: "a = (choice, w)" by (cases a)
  show ?case
  proof (cases w)
    case None
    obtain CH' where "ra_inv k CT CH' (snd (ra_pop_step choice t))"
      by (rule ra_pop_step_inv [OF Cons.prems(1), of choice])
    from Cons.IH [OF this] Cons.prems(2) None a show ?thesis
      by (simp add: case_prod_beta pop_step_rank(2))
  next
    case (Some x)
    obtain CT' where inv: "ra_inv k CT' CH (snd (ra_push_step choice x t))"
      by (rule ra_push_step_inv [OF Cons.prems(1), of choice x])
    show ?thesis
    proof (cases "fst (ra_push_step choice x t) = Continues")
      case True
      from push_step_rank(1) [OF this] Cons.IH [OF inv] Cons.prems(2) Some a show ?thesis
        by (simp add: case_prod_beta)
    next
      case False
      from push_step_returns [OF Cons.prems(1) this] Some a show ?thesis
        by (simp add: case_prod_beta)
    qed
  qed
qed

lemma pop_progress:
  "ra_inv k CT CH t \<Longrightarrow> pop_rank (ra_consumer t) \<le> consumer_moves as \<Longrightarrow>
     list_ex pop_returned (trace_ra as t)"
proof (induction as arbitrary: CT CH t)
  case Nil
  then show ?case by (cases "ra_consumer t") simp_all
next
  case (Cons a as)
  obtain choice w where a: "a = (choice, w)" by (cases a)
  show ?case
  proof (cases w)
    case (Some x)
    obtain CT' where "ra_inv k CT' CH (snd (ra_push_step choice x t))"
      by (rule ra_push_step_inv [OF Cons.prems(1), of choice x])
    from Cons.IH [OF this] Cons.prems(2) Some a show ?thesis
      by (simp add: case_prod_beta push_step_rank(2))
  next
    case None
    obtain CH' where inv: "ra_inv k CT CH' (snd (ra_pop_step choice t))"
      by (rule ra_pop_step_inv [OF Cons.prems(1), of choice])
    show ?thesis
    proof (cases "fst (ra_pop_step choice t) = Continues")
      case True
      from pop_step_rank(1) [OF this] Cons.IH [OF inv] Cons.prems(2) None a show ?thesis
        by (simp add: case_prod_beta)
    next
      case False
      from pop_step_returns [OF Cons.prems(1) this] None a show ?thesis
        by (simp add: case_prod_beta)
    qed
  qed
qed

text \<open>
  (C15) The queue is wait free: from every reachable state, whatever the other thread does and
  whatever values the loads return, a push returns within four steps of the producer and a pop
  within four steps of the consumer.
\<close>

theorem spsc_wait_free:
  assumes "ra_new d c = Some t0" and "ra_reach t0 t"
  shows "(4 \<le> producer_moves schedule \<longrightarrow> list_ex push_returned (trace_ra schedule t)) \<and>
    (4 \<le> consumer_moves schedule \<longrightarrow> list_ex pop_returned (trace_ra schedule t))"
proof -
  obtain k CT CH where inv: "ra_inv k CT CH t" by (rule ra_reach_inv [OF assms])
  have "push_rank (ra_producer t) \<le> 4" by (cases "ra_producer t") simp_all
  moreover have "pop_rank (ra_consumer t) \<le> 4" by (cases "ra_consumer t") simp_all
  ultimately show ?thesis using push_progress [OF inv] pop_progress [OF inv] by (meson order_trans)
qed

theorem spsc_wait_free_witness:
  "list_ex push_returned (trace_ra [(0, Some 8), (0, None), (0, Some 8), (0, Some 8), (0, Some 8)] ra_demo)"
proof (rule ra_demo_reach)
  fix t0 assume "ra_new (0::nat) 2 = Some t0" "ra_reach t0 ra_demo"
  from spsc_wait_free [OF this, of "[(0, Some 8), (0, None), (0, Some 8), (0, Some 8), (0, Some 8)]"]
  show ?thesis by simp
qed

end
