(* ===== verification/Gateway_Stream.thy ===== *)
theory Gateway_Stream
  imports SPSC_Refinement Tcp_Gateway
begin

text \<open>
  The gateway's I/O thread and the engine's thread together, on the queue under its release and
  acquire orders: the session of \<^verbatim>\<open>network/tcp_gateway.cpp\<close> hands over the messages it parses, one
  after the other, each in the loop \<open>while (!queue_.push(msg)) yield()\<close>, and the other thread
  pops. Every atomic access is a step; who moves next and which of the readable values a load
  returns is the schedule's choice. \<open>None\<close> is undefined behaviour in the queue.
\<close>

section \<open>The two threads\<close>

record stream =
  sm_left :: "NewOrderMsg list"   \<comment> \<open>not accepted yet; the first is in \<open>on_message_received\<close>\<close>
  sm_queue :: "NewOrderMsg ra"
  sm_received :: "NewOrderMsg list"

definition session_step :: "nat \<Rightarrow> stream \<Rightarrow> stream option" where
  "session_step choice s =
     (case sm_left s of
        [] \<Rightarrow> Some s
      | msg # rest \<Rightarrow>
          (case ra_push_step choice msg (sm_queue s) of
             (Push_Result True, q) \<Rightarrow> Some (s\<lparr>sm_left := rest, sm_queue := q\<rparr>)
           | (Push_Result False, q) \<Rightarrow> Some (s\<lparr>sm_queue := q\<rparr>)
           | (Continues, q) \<Rightarrow> Some (s\<lparr>sm_queue := q\<rparr>)
           | _ \<Rightarrow> None))"

definition receiver_step :: "nat \<Rightarrow> stream \<Rightarrow> stream option" where
  "receiver_step choice s =
     (case ra_pop_step choice (sm_queue s) of
        (Pop_Result (Some msg), q) \<Rightarrow> Some (s\<lparr>sm_queue := q, sm_received := sm_received s @ [msg]\<rparr>)
      | (Pop_Result None, q) \<Rightarrow> Some (s\<lparr>sm_queue := q\<rparr>)
      | (Continues, q) \<Rightarrow> Some (s\<lparr>sm_queue := q\<rparr>)
      | _ \<Rightarrow> None)"

datatype turn = Session nat | Receiver nat

fun stream_step :: "turn \<Rightarrow> stream \<Rightarrow> stream option" where
  "stream_step (Session choice) s = session_step choice s"
| "stream_step (Receiver choice) s = receiver_step choice s"

fun stream_run :: "turn list \<Rightarrow> stream \<Rightarrow> stream option" where
  "stream_run [] s = Some s"
| "stream_run (a # as) s = Option.bind (stream_step a s) (stream_run as)"

definition stream_new :: "NewOrderMsg list \<Rightarrow> NewOrderMsg ra \<Rightarrow> stream" where
  "stream_new msgs q = \<lparr>sm_left = msgs, sm_queue = q, sm_received = []\<rparr>"

lemma stream_run_append:
  "stream_run (as @ bs) s = Option.bind (stream_run as s) (stream_run bs)"
  by (induction as arbitrary: s) (auto split: bind_splits)

section \<open>The invariant\<close>

text \<open>The producer is at work on the first message that is left.\<close>

fun works_on :: "'a list \<Rightarrow> 'a producer \<Rightarrow> bool" where
  "works_on left P_Idle = True"
| "works_on left (P_Refresh x _ _) \<longleftrightarrow> (\<exists>rest. left = x # rest)"
| "works_on left (P_Write x _ _) \<longleftrightarrow> (\<exists>rest. left = x # rest)"
| "works_on left (P_Publish x _) \<longleftrightarrow> (\<exists>rest. left = x # rest)"

definition stream_inv :: "nat \<Rightarrow> nat \<Rightarrow> nat \<Rightarrow> NewOrderMsg list \<Rightarrow> stream \<Rightarrow> bool" where
  "stream_inv k CT CH msgs s \<longleftrightarrow> ra_inv k CT CH (sm_queue s) \<and>
     ra_pushed (sm_queue s) @ sm_left s = msgs \<and> sm_received s = ra_popped (sm_queue s) \<and>
     works_on (sm_left s) (ra_producer (sm_queue s))"

lemma ra_push_step_works:
  assumes "works_on (x # rest) (ra_producer t)" and "ra_push_step choice x t = (r, t')"
  shows "(case r of
      Push_Result True \<Rightarrow> ra_pushed t' = ra_pushed t @ [x] \<and> ra_producer t' = P_Idle
    | Push_Result False \<Rightarrow> ra_pushed t' = ra_pushed t \<and> ra_producer t' = P_Idle
    | _ \<Rightarrow> ra_pushed t' = ra_pushed t \<and> works_on (x # rest) (ra_producer t'))"
  using assms
  by (cases "ra_producer t")
    (auto simp: ra_push_step_def ra_write_def Let_def split: prod.splits sum.splits if_splits)

lemma session_step_inv:
  assumes inv: "stream_inv k CT CH msgs s"
  obtains s' CT' where "session_step choice s = Some s'" and "stream_inv k CT' CH msgs s'"
proof (cases "sm_left s")
  case Nil
  then show thesis using inv by (intro that [of s CT]) (simp_all add: session_step_def)
next
  case (Cons msg rest)
  obtain r q where step: "ra_push_step choice msg (sm_queue s) = (r, q)" by (metis surj_pair)
  have ra: "ra_inv k CT CH (sm_queue s)" and w: "works_on (msg # rest) (ra_producer (sm_queue s))"
    using inv Cons by (simp_all add: stream_inv_def)
  obtain CT' where inv': "ra_inv k CT' CH q" and ok: "r \<notin> {Out_Of_Bounds, Data_Race}"
    using ra_push_step_inv [OF ra, of choice msg] step by (metis fst_conv snd_conv)
  note eff = ra_push_step_effect [of choice msg "sm_queue s", unfolded step fst_conv snd_conv]
  note works = ra_push_step_works [OF w step]
  from eff ok consider "r = Continues" | "r = Push_Result True" | "r = Push_Result False" by auto
  then show thesis
    by cases
      (rule that [of _ CT'], simp add: session_step_def Cons step,
        use inv inv' eff works Cons in \<open>simp add: stream_inv_def\<close>)+
qed

lemma receiver_step_inv:
  assumes inv: "stream_inv k CT CH msgs s"
  obtains s' CH' where "receiver_step choice s = Some s'" and "stream_inv k CT CH' msgs s'"
proof -
  obtain r q where step: "ra_pop_step choice (sm_queue s) = (r, q)" by (metis surj_pair)
  have ra: "ra_inv k CT CH (sm_queue s)" using inv by (simp add: stream_inv_def)
  obtain CH' where inv': "ra_inv k CT CH' q" and ok: "r \<notin> {Out_Of_Bounds, Data_Race}"
    using ra_pop_step_inv [OF ra, of choice] step by (metis fst_conv snd_conv)
  note eff = ra_pop_step_effect [of choice "sm_queue s", unfolded step fst_conv snd_conv]
  have prod: "ra_producer q = ra_producer (sm_queue s)"
    using pop_step_rank(2) [of choice "sm_queue s"] step by simp
  from eff ok consider "r = Continues" | "r = Pop_Result None" | x where "r = Pop_Result (Some x)"
    by (cases r) (auto split: option.splits)
  then show thesis
    by cases
      (rule that [of _ CH'], simp add: receiver_step_def step,
        use inv inv' eff prod in \<open>simp add: stream_inv_def\<close>)+
qed

lemma stream_run_inv:
  "stream_inv k CT CH msgs s \<Longrightarrow> \<exists>s' CT' CH'. stream_run as s = Some s' \<and> stream_inv k CT' CH' msgs s'"
proof (induction as arbitrary: CT CH s)
  case (Cons a as)
  show ?case
  proof (cases a)
    case (Session choice)
    show ?thesis
      by (rule session_step_inv [OF Cons.prems, of choice]) (use Cons.IH Session in auto)
  next
    case (Receiver choice)
    show ?thesis
      by (rule receiver_step_inv [OF Cons.prems, of choice]) (use Cons.IH Receiver in auto)
  qed
qed auto

section \<open>Delivery\<close>

text \<open>A load that reads the last message sees the other thread's index as it is.\<close>

lemma latest_head_not_empty:
  assumes "ra_inv k CT CH t" and "length (ra_popped t) < length (ra_pushed t)"
  shows "fst (ra_pop_step (length (ra_head t)) t) \<noteq> Pop_Result None"
proof (cases "ra_consumer t")
  case (C_Refresh tl)
  let ?H = "length (ra_pushed t)" and ?T = "length (ra_popped t)"
  have hh: "length (ra_head t) = Suc ?H" "unat (msg_index (ra_head t ! ?H)) = ?H mod 2 ^ k"
    and cv: "vw_head (ra_cview t) = CH" and tl: "unat tl = ?T mod 2 ^ k"
    and order: "CT \<le> ?T" "CH \<le> ?H" "?H < CT + 2 ^ k"
    using assms(1) C_Refresh by (auto simp: ra_inv_def Let_def head_hist_def consumer_view_def)
  have "tl \<noteq> msg_index (ra_head t ! ?H)"
  proof
    assume "tl = msg_index (ra_head t ! ?H)"
    then have "?T mod 2 ^ k = ?H mod 2 ^ k" using tl hh(2) by simp
    then have "?T = ?H" by (rule mod_inj_near) (use order assms(2) in linarith)+
    then show False using assms(2) by simp
  qed
  moreover have "fst (load_head Acquire (length (ra_head t)) (ra_cview t) (ra_head t)) =
      msg_index (ra_head t ! ?H)"
    using hh(1) cv order(2) by (simp add: load_head_def readable_def max_def Let_def)
  ultimately show ?thesis using C_Refresh by (auto simp: ra_pop_step_def Let_def split: prod.splits)
qed (auto simp: ra_pop_step_def ra_fetch_def Let_def split: prod.splits sum.splits if_splits)

lemma latest_tail_not_full:
  assumes "ra_inv k CT CH t" and "length (ra_pushed t) < length (ra_popped t) + (2 ^ k - 1)"
  shows "fst (ra_push_step (length (ra_tail t)) x t) \<noteq> Push_Result False"
proof (cases "ra_producer t")
  case (P_Refresh item h nx)
  let ?H = "length (ra_pushed t)" and ?T = "length (ra_popped t)"
  have th: "length (ra_tail t) = Suc ?T" "unat (msg_index (ra_tail t ! ?T)) = ?T mod 2 ^ k"
    and pv: "vw_tail (ra_pview t) = CT" and nx: "unat nx = Suc ?H mod 2 ^ k"
    and order: "CT \<le> ?T" "?T \<le> ?H" "?H < CT + 2 ^ k"
    using assms(1) P_Refresh by (auto simp: ra_inv_def Let_def tail_hist_def producer_view_def)
  have "nx \<noteq> msg_index (ra_tail t ! ?T)"
  proof
    assume "nx = msg_index (ra_tail t ! ?T)"
    then have "Suc ?H = ?T + 2 ^ k"
      using nx th(2) order by (intro next_head_full) auto
    then show False using assms(2) by simp
  qed
  moreover have "fst (load_tail Acquire (length (ra_tail t)) (ra_pview t) (ra_tail t)) =
      msg_index (ra_tail t ! ?T)"
    using th(1) pv order(1) by (simp add: load_tail_def readable_def max_def Let_def)
  ultimately show ?thesis using P_Refresh by (auto simp: ra_push_step_def Let_def split: prod.splits)
qed (auto simp: ra_push_step_def ra_write_def Let_def split: prod.splits sum.splits if_splits)

definition in_flight :: "stream \<Rightarrow> nat" where
  "in_flight s = length (ra_pushed (sm_queue s)) - length (ra_popped (sm_queue s))"

lemma can_receive:
  assumes "stream_inv k CT CH msgs s" and "0 < in_flight s"
  shows "\<exists>as s' CT' CH'. stream_run as s = Some s' \<and> stream_inv k CT' CH' msgs s' \<and>
    sm_left s' = sm_left s \<and> Suc (in_flight s') = in_flight s"
  using assms
proof (induction "pop_rank (ra_consumer (sm_queue s))" arbitrary: s CH rule: less_induct)
  case less
  let ?c = "length (ra_head (sm_queue s))"
  obtain r q where step: "ra_pop_step ?c (sm_queue s) = (r, q)" by (metis surj_pair)
  obtain s' CH' where s': "receiver_step ?c s = Some s'" "stream_inv k CT CH' msgs s'"
    by (rule receiver_step_inv [OF less.prems(1)])
  have ra: "ra_inv k CT CH (sm_queue s)" using less.prems(1) by (simp add: stream_inv_def)
  have none: "r \<noteq> Pop_Result None"
    using latest_head_not_empty [OF ra] less.prems(2) step by (simp add: in_flight_def)
  have ok: "r \<notin> {Out_Of_Bounds, Data_Race}"
    using ra_pop_step_inv [OF ra, of ?c] step by (metis fst_conv)
  note eff = ra_pop_step_effect [of ?c "sm_queue s", unfolded step fst_conv snd_conv]
  show ?case
  proof (cases "r = Continues")
    case True
    then have eq: "sm_queue s' = q" "sm_left s' = sm_left s"
      using s'(1) step by (auto simp: receiver_step_def)
    have "pop_rank (ra_consumer (sm_queue s')) < pop_rank (ra_consumer (sm_queue s))"
      using pop_step_rank(1) [of ?c "sm_queue s"] step True eq by simp
    moreover have fl: "in_flight s' = in_flight s" using eff True eq by (simp add: in_flight_def)
    ultimately obtain as s2 CT2 CH2 where "stream_run as s' = Some s2" "stream_inv k CT2 CH2 msgs s2"
      "sm_left s2 = sm_left s'" "Suc (in_flight s2) = in_flight s'"
      using less.hyps [OF _ s'(2)] less.prems(2) by auto
    then show ?thesis using s'(1) eq fl by (intro exI [of _ "Receiver ?c # as"]) auto
  next
    case False
    with none ok eff obtain x where r: "r = Pop_Result (Some x)"
      by (cases r) (auto split: option.splits)
    then have eq: "sm_queue s' = q" "sm_left s' = sm_left s"
      using s'(1) step by (auto simp: receiver_step_def)
    have "Suc (in_flight s') = in_flight s"
      using eff r eq less.prems(2) by (simp add: in_flight_def)
    then show ?thesis using s' eq by (intro exI [of _ "[Receiver ?c]"]) auto
  qed
qed

lemma can_hand_over:
  assumes "stream_inv k CT CH msgs s" and "sm_left s \<noteq> []" and "in_flight s = 0" and "0 < k"
  shows "\<exists>as s' CT' CH'. stream_run as s = Some s' \<and> stream_inv k CT' CH' msgs s' \<and>
    Suc (length (sm_left s')) = length (sm_left s) \<and> in_flight s' = 1"
  using assms
proof (induction "push_rank (ra_producer (sm_queue s))" arbitrary: s CT rule: less_induct)
  case less
  let ?c = "length (ra_tail (sm_queue s))"
  obtain msg rest where left: "sm_left s = msg # rest" using less.prems(2) by (cases "sm_left s") auto
  obtain r q where step: "ra_push_step ?c msg (sm_queue s) = (r, q)" by (metis surj_pair)
  obtain s' CT' where s': "session_step ?c s = Some s'" "stream_inv k CT' CH msgs s'"
    by (rule session_step_inv [OF less.prems(1)])
  have ra: "ra_inv k CT CH (sm_queue s)" using less.prems(1) by (simp add: stream_inv_def)
  have empty: "length (ra_pushed (sm_queue s)) = length (ra_popped (sm_queue s))"
    using less.prems(3) ra_inv_order [OF ra] by (simp add: in_flight_def)
  have "(1 :: nat) < 2 ^ k" using less.prems(4) by (intro one_less_power) simp_all
  then have full: "r \<noteq> Push_Result False"
    using latest_tail_not_full [OF ra, of msg] empty step by simp
  have ok: "r \<notin> {Out_Of_Bounds, Data_Race}"
    using ra_push_step_inv [OF ra, of ?c msg] step by (metis fst_conv)
  note eff = ra_push_step_effect [of ?c msg "sm_queue s", unfolded step fst_conv snd_conv]
  show ?case
  proof (cases "r = Continues")
    case True
    then have eq: "sm_queue s' = q" "sm_left s' = sm_left s"
      using s'(1) step left by (auto simp: session_step_def)
    have "push_rank (ra_producer (sm_queue s')) < push_rank (ra_producer (sm_queue s))"
      using push_step_rank(1) [of ?c msg "sm_queue s"] step True eq by simp
    moreover have "in_flight s' = 0" using eff True eq empty by (simp add: in_flight_def)
    ultimately obtain as s2 CT2 CH2 where "stream_run as s' = Some s2" "stream_inv k CT2 CH2 msgs s2"
      "Suc (length (sm_left s2)) = length (sm_left s')" "in_flight s2 = 1"
      using less.hyps [OF _ s'(2)] less.prems(2,4) eq by auto
    then show ?thesis using s'(1) eq by (intro exI [of _ "Session ?c # as"]) auto
  next
    case False
    with full ok eff have r: "r = Push_Result True" by auto
    then have eq: "sm_queue s' = q" "sm_left s' = rest"
      using s'(1) step left by (auto simp: session_step_def)
    obtain y where y: "ra_pushed q = ra_pushed (sm_queue s) @ [y]" "ra_popped q = ra_popped (sm_queue s)"
      using eff r by auto
    have "in_flight s' = 1" using y eq empty by (simp add: in_flight_def)
    then show ?thesis using s' eq left by (intro exI [of _ "[Session ?c]"]) auto
  qed
qed

lemma can_deliver:
  assumes "stream_inv k CT CH msgs s" and "0 < k"
  shows "\<exists>as s'. stream_run as s = Some s' \<and> sm_received s' = msgs \<and> sm_left s' = []"
  using assms
proof (induction "2 * length (sm_left s) + in_flight s" arbitrary: s CT CH rule: less_induct)
  case less
  consider (receive) "0 < in_flight s" | (hand_over) "in_flight s = 0" "sm_left s \<noteq> []"
    | (finished) "in_flight s = 0" "sm_left s = []" by auto
  then show ?case
  proof cases
    case receive
    from can_receive [OF less.prems(1) this] obtain as s' CT' CH' where
      s': "stream_run as s = Some s'" "stream_inv k CT' CH' msgs s'"
      "sm_left s' = sm_left s" "Suc (in_flight s') = in_flight s" by blast
    from less.hyps [OF _ s'(2) less.prems(2)] s'(3,4) obtain bs s2 where
      "stream_run bs s' = Some s2" "sm_received s2 = msgs" "sm_left s2 = []" by auto
    then show ?thesis using s'(1) by (intro exI [of _ "as @ bs"]) (auto simp: stream_run_append)
  next
    case hand_over
    from can_hand_over [OF less.prems(1) hand_over(2,1) less.prems(2)] obtain as s' CT' CH' where
      s': "stream_run as s = Some s'" "stream_inv k CT' CH' msgs s'"
      "Suc (length (sm_left s')) = length (sm_left s)" "in_flight s' = 1" by blast
    from less.hyps [OF _ s'(2) less.prems(2)] s'(3,4) hand_over(1) obtain bs s2 where
      "stream_run bs s' = Some s2" "sm_received s2 = msgs" "sm_left s2 = []" by auto
    then show ?thesis using s'(1) by (intro exI [of _ "as @ bs"]) (auto simp: stream_run_append)
  next
    case finished
    have "ra_popped (sm_queue s) = ra_pushed (sm_queue s)"
      using finished(1) ra_inv_order [of k CT CH "sm_queue s"] less.prems(1)
      by (simp add: in_flight_def stream_inv_def)
    then show ?thesis using less.prems(1) finished(2)
      by (intro exI [of _ "[]"]) (auto simp: stream_inv_def)
  qed
qed

section \<open>Properties\<close>

text \<open>
  (C16) From the socket to the engine nothing is lost: under every schedule of the two threads
  and every value their loads may return, no step is undefined, the messages the engine has
  received, those in flight (fewer than the queue has slots) and those left are the messages of
  the session, in order; and if the queue has at least two slots it always remains possible to deliver them all.
\<close>

theorem gateway_delivers:
  assumes "ra_new d c = Some q"
  shows "\<exists>s flight. stream_run schedule (stream_new msgs q) = Some s \<and>
    msgs = sm_received s @ flight @ sm_left s \<and> length flight \<le> unat c - 1 \<and>
    (1 < unat c \<longrightarrow> (\<exists>more s'. stream_run more s = Some s' \<and> sm_received s' = msgs \<and> sm_left s' = []))"
proof -
  obtain k where k: "unat c = 2 ^ k" "ra_inv k 0 0 q" by (rule ra_inv_new [OF assms])
  have "ra_pushed q = []" "ra_popped q = []" "ra_producer q = P_Idle"
    using assms by (auto simp: ra_new_def Let_def)
  then have "stream_inv k 0 0 msgs (stream_new msgs q)"
    using k(2) by (simp add: stream_inv_def stream_new_def)
  from stream_run_inv [OF this, of schedule] obtain s CT CH where
    s: "stream_run schedule (stream_new msgs q) = Some s" and inv: "stream_inv k CT CH msgs s" by blast
  let ?q = "sm_queue s" and ?flight = "drop (length (ra_popped (sm_queue s))) (ra_pushed (sm_queue s))"
  have ra: "ra_inv k CT CH ?q" using inv by (simp add: stream_inv_def)
  note order = ra_inv_order [OF ra]
  have "ra_pushed ?q = ra_popped ?q @ ?flight" using order by (metis append_take_drop_id)
  then have "msgs = sm_received s @ ?flight @ sm_left s"
    using inv unfolding stream_inv_def by (metis append.assoc)
  moreover have "length ?flight \<le> unat c - 1" using order k(1) by auto
  moreover have "0 < k" if "1 < unat c" using that k(1) by (cases k) auto
  ultimately show ?thesis using s can_deliver [OF inv] by blast
qed

theorem gateway_delivers_witness:
  "\<exists>q s flight more s'. ra_new (demo_msg 0) 2 = Some q \<and>
     stream_run [Session 0, Receiver 0, Session 0, Session 0, Session 0, Session 0]
       (stream_new [demo_msg 1, demo_msg 2] q) = Some s \<and> length flight \<le> 1 \<and>
     [demo_msg 1, demo_msg 2] = sm_received s @ flight @ sm_left s \<and>
     stream_run more s = Some s' \<and> sm_received s' = [demo_msg 1, demo_msg 2]"
proof -
  obtain q where q: "ra_new (demo_msg 0) 2 = Some q" by (auto simp: ra_new_def sq_new_def Let_def)
  from gateway_delivers [OF q, of "[Session 0, Receiver 0, Session 0, Session 0, Session 0, Session 0]"
      "[demo_msg 1, demo_msg 2]"] q
  show ?thesis by (simp only: unat_numeral) fastforce
qed

end
