(* ===== verification/Book_Memory.thy ===== *)
theory Book_Memory
  imports Engine_Properties Pool_Allocator
begin

text \<open>
  The order book on its allocators: the tree nodes of the two price maps of
  \<^verbatim>\<open>core/order_book.hpp\<close> live in the two arenas of \<^verbatim>\<open>core/pool_allocator.hpp\<close>. The operations of
  the book and of the matching engine are repeated with the calls of the allocator they make: a
  \<open>std::map\<close> allocates one node when an element is emplaced and deallocates it when the element
  is erased. \<^verbatim>\<open>operator new\<close>, \<^verbatim>\<open>operator delete\<close> and the size of a node are parameters, the
  state \<open>'h\<close> of the global heap is whatever they work on.
\<close>

section \<open>The nodes of the maps\<close>

record 'h runtime =
  rt_new :: "u64 \<Rightarrow> 'h \<Rightarrow> nat \<times> 'h"
  rt_delete :: "nat \<Rightarrow> 'h \<Rightarrow> 'h"
  rt_node_size :: u64

record 'h node_store =
  ns_arena :: "Side \<Rightarrow> arena"
  ns_node :: "Side \<Rightarrow> Price \<Rightarrow> nat option"
  ns_heap :: 'h

definition node_store_new :: "u64 \<Rightarrow> (Side \<Rightarrow> nat) \<Rightarrow> 'h \<Rightarrow> 'h node_store" where
  "node_store_new map_slot_align buf h =
     \<lparr>ns_arena = (\<lambda>s. book_arena map_slot_align (buf s)), ns_node = (\<lambda>_ _. None), ns_heap = h\<rparr>"

definition emplace_node ::
  "'h runtime \<Rightarrow> Side \<Rightarrow> Price \<Rightarrow> 'h node_store \<Rightarrow> 'h node_store option" where
  "emplace_node rt s p t =
     (case pa_allocate (rt_new rt) (rt_node_size rt) 1 (ns_arena t s, ns_heap t) of
        None \<Rightarrow> None
      | Some (a, ar, h) \<Rightarrow>
          Some \<lparr>ns_arena = (ns_arena t)(s := ar),
                ns_node = (ns_node t)(s := (ns_node t s)(p := Some a)), ns_heap = h\<rparr>)"

definition erase_node :: "'h runtime \<Rightarrow> Side \<Rightarrow> Price \<Rightarrow> 'h node_store \<Rightarrow> 'h node_store" where
  "erase_node rt s p t =
     (case ns_node t s p of
        None \<Rightarrow> t
      | Some a \<Rightarrow>
          (case pa_deallocate (rt_delete rt) a (ns_arena t s, ns_heap t) of
             (ar, h) \<Rightarrow> \<lparr>ns_arena = (ns_arena t)(s := ar),
                ns_node = (ns_node t)(s := (ns_node t s)(p := None)), ns_heap = h\<rparr>))"

section \<open>The operations with their allocations\<close>

definition insert_order_mem :: "'h runtime \<Rightarrow> addr \<Rightarrow> (OrderBook \<times> mem) \<times> 'h node_store \<Rightarrow>
    ((OrderBook \<times> mem) \<times> 'h node_store) option" where
  "insert_order_mem rt node = (\<lambda>((b, m), t).
     (let s = on_side (m node);
          p = on_price (m node)
      in (case (case map_find p (book_side s b) of
                  None \<Rightarrow> emplace_node rt s p t
                | Some _ \<Rightarrow> Some t) of
            None \<Rightarrow> None
          | Some t' \<Rightarrow> map_option (\<lambda>bm. (bm, t')) (insert_order node (b, m)))))"

definition check_remove_level_mem ::
  "'h runtime \<Rightarrow> PriceLevel \<Rightarrow> Side \<Rightarrow> OrderBook \<times> 'h node_store \<Rightarrow> OrderBook \<times> 'h node_store" where
  "check_remove_level_mem rt level s = (\<lambda>(b, t).
     (check_remove_level level s b,
      if il_empty (lvl_orders level) then erase_node rt s (lvl_price level) t else t))"

definition cancel_order_mem :: "'h runtime \<Rightarrow> addr \<Rightarrow> (OrderBook \<times> mem) \<times> 'h node_store \<Rightarrow>
    (OrderBook \<times> mem) \<times> 'h node_store" where
  "cancel_order_mem rt node = (\<lambda>((b, m), t).
     (let s = on_side (m node);
          p = on_price (m node)
      in (case map_find p (book_side s b) of
            None \<Rightarrow> ((b, m), t)
          | Some lvl \<Rightarrow>
              (let (os, m') = il_remove node (lvl_orders lvl, m);
                   lvl' = lvl\<lparr>lvl_orders := os,
                     total_volume := total_volume lvl - on_qty (m' node)\<rparr>;
                   b' = set_book_side s (map_store p lvl' (book_side s b)) b;
                   (b'', t') = check_remove_level_mem rt lvl' s (b', t)
               in ((b'', m'), t')))))"

partial_function (option) match_against_mem ::
  "'h runtime \<Rightarrow> Side \<Rightarrow> addr \<Rightarrow> OrderBook \<Rightarrow> mem \<Rightarrow> Trade small_vector \<Rightarrow> 'h node_store \<Rightarrow>
     (OrderBook \<times> mem \<times> Trade small_vector \<times> 'h node_store) option" where
  "match_against_mem rt s incoming b m trades t =
     (if on_qty (m incoming) > 0
      then (case best_level s b of
              None \<Rightarrow> Some (b, m, trades, t)
            | Some best \<Rightarrow>
                if side_cmp s (on_price (m incoming)) (lvl_price best)
                then Some (b, m, trades, t)
                else
                  (case match_level incoming (il_head (lvl_orders best))
                          \<lparr>ms_mem = m, ms_level = best, ms_trades = trades\<rparr> of
                     None \<Rightarrow> None
                   | Some st \<Rightarrow>
                       (case check_remove_level_mem rt (ms_level st) s
                               (set_book_side s
                                 (map_store (lvl_price best) (ms_level st) (book_side s b)) b, t) of
                          (b', t') \<Rightarrow>
                            match_against_mem rt s incoming b' (ms_mem st) (ms_trades st) t')))
      else Some (b, m, trades, t))"

declare match_against_mem.simps [code]

definition process_limit_order_mem :: "'h runtime \<Rightarrow> addr \<Rightarrow> (OrderBook \<times> mem) \<times> 'h node_store \<Rightarrow>
    (Trade small_vector \<times> (OrderBook \<times> mem) \<times> 'h node_store) option" where
  "process_limit_order_mem rt incoming = (\<lambda>((b, m), t).
     (let other = (if on_side (m incoming) = Buy then Sell else Buy)
      in (case match_against_mem rt other incoming b m (sv_new 16) t of
            None \<Rightarrow> None
          | Some (b1, m1, trades, t1) \<Rightarrow>
              if on_qty (m1 incoming) > 0
              then map_option (\<lambda>st. (trades, st)) (insert_order_mem rt incoming ((b1, m1), t1))
              else Some (trades, (b1, m1), t1))))"

section \<open>One side\<close>

text \<open>
  Every level has its node, no two levels share one, and the nodes and the free list together
  are the 512 slots of the arena.
\<close>

definition side_store :: "nat \<Rightarrow> Price set \<Rightarrow> arena \<Rightarrow> (Price \<Rightarrow> nat option) \<Rightarrow> bool" where
  "side_store buf ks ar nd \<longleftrightarrow> dom nd = ks \<and> inj_on nd ks \<and>
     (\<exists>fs. arena_holds buf 256 512 ar fs \<and> distinct fs \<and> ran nd \<inter> set fs = {} \<and>
        ran nd \<union> set fs = set (slot_addrs buf 256 512))"

lemma card_ran: "inj_on nd (dom nd) \<Longrightarrow> card (ran nd) = card (dom nd)"
proof -
  assume "inj_on nd (dom nd)"
  then have "inj_on (the \<circ> nd) (dom nd)"
    by (intro inj_onI) (metis comp_apply domIff inj_onD option.collapse)
  moreover have "ran nd = (the \<circ> nd) ` dom nd" by (force simp: ran_def)
  ultimately show ?thesis by (simp only: card_image)
qed

lemma card_slots: "card (set (slot_addrs buf 256 512)) = 512"
proof -
  have "card (set (slot_addrs buf 256 512)) = length (slot_addrs buf 256 512)"
    by (intro distinct_card slot_addrs_distinct) simp
  then show ?thesis by (simp add: slot_addrs_def)
qed

lemma side_store_emplace:
  assumes st: "side_store buf ks ar nd" and p: "p \<notin> ks" and room: "card ks < 512"
  shows "\<exists>a ar'. pa_allocate op_new sz 1 (ar, h) = Some (a, ar', h) \<and>
    side_store buf (insert p ks) ar' (nd(p := Some a))"
proof -
  obtain fs where d: "dom nd = ks" "inj_on nd ks" and fs: "arena_holds buf 256 512 ar fs"
    "distinct fs" "ran nd \<inter> set fs = {}" "ran nd \<union> set fs = set (slot_addrs buf 256 512)"
    using st by (auto simp: side_store_def)
  have "fs \<noteq> []"
  proof
    assume "fs = []"
    then have "ran nd = set (slot_addrs buf 256 512)" using fs(4) by simp
    then show False using card_ran [of nd] d room card_slots by simp
  qed
  then obtain f fs' where f: "fs = f # fs'" by (cases fs) auto
  then obtain ar' where one: "ar_allocate ar = Some (Some f, ar')" "arena_holds buf 256 512 ar' fs'"
    using arena.take_some [of buf 256 512 ar f fs'] fs(1) by auto
  have pn: "nd p = None" using p d(1) by auto
  then have rn: "ran (nd(p := Some f)) = insert f (ran nd)" by simp
  have "f \<notin> ran nd" using fs(3) f by auto
  then have inj: "inj_on (nd(p := Some f)) (insert p ks)"
    using d p by (auto simp: inj_on_def ran_def) (metis+)?
  have "side_store buf (insert p ks) ar' (nd(p := Some f))"
    using d(1) inj one(2) fs f unfolding side_store_def rn by (intro conjI exI [of _ fs']) auto
  with one(1) show ?thesis by (auto simp: pa_allocate_def)
qed

lemma side_store_erase:
  assumes st: "side_store buf ks ar nd" and a: "nd p = Some a"
  shows "\<exists>ar'. pa_deallocate op_delete a (ar, h) = (ar', h) \<and>
    side_store buf (ks - {p}) ar' (nd(p := None))"
proof -
  obtain fs where d: "dom nd = ks" "inj_on nd ks" and fs: "arena_holds buf 256 512 ar fs"
    "distinct fs" "ran nd \<inter> set fs = {}" "ran nd \<union> set fs = set (slot_addrs buf 256 512)"
    using st by (auto simp: side_store_def)
  have ar: "a \<in> ran nd" using a by (auto simp: ran_def)
  then have slot: "a \<in> set (slot_addrs buf (unat (256 :: u64)) (unat (512 :: u64)))" "a \<notin> set fs"
    using fs by auto
  have "ar_owns a ar" by (rule slot_owned [OF fs(1) slot(1)]) simp
  moreover from arena.give_holds [OF fs(1) slot]
  have "arena_holds buf 256 512 (ar_deallocate a ar) (a # fs)" by simp
  moreover have rn: "ran (nd(p := None)) = ran nd - {a}"
  proof -
    have "x = p" if "nd x = Some a" for x
      using that a inj_onD [OF d(2), of x p] d(1) by auto
    with a have iff: "nd x = Some a \<longleftrightarrow> x = p" for x by metis
    have "(\<exists>x. x \<noteq> p \<and> nd x = Some y) \<longleftrightarrow> (\<exists>x. nd x = Some y) \<and> y \<noteq> a" for y
      using iff by (metis option.inject)
    moreover have "y \<in> ran (nd(p := None)) \<longleftrightarrow> (\<exists>x. x \<noteq> p \<and> nd x = Some y)" for y
      by (auto simp: ran_def)
    ultimately show ?thesis by (simp only: set_eq_iff) (simp add: ran_def)
  qed
  moreover have "inj_on (nd(p := None)) (ks - {p})" using d(2) by (auto simp: inj_on_def)
  moreover have "dom (nd(p := None)) = ks - {p}" using d(1) by auto
  moreover have "ran nd - {a} \<union> set (a # fs) = set (slot_addrs buf 256 512)"
    using fs(4) ar by auto
  moreover have "(ran nd - {a}) \<inter> set (a # fs) = {}" "distinct (a # fs)" using fs(2,3) slot(2) by auto
  ultimately have "side_store buf (ks - {p}) (ar_deallocate a ar) (nd(p := None))"
    unfolding side_store_def rn by (intro conjI exI [of _ "a # fs"])
  with \<open>ar_owns a ar\<close> show ?thesis by (simp add: pa_deallocate_def)
qed

section \<open>The book\<close>

definition store_rel :: "(Side \<Rightarrow> nat) \<Rightarrow> OrderBook \<Rightarrow> 'h node_store \<Rightarrow> bool" where
  "store_rel buf b t \<longleftrightarrow>
     (\<forall>s. sorted_wrt (side_cmp s) (keys_of (book_side s b)) \<and>
        side_store (buf s) (set (keys_of (book_side s b))) (ns_arena t s) (ns_node t s))"

definition small_book :: "OrderBook \<Rightarrow> bool" where
  "small_book b \<longleftrightarrow> (\<forall>s. length (keys_of (book_side s b)) \<le> 512)"

lemma store_rel_new: "k \<le> 8 \<Longrightarrow> store_rel buf OrderBook_new (node_store_new (2 ^ k) buf h)"
proof -
  assume "k \<le> 8"
  from book_arena_holds [OF this]
  have "side_store (buf s) {} (book_arena (2 ^ k) (buf s)) (\<lambda>_. None)" for s
    unfolding side_store_def by (auto intro!: exI [of _ "slot_addrs (buf s) 256 512"] slot_addrs_distinct)
  moreover have "keys_of (book_side s OrderBook_new) = []" for s
    by (cases s) (simp_all add: OrderBook_new_def)
  ultimately show ?thesis by (simp add: store_rel_def node_store_new_def)
qed

lemma store_rel_cong:
  "store_rel buf b t \<Longrightarrow> (\<And>s. keys_of (book_side s b') = keys_of (book_side s b)) \<Longrightarrow>
     store_rel buf b' t"
  by (simp add: store_rel_def)

lemma store_rel_distinct: "store_rel buf b t \<Longrightarrow> distinct (keys_of (book_side s b))"
  using side_order.sorted_distinct by (auto simp: store_rel_def)

lemma emplace_node_rel:
  assumes rel: "store_rel buf b t" and new: "map_find p (book_side s b) = None"
    and len: "length (keys_of (book_side s b)) \<le> 512"
  shows "\<exists>t'. emplace_node rt s p t = Some t' \<and>
    (if length (keys_of (book_side s b)) < 512
     then ns_heap t' = ns_heap t \<and>
       store_rel buf (set_book_side s (map_emplace (side_cmp s) p v (book_side s b)) b) t'
     else ns_heap t' = snd (rt_new rt (rt_node_size rt) (ns_heap t)))"
proof -
  let ?ks = "set (keys_of (book_side s b))"
  have side: "side_store (buf s) ?ks (ns_arena t s) (ns_node t s)" and
    p: "p \<notin> ?ks" and card: "card ?ks = length (keys_of (book_side s b))"
    using rel new by (simp_all add: store_rel_def map_find_None_iff distinct_card store_rel_distinct [OF rel])
  show ?thesis
  proof (cases "length (keys_of (book_side s b)) < 512")
    case True
    with side_store_emplace [OF side p] card obtain a ar where
      "pa_allocate (rt_new rt) (rt_node_size rt) 1 (ns_arena t s, ns_heap t) = Some (a, ar, ns_heap t)"
      "side_store (buf s) (insert p ?ks) ar ((ns_node t s)(p := Some a))" by metis
    with rel True show ?thesis
      by (auto simp: emplace_node_def store_rel_def side_order.keys_emplace side_order.sorted_emplace)
  next
    case False
    obtain fs where fs: "arena_holds (buf s) 256 512 (ns_arena t s) fs" "distinct fs"
      "ran (ns_node t s) \<inter> set fs = {}" "ran (ns_node t s) \<union> set fs = set (slot_addrs (buf s) 256 512)"
      and d: "dom (ns_node t s) = ?ks" "inj_on (ns_node t s) ?ks"
      using side by (auto simp: side_store_def)
    have "card (ran (ns_node t s)) = 512" using card_ran [of "ns_node t s"] d card len False by simp
    moreover have "ran (ns_node t s) \<subseteq> set (slot_addrs (buf s) 256 512)" using fs(4) by auto
    ultimately have "ran (ns_node t s) = set (slot_addrs (buf s) 256 512)"
      by (intro card_subset_eq) (simp_all add: card_slots)
    then have "set fs = {}" using fs(3,4) by (metis Int_absorb1 Un_upper2)
    then have "fs = []" by simp
    with fs(1) have "arena_holds (buf s) 256 512 (ns_arena t s) []" by simp
    then have "ar_allocate (ns_arena t s) = Some (None, ns_arena t s)" by (rule arena.take_none)
    moreover obtain a h where "rt_new rt (rt_node_size rt) (ns_heap t) = (a, h)"
      by (cases "rt_new rt (rt_node_size rt) (ns_heap t)")
    ultimately show ?thesis using False by (simp add: emplace_node_def pa_allocate_def)
  qed
qed

lemma check_remove_level_mem_rel:
  assumes rel: "store_rel buf b t"
  obtains t' where "check_remove_level_mem rt lvl s (b, t) = (check_remove_level lvl s b, t')"
    and "ns_heap t' = ns_heap t" and "store_rel buf (check_remove_level lvl s b) t'"
proof (cases "il_empty (lvl_orders lvl)")
  case False
  then show ?thesis
    by (intro that [of t]) (simp_all add: check_remove_level_mem_def check_remove_level_def rel)
next
  case True
  let ?p = "lvl_price lvl" and ?ks = "keys_of (book_side s b)"
  let ?b = "set_book_side s (map_erase ?p (book_side s b)) b"
  have b': "check_remove_level lvl s b = ?b" using True by (simp add: check_remove_level_def)
  have side: "side_store (buf s) (set ?ks) (ns_arena t s) (ns_node t s)"
    and srt: "sorted_wrt (side_cmp s) ?ks" using rel by (simp_all add: store_rel_def)
  have keys: "keys_of (map_erase ?p (book_side s b)) = remove1 ?p ?ks"
    by (rule keys_erase [OF store_rel_distinct [OF rel]])
  show ?thesis
  proof (cases "ns_node t s ?p")
    case None
    then have "?p \<notin> set ?ks" using side by (auto simp: side_store_def)
    then have "store_rel buf ?b t"
      using keys by (intro store_rel_cong [OF rel]) (simp add: remove1_idem)
    with None True b' show ?thesis
      by (intro that [of t]) (simp_all add: check_remove_level_mem_def erase_node_def)
  next
    case (Some a)
    obtain ar where ar: "pa_deallocate (rt_delete rt) a (ns_arena t s, ns_heap t) = (ar, ns_heap t)"
      "side_store (buf s) (set ?ks - {?p}) ar ((ns_node t s)(?p := None))"
      using side_store_erase [OF side Some, of "rt_delete rt" "ns_heap t"] by metis
    have "set (remove1 ?p ?ks) = set ?ks - {?p}" using store_rel_distinct [OF rel] by simp
    moreover have "sorted_wrt (side_cmp s) (remove1 ?p ?ks)"
      using side_order.sorted_erase [OF srt, of ?p] by (simp only: keys)
    ultimately have "store_rel buf ?b \<lparr>ns_arena = (ns_arena t)(s := ar),
        ns_node = (ns_node t)(s := (ns_node t s)(?p := None)), ns_heap = ns_heap t\<rparr>"
      using rel ar(2) unfolding store_rel_def by (metis (no_types, lifting) book_side_set fun_upd_apply
        keys node_store.select_convs(1,2))
    moreover have "check_remove_level_mem rt lvl s (b, t) = (?b, \<lparr>ns_arena = (ns_arena t)(s := ar),
        ns_node = (ns_node t)(s := (ns_node t s)(?p := None)), ns_heap = ns_heap t\<rparr>)"
      using Some True ar(1) b' by (simp add: check_remove_level_mem_def erase_node_def)
    ultimately show ?thesis using that unfolding b' by simp
  qed
qed

lemma length_keys_erase: "length (keys_of (map_erase k lm)) \<le> length (keys_of lm)"
  by (induction k lm rule: map_erase.induct) auto

section \<open>What the loops need of the allocations\<close>

text \<open>
  An invariant of book and store that depends on the levels only and that removing a level
  keeps: the matching loops and cancelling keep it too, and return what they return without
  allocators.
\<close>

locale level_keeper =
  fixes rt :: "'h runtime" and inv :: "OrderBook \<Rightarrow> 'h node_store \<Rightarrow> bool"
  assumes inv_cong: "inv b t \<Longrightarrow> (\<And>s. keys_of (book_side s b') = keys_of (book_side s b)) \<Longrightarrow> inv b' t"
    and remove_inv: "inv b t \<Longrightarrow> \<exists>t'. check_remove_level_mem rt lvl s (b, t) = (check_remove_level lvl s b, t') \<and>
      inv (check_remove_level lvl s b) t'"
begin

definition against_kept ::
  "Side \<Rightarrow> addr \<Rightarrow> OrderBook \<Rightarrow> mem \<Rightarrow> Trade small_vector \<Rightarrow> OrderBook \<times> mem \<times> Trade small_vector \<Rightarrow> bool" where
  "against_kept s a b m trades r \<longleftrightarrow> (\<forall>t. inv b t \<longrightarrow>
     (\<exists>t'. match_against_mem rt s a b m trades t = Some (fst r, fst (snd r), snd (snd r), t') \<and>
        inv (fst r) t' \<and> (\<forall>s'. s' \<noteq> s \<longrightarrow> book_side s' (fst r) = book_side s' b) \<and>
        length (keys_of (book_side s (fst r))) \<le> length (keys_of (book_side s b))))"

lemma store_inv: "inv b t \<Longrightarrow> inv (set_book_side s (map_store p lvl (book_side s b)) b) t"
  by (erule inv_cong) simp

lemma match_against_kept:
  assumes "match_against s a b m trades = Some r"
  shows "against_kept s a b m trades r"
proof (rule match_against.raw_induct [where P = against_kept, OF _ assms], goal_cases)
  case (1 f s a b m trades r)
  note IH = 1(1) [unfolded against_kept_def, rule_format] and run = 1(2)
  show ?case unfolding against_kept_def
  proof (intro allI impI)
    fix t assume rel: "inv b t"
    show "\<exists>t'. match_against_mem rt s a b m trades t = Some (fst r, fst (snd r), snd (snd r), t') \<and>
        inv (fst r) t' \<and> (\<forall>s'. s' \<noteq> s \<longrightarrow> book_side s' (fst r) = book_side s' b) \<and>
        length (keys_of (book_side s (fst r))) \<le> length (keys_of (book_side s b))"
    proof (cases "on_qty (m a) > 0")
      case False
      with run rel show ?thesis by (auto simp: match_against_mem.simps [of rt s a b m])
    next
      case qty: True
      show ?thesis
      proof (cases "best_level s b")
        case None
        with run rel qty show ?thesis by (auto simp: match_against_mem.simps [of rt s a b m])
      next
        case (Some best)
        show ?thesis
        proof (cases "side_cmp s (on_price (m a)) (lvl_price best)")
          case True
          with run rel qty Some show ?thesis by (auto simp: match_against_mem.simps [of rt s a b m])
        next
          case False
          with run qty Some obtain st where
            st: "match_level a (il_head (lvl_orders best)) \<lparr>ms_mem = m, ms_level = best, ms_trades = trades\<rparr> = Some st"
            and rec: "f s a (check_remove_level (ms_level st) s (set_book_side s
                (map_store (lvl_price best) (ms_level st) (book_side s b)) b)) (ms_mem st) (ms_trades st) = Some r"
            by (auto split: option.splits)
          let ?b1 = "set_book_side s (map_store (lvl_price best) (ms_level st) (book_side s b)) b"
          obtain t1 where t1: "check_remove_level_mem rt (ms_level st) s (?b1, t) =
              (check_remove_level (ms_level st) s ?b1, t1)" "inv (check_remove_level (ms_level st) s ?b1) t1"
            using remove_inv [OF store_inv [OF rel]] by blast
          have len: "length (keys_of (book_side s (check_remove_level (ms_level st) s ?b1))) \<le>
              length (keys_of (book_side s b))"
            using length_keys_erase [of _ "map_store (lvl_price best) (ms_level st) (book_side s b)"]
            by (simp add: check_remove_level_def)
          have off: "book_side s' (check_remove_level (ms_level st) s ?b1) = book_side s' b" if "s' \<noteq> s" for s'
            using that by (simp add: check_remove_level_def)
          from IH [OF rec t1(2)] obtain t' where "match_against_mem rt s a
              (check_remove_level (ms_level st) s ?b1) (ms_mem st) (ms_trades st) t1 =
                Some (fst r, fst (snd r), snd (snd r), t')"
            "inv (fst r) t'" "\<forall>s'. s' \<noteq> s \<longrightarrow> book_side s' (fst r) =
              book_side s' (check_remove_level (ms_level st) s ?b1)"
            "length (keys_of (book_side s (fst r))) \<le>
              length (keys_of (book_side s (check_remove_level (ms_level st) s ?b1)))" by blast
          with qty Some False st t1(1) len off show ?thesis
            by (intro exI [of _ t']) (simp add: match_against_mem.simps [of rt s a b m])
        qed
      qed
    qed
  qed
qed

lemma cancel_kept:
  assumes rel: "inv b t"
  shows "\<exists>t'. cancel_order_mem rt a ((b, m), t) = (cancel_order a (b, m), t') \<and>
    inv (fst (cancel_order a (b, m))) t'"
proof (cases "map_find (on_price (m a)) (book_side (on_side (m a)) b)")
  case None
  with rel show ?thesis by (simp add: cancel_order_mem_def cancel_order_def)
next
  case (Some lvl)
  obtain os m' where un: "il_remove a (lvl_orders lvl, m) = (os, m')" by (metis surj_pair)
  let ?lvl = "lvl\<lparr>lvl_orders := os, total_volume := total_volume lvl - on_qty (m' a)\<rparr>"
  let ?b = "set_book_side (on_side (m a))
    (map_store (on_price (m a)) ?lvl (book_side (on_side (m a)) b)) b"
  obtain t' where "check_remove_level_mem rt ?lvl (on_side (m a)) (?b, t) =
      (check_remove_level ?lvl (on_side (m a)) ?b, t')"
    "inv (check_remove_level ?lvl (on_side (m a)) ?b) t'"
    using remove_inv [OF store_inv [OF rel]] by blast
  with Some un show ?thesis
    by (intro exI [of _ t']) (simp add: cancel_order_mem_def cancel_order_def Let_def)
qed

text \<open>A call of \<open>process_limit_order\<close> up to the insertion of what is left.\<close>

lemma process_kept:
  assumes run: "process_limit_order a (b, m) = Some (ts, b', m')" and rel: "inv b t"
  obtains b1 m1 t1 where "inv b1 t1" and "\<And>s. length (keys_of (book_side s b1)) \<le> length (keys_of (book_side s b))"
    and "if on_qty (m1 a) > 0 then insert_order a (b1, m1) = Some (b', m') else b' = b1 \<and> m' = m1"
    and "process_limit_order_mem rt a ((b, m), t) = (if on_qty (m1 a) > 0
      then map_option (\<lambda>st. (ts, st)) (insert_order_mem rt a ((b1, m1), t1))
      else Some (ts, (b1, m1), t1))"
proof -
  let ?o = "if on_side (m a) = Buy then Sell else Buy"
  have o: "?o = opposite (on_side (m a))" by (cases "on_side (m a)") simp_all
  obtain b1 m1 where mt: "match_against ?o a b m (sv_new 16) = Some (b1, m1, ts)"
    and rest: "if on_qty (m1 a) > 0 then insert_order a (b1, m1) = Some (b', m') else b' = b1 \<and> m' = m1"
    using run by (auto simp: process_limit_order_def match_dispatch o split: option.splits if_splits)
  from match_against_kept [OF mt] rel obtain t1 where
    t1: "match_against_mem rt ?o a b m (sv_new 16) t = Some (b1, m1, ts, t1)"
      "inv b1 t1" "\<forall>s'. s' \<noteq> ?o \<longrightarrow> book_side s' b1 = book_side s' b"
      "length (keys_of (book_side ?o b1)) \<le> length (keys_of (book_side ?o b))"
    unfolding against_kept_def by auto
  have "length (keys_of (book_side s b1)) \<le> length (keys_of (book_side s b))" for s
    using t1(3,4) by (cases "s = ?o") simp_all
  with t1(1,2) rest show thesis by (intro that [of b1 t1 m1]) (auto simp: process_limit_order_mem_def)
qed

end

interpretation stored: level_keeper rt "\<lambda>b t. store_rel buf b t \<and> ns_heap t = h" for rt buf h
proof unfold_locales
  fix b t lvl s assume "store_rel buf b t \<and> ns_heap t = h"
  then show "\<exists>t'. check_remove_level_mem rt lvl s (b, t) = (check_remove_level lvl s b, t') \<and>
      store_rel buf (check_remove_level lvl s b) t' \<and> ns_heap t' = h"
    by (auto intro: check_remove_level_mem_rel [of buf b t rt lvl s])
qed (auto intro: store_rel_cong)

section \<open>Inserting an order\<close>

lemma insert_order_keys:
  assumes "insert_order a (b, m) = Some (b', m')"
  shows "keys_of (book_side s b') = (if s = on_side (m a)
    then keys_of (case map_find (on_price (m a)) (book_side s b) of
        None \<Rightarrow> map_emplace (side_cmp s) (on_price (m a)) (PriceLevel_of (on_price (m a))) (book_side s b)
      | Some _ \<Rightarrow> book_side s b)
    else keys_of (book_side s b))"
  using assms by (auto simp: insert_order_def Let_def split: option.splits)

lemma insert_order_mem_rel:
  assumes run: "insert_order a (b, m) = Some (b', m')" and rel: "store_rel buf b t" and small: "small_book b"
  shows "\<exists>t'. insert_order_mem rt a ((b, m), t) = Some ((b', m'), t') \<and>
    (if small_book b' then ns_heap t' = ns_heap t \<and> store_rel buf b' t'
     else ns_heap t' = snd (rt_new rt (rt_node_size rt) (ns_heap t)))"
proof -
  let ?s = "on_side (m a)" and ?p = "on_price (m a)"
  note keys = insert_order_keys [OF run]
  show ?thesis
  proof (cases "map_find ?p (book_side ?s b)")
    case (Some lvl)
    then have same: "keys_of (book_side s b') = keys_of (book_side s b)" for s by (simp add: keys)
    then have "small_book b'" using small by (simp add: small_book_def)
    with Some run store_rel_cong [OF rel same] show ?thesis by (simp add: insert_order_mem_def)
  next
    case None
    let ?lm = "map_emplace (side_cmp ?s) ?p (PriceLevel_of ?p) (book_side ?s b)"
    have same: "keys_of (book_side s b') = keys_of (book_side s (set_book_side ?s ?lm b))" for s
      using None by (simp add: keys)
    have srt: "sorted_wrt (side_cmp ?s) (keys_of ?lm)"
      using rel by (simp add: store_rel_def side_order.sorted_emplace)
    have "length (keys_of ?lm) = card (set (keys_of ?lm))"
      using side_order.sorted_distinct [OF srt] by (simp add: distinct_card)
    also have "\<dots> = Suc (length (keys_of (book_side ?s b)))"
      using None store_rel_distinct [OF rel]
      by (simp add: side_order.keys_emplace map_find_None_iff distinct_card)
    finally have len: "length (keys_of ?lm) = Suc (length (keys_of (book_side ?s b)))" .
    have le: "length (keys_of (book_side s b)) \<le> 512" for s using small by (simp add: small_book_def)
    have room: "small_book b' \<longleftrightarrow> length (keys_of (book_side ?s b)) < 512"
      using le len by (auto simp: small_book_def same split: if_splits)
    from emplace_node_rel [OF rel None le, of rt "PriceLevel_of ?p"] obtain t' where
      t': "emplace_node rt ?s ?p t = Some t'" and
      "if length (keys_of (book_side ?s b)) < 512
       then ns_heap t' = ns_heap t \<and> store_rel buf (set_book_side ?s ?lm b) t'
       else ns_heap t' = snd (rt_new rt (rt_node_size rt) (ns_heap t))" by blast
    moreover have "store_rel buf b' t'" if "store_rel buf (set_book_side ?s ?lm b) t'"
      by (rule store_rel_cong [OF that same])
    ultimately have "if small_book b' then ns_heap t' = ns_heap t \<and> store_rel buf b' t'
       else ns_heap t' = snd (rt_new rt (rt_node_size rt) (ns_heap t))"
      by (simp add: room split: if_splits)
    with None run t' show ?thesis by (simp add: insert_order_mem_def)
  qed
qed

lemma reduce_order_keys:
  "keys_of (book_side s (fst (reduce_order a q (b, m)))) = keys_of (book_side s b)"
  by (simp add: reduce_order_def Let_def split: option.splits)

lemma process_limit_order_mem_rel:
  assumes run: "process_limit_order a (b, m) = Some (ts, b', m')"
    and rel: "store_rel buf b t" and small: "small_book b"
  shows "\<exists>t'. process_limit_order_mem rt a ((b, m), t) = Some (ts, (b', m'), t') \<and>
    (if small_book b' then ns_heap t' = ns_heap t \<and> store_rel buf b' t'
     else ns_heap t' = snd (rt_new rt (rt_node_size rt) (ns_heap t)))"
proof -
  obtain b1 m1 t1 where t1: "store_rel buf b1 t1" "ns_heap t1 = ns_heap t"
    and len: "\<And>s. length (keys_of (book_side s b1)) \<le> length (keys_of (book_side s b))"
    and rest: "if on_qty (m1 a) > 0 then insert_order a (b1, m1) = Some (b', m') else b' = b1 \<and> m' = m1"
    and mem: "process_limit_order_mem rt a ((b, m), t) = (if on_qty (m1 a) > 0
      then map_option (\<lambda>st. (ts, st)) (insert_order_mem rt a ((b1, m1), t1)) else Some (ts, (b1, m1), t1))"
    by (rule stored.process_kept [OF run, of buf t "ns_heap t" rt]) (use rel in auto)
  have small1: "small_book b1" using small len unfolding small_book_def by (meson order_trans)
  show ?thesis
  proof (cases "on_qty (m1 a) > 0")
    case True
    with rest have "insert_order a (b1, m1) = Some (b', m')" by simp
    from insert_order_mem_rel [OF this t1(1) small1, of rt] t1(2) mem True show ?thesis by auto
  next
    case False
    with rest small1 t1 mem show ?thesis by auto
  qed
qed

section \<open>Reachable states\<close>

text \<open>
  The engine with its allocators, from the constructor on, for alignments up to 256 and as long
  as the book satisfies \<open>fits\<close>, for example has at most 512 price levels on each side.
\<close>

inductive stored_reach ::
  "(OrderBook \<Rightarrow> bool) \<Rightarrow> 'h runtime \<Rightarrow> (Side \<Rightarrow> nat) \<Rightarrow> 'h \<Rightarrow> (OrderBook \<times> mem) \<times> 'h node_store \<Rightarrow> bool"
  for fits rt buf h where
  start: "k \<le> 8 \<Longrightarrow> stored_reach fits rt buf h ((OrderBook_new, m), node_store_new (2 ^ k) buf h)"
| submit: "\<lbrakk>stored_reach fits rt buf h ((b, m), t); \<not> resting_in (b, m) a;
     process_limit_order_mem rt a ((b, m(a := OrderNode_of i p q s)), t) = Some (ts, (b', m'), t');
     fits b'\<rbrakk> \<Longrightarrow> stored_reach fits rt buf h ((b', m'), t')"
| cancel: "\<lbrakk>stored_reach fits rt buf h ((b, m), t); resting_in (b, m) a\<rbrakk> \<Longrightarrow>
     stored_reach fits rt buf h (cancel_order_mem rt a ((b, m), t))"
| reduce: "\<lbrakk>stored_reach fits rt buf h ((b, m), t); resting_in (b, m) a\<rbrakk> \<Longrightarrow>
     stored_reach fits rt buf h (reduce_order a q (b, m), t)"

lemma stored_reach_inv:
  "stored_reach small_book rt buf h x \<Longrightarrow> engine_reach (fst x) \<and> small_book (fst (fst x)) \<and>
     store_rel buf (fst (fst x)) (snd x) \<and> ns_heap (snd x) = h"
proof (induction rule: stored_reach.induct)
  case (start k m)
  have "book_side s OrderBook_new = []" for s by (cases s) (simp_all add: OrderBook_new_def)
  then have "small_book OrderBook_new" by (simp add: small_book_def)
  with store_rel_new [OF start] show ?case by (simp add: engine_reach.start node_store_new_def)
next
  case (submit b m t a i p q s ts b' m' t')
  then have inv: "engine_reach (b, m)" "small_book b" "store_rel buf b t" "ns_heap t = h" by simp_all
  obtain ts2 b2 m2 where run: "process_limit_order a (b, m(a := OrderNode_of i p q s)) = Some (ts2, b2, m2)"
    and reach: "engine_reach (b2, m2)" by (rule reach_submit [OF inv(1) submit.hyps(2)])
  from process_limit_order_mem_rel [OF run inv(3,2), of rt] submit.hyps(3,4) inv(4) reach
  show ?case by auto
next
  case (cancel b m t a)
  then have inv: "engine_reach (b, m)" "small_book b" "store_rel buf b t" "ns_heap t = h" by simp_all
  have reach: "engine_reach (cancel_order a (b, m))"
    using engine_reach.step [OF inv(1) engine_step.cancel [OF cancel.hyps(2)]]
    by (simp add: engine_cancel_order_def)
  obtain t' where t': "cancel_order_mem rt a ((b, m), t) = (cancel_order a (b, m), t')"
    "ns_heap t' = ns_heap t" "store_rel buf (fst (cancel_order a (b, m))) t'"
    using stored.cancel_kept [of buf b t "ns_heap t" rt a m] inv(3) by auto
  have "length (keys_of (book_side s (fst (cancel_order a (b, m))))) \<le> length (keys_of (book_side s b))" for s
    by (auto simp: cancel_order_def check_remove_level_def Let_def
        intro: order_trans [OF length_keys_erase] split: option.splits prod.splits)
  then have "small_book (fst (cancel_order a (b, m)))"
    using inv(2) unfolding small_book_def by (meson order_trans)
  with reach t' inv(4) show ?case by simp
next
  case (reduce b m t a q)
  then have inv: "engine_reach (b, m)" "small_book b" "store_rel buf b t" "ns_heap t = h" by simp_all
  have "engine_reach (reduce_order a q (b, m))"
    by (rule engine_reach.step [OF inv(1) engine_step.reduce [OF reduce.hyps(2)]])
  moreover have "small_book (fst (reduce_order a q (b, m)))"
    using inv(2) by (simp add: small_book_def reduce_order_keys)
  moreover have "store_rel buf (fst (reduce_order a q (b, m))) t"
    by (rule store_rel_cong [OF inv(3)]) (rule reduce_order_keys)
  ultimately show ?case using inv(4) by simp
qed

section \<open>Properties\<close>

text \<open>
  (C34) No call of \<open>operator new\<close> on the hot path: as long as neither side had more than 512
  price levels, the global heap is as it was when the engine was built. The next submission
  returns what the engine without allocators returns, and calls \<open>operator new\<close> for the maps if
  and only if it makes a 513th level on a side, once, and for the trades if and only if there are
  more than 16.
\<close>

theorem submit_allocates_only_beyond_512:
  assumes "stored_reach small_book rt buf h ((b, m), t)" and "\<not> resting_in (b, m) a"
  shows "\<exists>ts b' m' t'. process_limit_order a (b, m(a := OrderNode_of i p q s)) = Some (ts, b', m') \<and>
    process_limit_order_mem rt a ((b, m(a := OrderNode_of i p q s)), t) = Some (ts, (b', m'), t') \<and>
    ns_heap t' = (if small_book b' then h else snd (rt_new rt (rt_node_size rt) h)) \<and>
    (sv_is_heap ts \<longleftrightarrow> 16 < length (sv_contents ts))"
proof -
  have inv: "engine_reach (b, m)" "small_book b" "store_rel buf b t" "ns_heap t = h"
    using stored_reach_inv [OF assms(1)] by simp_all
  obtain ts b' m' where run: "process_limit_order a (b, m(a := OrderNode_of i p q s)) = Some (ts, b', m')"
    by (rule reach_submit [OF inv(1) assms(2)])
  from process_limit_order_mem_rel [OF run inv(3,2), of rt] inv(4)
    submit_heap_iff_many_trades [OF inv(1) assms(2) run] run
  show ?thesis by auto
qed

theorem submit_allocates_only_beyond_512_witness:
  "\<exists>ts b' m' t'. process_limit_order_mem \<lparr>rt_new = (\<lambda>_ n. (n, Suc n)), rt_delete = (\<lambda>_ n. n), rt_node_size = 72\<rparr> 0
     ((OrderBook_new, quiet_mem(0 := OrderNode_of 1 100 10 Buy)), node_store_new (2 ^ 4) (\<lambda>_. 4096) 0) =
       Some (ts, (b', m'), t') \<and> ns_heap t' = (if small_book b' then 0 else Suc 0)"
proof -
  let ?rt = "\<lparr>rt_new = (\<lambda>_ n. (n, Suc n)), rt_delete = (\<lambda>_ n. n), rt_node_size = 72\<rparr>"
  have four: "4 \<le> (8 :: nat)" by simp
  note submit = submit_allocates_only_beyond_512 [OF stored_reach.start [OF four] resting_in_new,
      where rt = ?rt and buf = "\<lambda>_. 4096" and h = 0 and m = quiet_mem and a = 0 and i = 1
      and p = 100 and q = 10 and s = Buy]
  show ?thesis using submit unfolding runtime.select_convs snd_conv by blast
qed

text \<open>
  Every level of a reachable book has a node of its own, which lies in a slot of the side's arena
  and is recognised by \<open>owns\<close>.
\<close>

lemma levels_have_arena_nodes:
  assumes "stored_reach small_book rt buf h ((b, m), t)" and "map_find p (book_side s b) = Some lvl"
  shows "\<exists>x. ns_node t s p = Some x \<and> x \<in> set (slot_addrs (buf s) 256 512) \<and>
    ar_owns x (ns_arena t s) \<and> (\<forall>p'. ns_node t s p' = Some x \<longrightarrow> p' = p)"
proof -
  have "side_store (buf s) (set (keys_of (book_side s b))) (ns_arena t s) (ns_node t s)"
    using stored_reach_inv [OF assms(1)] by (simp add: store_rel_def)
  then obtain fs where d: "dom (ns_node t s) = set (keys_of (book_side s b))"
    "inj_on (ns_node t s) (dom (ns_node t s))" and fs: "arena_holds (buf s) 256 512 (ns_arena t s) fs"
    "ran (ns_node t s) \<union> set fs = set (slot_addrs (buf s) 256 512)"
    by (auto simp: side_store_def)
  from map_find_Some_key [OF assms(2)] d(1) obtain x where x: "ns_node t s p = Some x" by blast
  then have slot: "x \<in> set (slot_addrs (buf s) (unat (256 :: u64)) (unat (512 :: u64)))"
    using fs(2) by (auto simp: ran_def)
  have "ar_owns x (ns_arena t s)" by (rule slot_owned [OF fs(1) slot]) simp
  moreover have "p' = p" if "ns_node t s p' = Some x" for p'
    by (rule inj_onD [OF d(2)]) (simp_all only: that x domI)
  moreover have "x \<in> set (slot_addrs (buf s) 256 512)" using slot by simp
  ultimately show ?thesis using x by blast
qed

end
