(* ===== verification/Book_Lifetime.thy ===== *)
theory Book_Lifetime
  imports Book_Memory
begin

text \<open>
  The memory of the order book from its construction to its destruction, for any number of price
  levels. The destructor of a \<open>std::map\<close> deallocates the node of every element. What the code
  relies on of \<^verbatim>\<open>operator new\<close> and \<^verbatim>\<open>operator delete\<close> is \<open>heap_contract\<close>: a new block is none
  of the live ones and not inside the engine's own arenas, and a deleted block is no longer live.
\<close>

section \<open>Destruction\<close>

definition destroy_side :: "'h runtime \<Rightarrow> Side \<Rightarrow> OrderBook \<Rightarrow> 'h node_store \<Rightarrow> 'h node_store" where
  "destroy_side rt s b t = fold (erase_node rt s) (keys_of (book_side s b)) t"

text \<open>Members are destroyed in the reverse order of their declaration: the asks first.\<close>

definition book_destroy :: "'h runtime \<Rightarrow> OrderBook \<Rightarrow> 'h node_store \<Rightarrow> 'h node_store" where
  "book_destroy rt b t = destroy_side rt Buy b (destroy_side rt Sell b t)"

section \<open>The contract of the global heap\<close>

definition arena_bytes :: "(Side \<Rightarrow> nat) \<Rightarrow> nat set" where
  "arena_bytes buf = (\<Union>s. {buf s ..< buf s + 131072})"

definition heap_contract :: "'h runtime \<Rightarrow> ('h \<Rightarrow> nat set) \<Rightarrow> (Side \<Rightarrow> nat) \<Rightarrow> bool" where
  "heap_contract rt used buf \<longleftrightarrow>
     (\<forall>h a h'. rt_new rt (rt_node_size rt) h = (a, h') \<longrightarrow>
        a \<notin> used h \<and> a \<notin> arena_bytes buf \<and> used h' = insert a (used h)) \<and>
     (\<forall>h a. a \<in> used h \<longrightarrow> used (rt_delete rt a h) = used h - {a})"

section \<open>One side\<close>

text \<open>
  Every slot of the arena is a level's node or on the free list; the nodes that are no slots are
  \<open>outside\<close>.
\<close>

definition side_nodes :: "nat \<Rightarrow> Price set \<Rightarrow> arena \<Rightarrow> (Price \<Rightarrow> nat option) \<Rightarrow> bool" where
  "side_nodes buf ks ar nd \<longleftrightarrow> dom nd = ks \<and> inj_on nd ks \<and>
     (\<exists>fs. arena_holds buf 256 512 ar fs \<and> distinct fs \<and> ran nd \<inter> set fs = {} \<and>
        set fs \<subseteq> set (slot_addrs buf 256 512) \<and> set (slot_addrs buf 256 512) \<subseteq> ran nd \<union> set fs)"

definition outside :: "nat \<Rightarrow> (Price \<Rightarrow> nat option) \<Rightarrow> nat set" where
  "outside buf nd = ran nd - set (slot_addrs buf 256 512)"

lemma slots_in_arena: "set (slot_addrs (buf s) 256 512) \<subseteq> arena_bytes buf"
proof
  fix a assume "a \<in> set (slot_addrs (buf s) 256 512)"
  from slot_in_buffer [OF this, of 131072] show "a \<in> arena_bytes buf"
    by (auto simp: arena_bytes_def)
qed

lemma arena_owns_bytes:
  "arena_holds buf 256 512 ar fs \<Longrightarrow> ar_owns a ar \<longleftrightarrow> a \<in> {buf ..< buf + 131072}"
  by (auto simp: arena_holds_def ar_owns_def)

lemma inj_on_new:
  "inj_on nd ks \<Longrightarrow> dom nd = ks \<Longrightarrow> p \<notin> ks \<Longrightarrow> a \<notin> ran nd \<Longrightarrow> inj_on (nd(p := Some a)) (insert p ks)"
  by (auto simp: inj_on_def ran_def) (metis+)?

lemma ran_erase:
  assumes "inj_on nd (dom nd)" and "nd p = Some a"
  shows "ran (nd(p := None)) = ran nd - {a}"
proof -
  have iff: "nd x = Some a \<longleftrightarrow> x = p" for x using inj_onD [OF assms(1), of x p] assms(2) by (metis domI)
  have "(\<exists>x. x \<noteq> p \<and> nd x = Some y) \<longleftrightarrow> (\<exists>x. nd x = Some y) \<and> y \<noteq> a" for y
    using iff by (metis option.inject)
  moreover have "y \<in> ran (nd(p := None)) \<longleftrightarrow> (\<exists>x. x \<noteq> p \<and> nd x = Some y)" for y
    by (auto simp: ran_def)
  ultimately show ?thesis by (simp only: set_eq_iff) (simp add: ran_def)
qed

lemma side_nodes_emplace:
  assumes st: "side_nodes (buf s) ks ar nd" and p: "p \<notin> ks" and hc: "heap_contract rt used buf"
    and out: "outside (buf s) nd \<subseteq> used h"
  shows "\<exists>a ar' h'. pa_allocate (rt_new rt) (rt_node_size rt) 1 (ar, h) = Some (a, ar', h') \<and>
    side_nodes (buf s) (insert p ks) ar' (nd(p := Some a)) \<and>
    (h' = h \<and> outside (buf s) (nd(p := Some a)) = outside (buf s) nd \<or>
     a \<notin> used h \<and> a \<notin> arena_bytes buf \<and> used h' = insert a (used h) \<and>
       outside (buf s) (nd(p := Some a)) = insert a (outside (buf s) nd))"
proof -
  let ?S = "set (slot_addrs (buf s) 256 512)"
  obtain fs where d: "dom nd = ks" "inj_on nd ks" and fs: "arena_holds (buf s) 256 512 ar fs"
    "distinct fs" "ran nd \<inter> set fs = {}" "set fs \<subseteq> ?S" "?S \<subseteq> ran nd \<union> set fs"
    using st by (auto simp: side_nodes_def)
  have "nd p = None" using p d(1) by auto
  then have rn: "ran (nd(p := Some a)) = insert a (ran nd)" for a by simp
  have dm: "dom (nd(p := Some a)) = insert p ks" for a using d(1) by auto
  show ?thesis
  proof (cases fs)
    case Nil
    obtain a h' where new: "rt_new rt (rt_node_size rt) h = (a, h')" by (metis surj_pair)
    then have a: "a \<notin> used h" "a \<notin> arena_bytes buf" "used h' = insert a (used h)"
      using hc by (simp_all add: heap_contract_def)
    have aS: "a \<notin> ?S" using a(2) slots_in_arena by blast
    then have "a \<notin> ran nd" using a(1) out by (auto simp: outside_def)
    from inj_on_new [OF d(2,1) p this]
    have "side_nodes (buf s) (insert p ks) ar (nd(p := Some a))"
      unfolding side_nodes_def rn dm using fs Nil by (intro conjI exI [of _ "[]"]) auto
    moreover have "outside (buf s) (nd(p := Some a)) = insert a (outside (buf s) nd)"
      using aS unfolding outside_def rn by auto
    moreover have "ar_allocate ar = Some (None, ar)"
      using arena.take_none [of "buf s" 256 512 ar] fs(1) Nil by simp
    ultimately show ?thesis using new a
      by (intro exI [of _ a] exI [of _ ar] exI [of _ h']) (simp add: pa_allocate_def)
  next
    case (Cons f fs')
    then obtain ar' where one: "ar_allocate ar = Some (Some f, ar')" "arena_holds (buf s) 256 512 ar' fs'"
      using arena.take_some [of "buf s" 256 512 ar f fs'] fs(1) by auto
    have f: "f \<in> ?S" "f \<notin> ran nd" using fs(3,4) Cons by auto
    have "side_nodes (buf s) (insert p ks) ar' (nd(p := Some f))"
      unfolding side_nodes_def rn dm using inj_on_new [OF d(2,1) p f(2)] fs one(2) Cons
      by (intro conjI exI [of _ fs']) auto
    moreover have "outside (buf s) (nd(p := Some f)) = outside (buf s) nd"
      using f(1) unfolding outside_def rn by auto
    ultimately show ?thesis using one(1)
      by (intro exI [of _ f] exI [of _ ar'] exI [of _ h]) (simp add: pa_allocate_def)
  qed
qed

lemma side_nodes_erase:
  assumes st: "side_nodes (buf s) ks ar nd" and a: "nd p = Some a" and hc: "heap_contract rt used buf"
    and out: "outside (buf s) nd \<subseteq> used h" and away: "outside (buf s) nd \<inter> arena_bytes buf = {}"
  shows "\<exists>ar' h'. pa_deallocate (rt_delete rt) a (ar, h) = (ar', h') \<and>
    side_nodes (buf s) (ks - {p}) ar' (nd(p := None)) \<and>
    (h' = h \<and> outside (buf s) (nd(p := None)) = outside (buf s) nd \<or>
     a \<in> outside (buf s) nd \<and> used h' = used h - {a} \<and>
       outside (buf s) (nd(p := None)) = outside (buf s) nd - {a})"
proof -
  let ?S = "set (slot_addrs (buf s) 256 512)"
  obtain fs where d: "dom nd = ks" "inj_on nd ks" and fs: "arena_holds (buf s) 256 512 ar fs"
    "distinct fs" "ran nd \<inter> set fs = {}" "set fs \<subseteq> ?S" "?S \<subseteq> ran nd \<union> set fs"
    using st by (auto simp: side_nodes_def)
  have ar: "a \<in> ran nd" using a by (auto simp: ran_def)
  have rn: "ran (nd(p := None)) = ran nd - {a}" using d a by (intro ran_erase) simp_all
  have inj: "inj_on (nd(p := None)) (ks - {p})" using d(2) by (auto simp: inj_on_def)
  have dm: "dom (nd(p := None)) = ks - {p}" using d(1) by auto
  show ?thesis
  proof (cases "a \<in> ?S")
    case True
    then have slot: "a \<in> set (slot_addrs (buf s) (unat (256 :: u64)) (unat (512 :: u64)))" "a \<notin> set fs"
      using fs(3) ar by auto
    have own: "ar_owns a ar" by (rule slot_owned [OF fs(1) slot(1)]) simp
    from arena.give_holds [OF fs(1) slot]
    have "arena_holds (buf s) 256 512 (ar_deallocate a ar) (a # fs)" by simp
    then have "side_nodes (buf s) (ks - {p}) (ar_deallocate a ar) (nd(p := None))"
      unfolding side_nodes_def rn dm using inj fs slot(2) True by (intro conjI exI [of _ "a # fs"]) auto
    moreover have "outside (buf s) (nd(p := None)) = outside (buf s) nd"
      using True unfolding outside_def rn by auto
    ultimately show ?thesis using own by (auto simp: pa_deallocate_def)
  next
    case False
    then have ao: "a \<in> outside (buf s) nd" using ar by (simp add: outside_def)
    then have "a \<notin> arena_bytes buf" "a \<in> used h" using away out by auto
    then have "\<not> ar_owns a ar" and del: "used (rt_delete rt a h) = used h - {a}"
      using hc by (auto simp: arena_owns_bytes [OF fs(1)] arena_bytes_def heap_contract_def)
    moreover have "side_nodes (buf s) (ks - {p}) ar (nd(p := None))"
      unfolding side_nodes_def rn dm using inj fs False by (intro conjI exI [of _ fs]) auto
    moreover have "outside (buf s) (nd(p := None)) = outside (buf s) nd - {a}"
      unfolding outside_def rn by auto
    ultimately show ?thesis using ao by (auto simp: pa_deallocate_def)
  qed
qed

section \<open>The book\<close>

text \<open>
  The live blocks are the ones there were before the book (\<open>base\<close>) and the nodes outside the
  arenas, each of which belongs to one level of one side.
\<close>

definition keys_ok :: "(Side \<Rightarrow> nat) \<Rightarrow> (Side \<Rightarrow> Price set) \<Rightarrow> 'h node_store \<Rightarrow> bool" where
  "keys_ok buf ks t \<longleftrightarrow> (\<forall>s. side_nodes (buf s) (ks s) (ns_arena t s) (ns_node t s))"

definition blocks_ok :: "('h \<Rightarrow> nat set) \<Rightarrow> nat set \<Rightarrow> (Side \<Rightarrow> nat) \<Rightarrow> 'h node_store \<Rightarrow> bool" where
  "blocks_ok used base buf t \<longleftrightarrow>
     used (ns_heap t) = base \<union> outside (buf Buy) (ns_node t Buy) \<union> outside (buf Sell) (ns_node t Sell) \<and>
     outside (buf Buy) (ns_node t Buy) \<inter> outside (buf Sell) (ns_node t Sell) = {} \<and>
     outside (buf Buy) (ns_node t Buy) \<inter> (base \<union> arena_bytes buf) = {} \<and>
     outside (buf Sell) (ns_node t Sell) \<inter> (base \<union> arena_bytes buf) = {}"

definition store_ok :: "'h runtime \<Rightarrow> ('h \<Rightarrow> nat set) \<Rightarrow> nat set \<Rightarrow> (Side \<Rightarrow> nat) \<Rightarrow> (Side \<Rightarrow> Price set) \<Rightarrow>
    'h node_store \<Rightarrow> bool" where
  "store_ok rt used base buf ks t \<longleftrightarrow> heap_contract rt used buf \<and> keys_ok buf ks t \<and> blocks_ok used base buf t"

lemma outside_live: "blocks_ok used base buf t \<Longrightarrow> outside (buf s) (ns_node t s) \<subseteq> used (ns_heap t)"
  by (cases s) (auto simp: blocks_ok_def)

lemma emplace_node_ok:
  assumes ok: "store_ok rt used base buf ks t" and p: "p \<notin> ks s"
  shows "\<exists>t'. emplace_node rt s p t = Some t' \<and> store_ok rt used base buf (ks(s := insert p (ks s))) t'"
proof -
  have hc: "heap_contract rt used buf" and keys: "keys_ok buf ks t" and bl: "blocks_ok used base buf t"
    using ok by (simp_all add: store_ok_def)
  have side: "side_nodes (buf s) (ks s) (ns_arena t s) (ns_node t s)" using keys by (simp add: keys_ok_def)
  from side_nodes_emplace [OF side p hc outside_live [OF bl]] obtain a ar h where
    pa: "pa_allocate (rt_new rt) (rt_node_size rt) 1 (ns_arena t s, ns_heap t) = Some (a, ar, h)"
    and side': "side_nodes (buf s) (insert p (ks s)) ar ((ns_node t s)(p := Some a))"
    and heap: "h = ns_heap t \<and> outside (buf s) ((ns_node t s)(p := Some a)) = outside (buf s) (ns_node t s) \<or>
      a \<notin> used (ns_heap t) \<and> a \<notin> arena_bytes buf \<and> used h = insert a (used (ns_heap t)) \<and>
      outside (buf s) ((ns_node t s)(p := Some a)) = insert a (outside (buf s) (ns_node t s))" by blast
  let ?t = "\<lparr>ns_arena = (ns_arena t)(s := ar), ns_node = (ns_node t)(s := (ns_node t s)(p := Some a)), ns_heap = h\<rparr>"
  have "keys_ok buf (ks(s := insert p (ks s))) ?t" using keys side' by (simp add: keys_ok_def)
  moreover have "blocks_ok used base buf ?t"
    using bl heap by (cases s) (auto simp: blocks_ok_def)
  ultimately show ?thesis using hc pa by (simp add: emplace_node_def store_ok_def)
qed

lemma erase_node_ok:
  assumes ok: "store_ok rt used base buf ks t"
  shows "store_ok rt used base buf (ks(s := ks s - {p})) (erase_node rt s p t)"
proof -
  have hc: "heap_contract rt used buf" and keys: "keys_ok buf ks t" and bl: "blocks_ok used base buf t"
    using ok by (simp_all add: store_ok_def)
  have side: "side_nodes (buf s) (ks s) (ns_arena t s) (ns_node t s)" using keys by (simp add: keys_ok_def)
  show ?thesis
  proof (cases "ns_node t s p")
    case None
    then have "p \<notin> ks s" using side by (auto simp: side_nodes_def)
    then have "ks(s := ks s - {p}) = ks" by auto
    with ok None show ?thesis by (simp add: erase_node_def)
  next
    case (Some a)
    have "outside (buf s) (ns_node t s) \<inter> arena_bytes buf = {}" using bl by (cases s) (auto simp: blocks_ok_def)
    from side_nodes_erase [OF side Some hc outside_live [OF bl] this] obtain ar h where
      pa: "pa_deallocate (rt_delete rt) a (ns_arena t s, ns_heap t) = (ar, h)"
      and side': "side_nodes (buf s) (ks s - {p}) ar ((ns_node t s)(p := None))"
      and heap: "h = ns_heap t \<and> outside (buf s) ((ns_node t s)(p := None)) = outside (buf s) (ns_node t s) \<or>
        a \<in> outside (buf s) (ns_node t s) \<and> used h = used (ns_heap t) - {a} \<and>
        outside (buf s) ((ns_node t s)(p := None)) = outside (buf s) (ns_node t s) - {a}" by blast
    let ?t = "\<lparr>ns_arena = (ns_arena t)(s := ar), ns_node = (ns_node t)(s := (ns_node t s)(p := None)), ns_heap = h\<rparr>"
    have "keys_ok buf (ks(s := ks s - {p})) ?t" using keys side' by (simp add: keys_ok_def)
    moreover have "blocks_ok used base buf ?t" using bl heap by (cases s) (auto simp: blocks_ok_def)
    ultimately show ?thesis using hc pa Some by (simp add: erase_node_def store_ok_def)
  qed
qed

section \<open>The operations\<close>

definition book_kept :: "'h runtime \<Rightarrow> ('h \<Rightarrow> nat set) \<Rightarrow> nat set \<Rightarrow> (Side \<Rightarrow> nat) \<Rightarrow> OrderBook \<Rightarrow>
    'h node_store \<Rightarrow> bool" where
  "book_kept rt used base buf b t \<longleftrightarrow> (\<forall>s. sorted_wrt (side_cmp s) (keys_of (book_side s b))) \<and>
     store_ok rt used base buf (\<lambda>s. set (keys_of (book_side s b))) t"

lemma book_kept_cong:
  "book_kept rt used base buf b t \<Longrightarrow> (\<And>s. keys_of (book_side s b') = keys_of (book_side s b)) \<Longrightarrow>
     book_kept rt used base buf b' t"
  by (simp add: book_kept_def)

lemma book_kept_new:
  assumes "heap_contract rt used buf" and "k \<le> 8"
  shows "book_kept rt used (used h) buf OrderBook_new (node_store_new (2 ^ k) buf h)"
proof -
  have "book_side s OrderBook_new = []" for s by (cases s) (simp_all add: OrderBook_new_def)
  moreover have "side_nodes (buf s) {} (book_arena (2 ^ k) (buf s)) (\<lambda>_. None)" for s
    using book_arena_holds [OF assms(2), of "buf s"] slot_addrs_distinct [of 256 "buf s" 512]
    by (auto simp: side_nodes_def)
  moreover have "outside (buf s) (\<lambda>_. None) = {}" for s by (simp add: outside_def)
  ultimately show ?thesis
    using assms(1) by (simp add: book_kept_def store_ok_def keys_ok_def blocks_ok_def node_store_new_def)
qed

lemma book_kept_remove:
  assumes kept: "book_kept rt used base buf b t"
  shows "\<exists>t'. check_remove_level_mem rt lvl s (b, t) = (check_remove_level lvl s b, t') \<and>
    book_kept rt used base buf (check_remove_level lvl s b) t'"
proof (cases "il_empty (lvl_orders lvl)")
  case False
  with kept show ?thesis by (simp add: check_remove_level_mem_def check_remove_level_def)
next
  case True
  let ?p = "lvl_price lvl" and ?ks = "\<lambda>s. set (keys_of (book_side s b))"
  let ?b = "set_book_side s (map_erase ?p (book_side s b)) b"
  have b': "check_remove_level lvl s b = ?b" using True by (simp add: check_remove_level_def)
  have srt: "sorted_wrt (side_cmp s') (keys_of (book_side s' b))" for s'
    using kept by (simp add: book_kept_def)
  have dst: "distinct (keys_of (book_side s b))" using side_order.sorted_distinct [OF srt] .
  have "(\<lambda>s'. set (keys_of (book_side s' ?b))) = ?ks(s := ?ks s - {?p})"
    using keys_erase [OF dst, of ?p] dst by (auto simp: fun_eq_iff)
  moreover have "store_ok rt used base buf (?ks(s := ?ks s - {?p})) (erase_node rt s ?p t)"
    using kept by (intro erase_node_ok) (simp add: book_kept_def)
  ultimately have "book_kept rt used base buf ?b (erase_node rt s ?p t)"
    using srt side_order.sorted_erase [OF srt [of s], of ?p] by (simp add: book_kept_def)
  with True b' show ?thesis by (simp add: check_remove_level_mem_def)
qed

interpretation lifetime: level_keeper rt "book_kept rt used base buf" for rt used base buf
  by unfold_locales (blast intro: book_kept_cong book_kept_remove)+

lemma book_kept_insert:
  assumes run: "insert_order a (b, m) = Some (b', m')" and kept: "book_kept rt used base buf b t"
  shows "\<exists>t'. insert_order_mem rt a ((b, m), t) = Some ((b', m'), t') \<and> book_kept rt used base buf b' t'"
proof -
  let ?s = "on_side (m a)" and ?p = "on_price (m a)"
  note keys = insert_order_keys [OF run]
  show ?thesis
  proof (cases "map_find ?p (book_side ?s b)")
    case (Some lvl)
    then have "keys_of (book_side s b') = keys_of (book_side s b)" for s by (simp add: keys)
    with Some run book_kept_cong [OF kept] show ?thesis by (simp add: insert_order_mem_def)
  next
    case None
    let ?lm = "map_emplace (side_cmp ?s) ?p (PriceLevel_of ?p) (book_side ?s b)"
    let ?ks = "\<lambda>s. set (keys_of (book_side s b))"
    have ok: "store_ok rt used base buf ?ks t" and srt: "sorted_wrt (side_cmp s) (keys_of (book_side s b))" for s
      using kept by (simp_all add: book_kept_def)
    have p: "?p \<notin> ?ks ?s" using None by (simp add: map_find_None_iff)
    have "(\<lambda>s. set (keys_of (book_side s b'))) = ?ks(?s := insert ?p (?ks ?s))"
      using None by (auto simp: keys side_order.keys_emplace fun_eq_iff)
    moreover have "sorted_wrt (side_cmp s) (keys_of (book_side s b'))" for s
      using None srt side_order.sorted_emplace [OF srt] by (simp add: keys)
    moreover obtain t' where "emplace_node rt ?s ?p t = Some t'"
      "store_ok rt used base buf (?ks(?s := insert ?p (?ks ?s))) t'"
      using emplace_node_ok [OF ok p] by blast
    ultimately show ?thesis using None run by (simp add: insert_order_mem_def book_kept_def)
  qed
qed

lemma book_kept_process:
  assumes run: "process_limit_order a (b, m) = Some (ts, b', m')" and kept: "book_kept rt used base buf b t"
  shows "\<exists>t'. process_limit_order_mem rt a ((b, m), t) = Some (ts, (b', m'), t') \<and> book_kept rt used base buf b' t'"
proof (rule lifetime.process_kept [OF run kept])
  fix b1 m1 t1
  assume kept1: "book_kept rt used base buf b1 t1"
    and rest: "if on_qty (m1 a) > 0 then insert_order a (b1, m1) = Some (b', m') else b' = b1 \<and> m' = m1"
    and mem: "process_limit_order_mem rt a ((b, m), t) = (if on_qty (m1 a) > 0
      then map_option (\<lambda>st. (ts, st)) (insert_order_mem rt a ((b1, m1), t1)) else Some (ts, (b1, m1), t1))"
  show ?thesis
  proof (cases "on_qty (m1 a) > 0")
    case True
    with rest have "insert_order a (b1, m1) = Some (b', m')" by simp
    from book_kept_insert [OF this kept1] mem True show ?thesis by auto
  next
    case False
    with rest mem kept1 show ?thesis by auto
  qed
qed

lemma destroy_side_ok:
  "store_ok rt used base buf ks t \<Longrightarrow>
     store_ok rt used base buf (ks(s := ks s - set ps)) (fold (erase_node rt s) ps t)"
proof (induction ps arbitrary: ks t)
  case (Cons p ps)
  have "(ks(s := ks s - {p}))(s := (ks(s := ks s - {p})) s - set ps) = ks(s := ks s - set (p # ps))"
    by (auto simp: fun_eq_iff)
  with Cons.IH [OF erase_node_ok [OF Cons.prems, of s p]] show ?case by (simp only: fold_simps)
qed simp

lemma book_destroy_blocks:
  assumes kept: "book_kept rt used base buf b t"
  shows "used (ns_heap (book_destroy rt b t)) = base"
proof -
  let ?ks = "\<lambda>s. set (keys_of (book_side s b))"
  have "store_ok rt used base buf ?ks t" using kept by (simp add: book_kept_def)
  from destroy_side_ok [OF this, of Sell "keys_of (book_side Sell b)"]
  have "store_ok rt used base buf (?ks(Sell := {})) (destroy_side rt Sell b t)"
    unfolding destroy_side_def by (simp only: Diff_cancel)
  from destroy_side_ok [OF this, of Buy "keys_of (book_side Buy b)"]
  have "store_ok rt used base buf (?ks(Sell := {}, Buy := {})) (book_destroy rt b t)"
    unfolding book_destroy_def destroy_side_def [of _ Buy] by simp
  then have keys: "keys_ok buf (?ks(Sell := {}, Buy := {})) (book_destroy rt b t)"
    and bl: "blocks_ok used base buf (book_destroy rt b t)" by (simp_all add: store_ok_def)
  have "dom (ns_node (book_destroy rt b t) s) = {}" for s
    using keys by (cases s) (simp_all add: keys_ok_def side_nodes_def)
  then have "outside (buf s) (ns_node (book_destroy rt b t) s) = {}" for s by (simp add: outside_def)
  with bl show ?thesis by (simp add: blocks_ok_def)
qed

lemma stored_reach_kept:
  assumes hc: "heap_contract rt used buf"
  shows "stored_reach fits rt buf h x \<Longrightarrow> engine_reach (fst x) \<and>
    book_kept rt used (used h) buf (fst (fst x)) (snd x)"
proof (induction rule: stored_reach.induct)
  case (start k m)
  with book_kept_new [OF hc start] show ?case by (simp add: engine_reach.start)
next
  case (submit b m t a i p q s ts b' m' t')
  then have inv: "engine_reach (b, m)" "book_kept rt used (used h) buf b t" by simp_all
  obtain ts2 b2 m2 where run: "process_limit_order a (b, m(a := OrderNode_of i p q s)) = Some (ts2, b2, m2)"
    and reach: "engine_reach (b2, m2)" by (rule reach_submit [OF inv(1) submit.hyps(2)])
  from book_kept_process [OF run inv(2)] submit.hyps(3) reach show ?case by auto
next
  case (cancel b m t a)
  then have inv: "engine_reach (b, m)" "book_kept rt used (used h) buf b t" by simp_all
  from engine_reach.step [OF inv(1) engine_step.cancel [OF cancel.hyps(2)]]
    lifetime.cancel_kept [OF inv(2), of a m] show ?case by (auto simp: engine_cancel_order_def)
next
  case (reduce b m t a q)
  then have inv: "engine_reach (b, m)" "book_kept rt used (used h) buf b t" by simp_all
  from engine_reach.step [OF inv(1) engine_step.reduce [OF reduce.hyps(2)]]
    book_kept_cong [OF inv(2) reduce_order_keys, of a q m] show ?case by auto
qed

section \<open>Properties\<close>

text \<open>
  (C23) The book's memory is safe for any number of levels: in every reachable state each level
  has a node of its own, in a slot of the side's arena or in a block of the global heap that was
  not live before, every submission returns what the engine without allocators returns, and
  destroying the book leaves exactly the blocks live that were live when it was built.
\<close>

theorem book_never_leaks:
  assumes "heap_contract rt used buf" and "stored_reach fits rt buf h ((b, m), t)"
  shows "used (ns_heap (book_destroy rt b t)) = used h \<and>
    (\<forall>s. inj_on (ns_node t s) (set (keys_of (book_side s b))) \<and>
       (\<forall>p \<in> set (keys_of (book_side s b)). \<exists>x. ns_node t s p = Some x \<and>
          (x \<in> set (slot_addrs (buf s) 256 512) \<or> x \<in> used (ns_heap t) - used h))) \<and>
    (\<not> resting_in (b, m) a \<longrightarrow> (\<exists>r t'. process_limit_order a (b, m(a := OrderNode_of i p q s)) = Some r \<and>
       process_limit_order_mem rt a ((b, m(a := OrderNode_of i p q s)), t) = Some (fst r, snd r, t')))"
proof -
  have reach: "engine_reach (b, m)" and kept: "book_kept rt used (used h) buf b t"
    using stored_reach_kept [OF assms] by simp_all
  have keys: "keys_ok buf (\<lambda>s. set (keys_of (book_side s b))) t" and bl: "blocks_ok used (used h) buf t"
    using kept by (simp_all add: book_kept_def store_ok_def)
  have "inj_on (ns_node t s) (set (keys_of (book_side s b))) \<and>
       (\<forall>p \<in> set (keys_of (book_side s b)). \<exists>x. ns_node t s p = Some x \<and>
          (x \<in> set (slot_addrs (buf s) 256 512) \<or> x \<in> used (ns_heap t) - used h))" for s
  proof -
    have d: "dom (ns_node t s) = set (keys_of (book_side s b))" "inj_on (ns_node t s) (set (keys_of (book_side s b)))"
      using keys by (auto simp: keys_ok_def side_nodes_def)
    have "outside (buf s) (ns_node t s) \<subseteq> used (ns_heap t) - used h"
      using bl by (cases s) (auto simp: blocks_ok_def)
    then have "x \<in> set (slot_addrs (buf s) 256 512) \<or> x \<in> used (ns_heap t) - used h"
      if "ns_node t s p = Some x" for p x
      using that by (auto simp: outside_def ran_def)
    with d show ?thesis by blast
  qed
  moreover have "\<exists>r t'. process_limit_order a (b, m(a := OrderNode_of i p q s)) = Some r \<and>
       process_limit_order_mem rt a ((b, m(a := OrderNode_of i p q s)), t) = Some (fst r, snd r, t')"
    if fresh: "\<not> resting_in (b, m) a"
  proof -
    obtain ts b' m' where run: "process_limit_order a (b, m(a := OrderNode_of i p q s)) = Some (ts, b', m')"
      by (rule reach_submit [OF reach fresh])
    from book_kept_process [OF run kept] run show ?thesis by auto
  qed
  ultimately show ?thesis using book_destroy_blocks [OF kept] by blast
qed

text \<open>A heap that hands out addresses above all live blocks, as a list of the live blocks.\<close>

definition bump_runtime :: "nat list runtime" where
  "bump_runtime = \<lparr>rt_new = (\<lambda>_ hs. let a = Suc (1000000 + sum_list hs) in (a, a # hs)),
     rt_delete = (\<lambda>a. filter (\<lambda>x. x \<noteq> a)), rt_node_size = 72\<rparr>"

lemma bump_runtime_contract: "heap_contract bump_runtime set (\<lambda>_. 4096)"
proof -
  have "Suc (1000000 + sum_list hs) \<notin> set hs" for hs
    using member_le_sum_list [of "Suc (1000000 + sum_list hs)" hs] by auto
  then show ?thesis by (auto simp: heap_contract_def bump_runtime_def arena_bytes_def Let_def)
qed

theorem book_never_leaks_witness:
  "\<exists>ts b m t. process_limit_order_mem bump_runtime 0 ((OrderBook_new, quiet_mem(0 := OrderNode_of 1 100 10 Buy)),
       node_store_new (2 ^ 4) (\<lambda>_. 4096) []) = Some (ts, (b, m), t) \<and>
     set (ns_heap (book_destroy bump_runtime b t)) = {}"
proof -
  have four: "4 \<le> (8 :: nat)" by simp
  note start = stored_reach.start [OF four, where fits = "\<lambda>_. True" and rt = bump_runtime
      and buf = "\<lambda>_. 4096" and h = "[]" and m = quiet_mem]
  obtain ts b m t where run: "process_limit_order_mem bump_runtime 0
      ((OrderBook_new, quiet_mem(0 := OrderNode_of 1 100 10 Buy)), node_store_new (2 ^ 4) (\<lambda>_. 4096) []) =
        Some (ts, (b, m), t)"
    using book_never_leaks [OF bump_runtime_contract start, of 0 1 100 10 Buy] resting_in_new
    by (metis surj_pair)
  from book_never_leaks [OF bump_runtime_contract stored_reach.submit [OF start resting_in_new run TrueI]] run
  show ?thesis by (simp only: list.set) blast
qed

end
