(* ===== verification/Repo_Tests.thy ===== *)
theory Repo_Tests
  imports Engine_Properties Risk_Engine Portfolio Signal_Engine Rolling_Stats SPSC_Queue
    Mmap_WAL
begin

text \<open>
  The assertions of the repository's own unit tests (\<^verbatim>\<open>src/tests\<close>), evaluated on the model: each
  lemma is one test case, with the same inputs and the same expected values. They check the
  definitions against what their authors expect; the properties hold for all inputs.
\<close>

section \<open>\<^verbatim>\<open>test_matching_rules.cpp\<close>\<close>

definition test_mem :: mem where "test_mem = (\<lambda>_. OrderNode_of 0 0 0 Buy)"

fun submitted :: "ticket list \<Rightarrow> OrderBook \<times> mem \<Rightarrow> (Trade list list \<times> OrderBook \<times> mem) option" where
  "submitted [] st = Some ([], st)"
| "submitted ((a, i, p, q, s) # ts) (b, m) =
     (case process_limit_order a (b, m(a := OrderNode_of i p q s)) of
        None \<Rightarrow> None
      | Some (trades, st') \<Rightarrow> map_option (\<lambda>(out, st). (sv_contents trades # out, st)) (submitted ts st'))"

definition after_submitting :: "ticket list \<Rightarrow> (Trade list list \<Rightarrow> OrderBook \<Rightarrow> bool) \<Rightarrow> bool" where
  "after_submitting ts P = (case submitted ts (OrderBook_new, test_mem) of
     None \<Rightarrow> False | Some (out, b, _) \<Rightarrow> P out b)"

lemma test_exact_match:
  "after_submitting [(0, 1, 100, 10, Sell), (1, 2, 100, 10, Buy)] (\<lambda>out b.
     out = [[], [\<lparr>maker_order_id = 1, taker_order_id = 2, trade_price = 100, trade_qty = 10\<rparr>]] \<and>
     get_best_bid b = None \<and> get_best_ask b = None)"
  by code_simp

lemma test_partial_fill:
  "after_submitting [(0, 1, 100, 20, Sell), (1, 2, 100, 15, Buy)] (\<lambda>out b.
     map (map trade_qty) out = [[], [15]] \<and> map_option total_volume (get_best_ask b) = Some 5)"
  by code_simp

lemma test_time_priority:
  "after_submitting [(0, 1, 100, 10, Sell), (1, 2, 100, 10, Sell), (2, 3, 100, 5, Buy)] (\<lambda>out b.
     map (map maker_order_id) out = [[], [], [1]] \<and> map_option total_volume (get_best_ask b) = Some 15)"
  by code_simp

section \<open>\<^verbatim>\<open>test_order_book.cpp\<close>\<close>

fun inserted :: "ticket list \<Rightarrow> OrderBook \<times> mem \<Rightarrow> (OrderBook \<times> mem) option" where
  "inserted [] st = Some st"
| "inserted ((a, i, p, q, s) # ts) (b, m) =
     Option.bind (insert_order a (b, m(a := OrderNode_of i p q s))) (inserted ts)"

definition after_inserting :: "ticket list \<Rightarrow> (OrderBook \<times> mem \<Rightarrow> bool) \<Rightarrow> bool" where
  "after_inserting ts P = (case inserted ts (OrderBook_new, test_mem) of None \<Rightarrow> False | Some st \<Rightarrow> P st)"

lemma test_insert_and_best:
  "after_inserting [(0, 1, 100, 10, Buy), (1, 2, 101, 20, Buy), (2, 3, 102, 15, Sell)] (\<lambda>(b, m).
     map_option (\<lambda>l. (lvl_price l, total_volume l)) (get_best_bid b) = Some (101, 20) \<and>
     map_option (\<lambda>l. (lvl_price l, total_volume l)) (get_best_ask b) = Some (102, 15))"
  by code_simp

lemma test_cancel_order:
  "after_inserting [(0, 1, 100, 10, Buy)] (\<lambda>st. get_best_bid (fst st) \<noteq> None \<and>
     get_best_bid (fst (cancel_order 0 st)) = None)"
  by code_simp

lemma test_reduce_order:
  "after_inserting [(0, 1, 100, 10, Buy)] (\<lambda>st. case reduce_order 0 4 st of (b, m) \<Rightarrow>
     map_option total_volume (get_best_bid b) = Some 4 \<and> on_qty (m 0) = 4)"
  by code_simp

section \<open>\<^verbatim>\<open>test_risk_engine.cpp\<close>\<close>

definition test_limits :: risk_state where
  "test_limits = RiskEngine_new global_kill_switch_initial \<lparr>max_order_qty = 1000, max_notional = 100000, max_price_deviation_pct = 5\<rparr>"

lemma test_risk_checks:
  "check_order 100 50 Buy 100 test_limits = NoReject"
  "check_order 100 1001 Buy 100 test_limits = MaxOrderQtyExceeded"
  "check_order 101 1000 Buy 100 test_limits = MaxNotionalExceeded"
  "check_order 106 10 Buy 100 test_limits = PriceCollarExceeded"
  "check_order 105 10 Buy 100 test_limits = NoReject"
  "check_order 94 10 Sell 100 test_limits = PriceCollarExceeded"
  "check_order 95 10 Sell 100 test_limits = NoReject"
  by code_simp+

lemma test_kill_switch:
  "is_kill_switch_active (trip_kill_switch test_limits)"
  "check_order 100 50 Buy 100 (trip_kill_switch test_limits) = KillSwitchActive"
  "check_order 100 50 Buy 100 (reset_kill_switch (trip_kill_switch test_limits)) = NoReject"
  by code_simp+

section \<open>\<^verbatim>\<open>test_spsc_queue.cpp\<close>\<close>

text \<open>The results of a sequence of pushes (\<open>Some\<close>) and pops (\<open>None\<close>) on one thread.\<close>

fun queue_session :: "int option list \<Rightarrow> int spsc \<Rightarrow> (bool \<times> int option) list option" where
  "queue_session [] q = Some []"
| "queue_session (Some x # ops) q = (case sq_push x q of None \<Rightarrow> None
     | Some (ok, q') \<Rightarrow> map_option (\<lambda>rs. (ok, None) # rs) (queue_session ops q'))"
| "queue_session (None # ops) q = (case sq_pop q of None \<Rightarrow> None
     | Some (r, q') \<Rightarrow> map_option (\<lambda>rs. (r \<noteq> None, r) # rs) (queue_session ops q'))"

lemma test_basic_push_pop:
  "Option.bind (sq_new 0 8) (queue_session [None, Some 42, None, None]) =
     Some [(False, None), (True, None), (True, Some 42), (False, None)]"
  by code_simp

lemma test_queue_full:
  "Option.bind (sq_new 0 4) (queue_session [Some 1, Some 2, Some 3, Some 4, None, Some 4, Some 5]) =
     Some [(True, None), (True, None), (True, None), (False, None), (True, Some 1), (True, None), (False, None)]"
  by code_simp

section \<open>\<^verbatim>\<open>test_oms_state_machine.cpp\<close>\<close>

text \<open>At a whole price no average has to be rounded; in a flat portfolio the realized profit is the cash.\<close>

lemma whole_run:
  assumes "whole_averages 0 0 fs" and "\<forall>f \<in> set fs. fill_price f \<le> 1000" and "fill_volume fs < 2 ^ 40"
  shows "\<exists>p. portfolio_run fs portfolio_new = Some p \<and> pf_net_position p = ledger_net fs \<and>
    (ledger_net fs = 0 \<longrightarrow> pf_realized_pnl p = ledger_cash fs)"
proof -
  have "pf_ledger 1000 0 0 (0 + 0 * 0) portfolio_new" by (simp add: pf_ledger_def portfolio_new_def)
  from portfolio_run_whole [OF this, of 0 fs] assms show ?thesis by (auto simp: pf_ledger_def)
qed

lemma test_net_position_updates:
  "\<exists>p. portfolio_run [(Buy, 100, 10)] portfolio_new = Some p \<and> pf_net_position p = 10"
  "\<exists>p. portfolio_run [(Buy, 100, 10), (Buy, 100, 5)] portfolio_new = Some p \<and> pf_net_position p = 15"
  "\<exists>p. portfolio_run [(Buy, 100, 10), (Buy, 100, 5), (Sell, 100, 15)] portfolio_new = Some p \<and>
     pf_net_position p = 0"
  "\<exists>p. portfolio_run [(Buy, 100, 10), (Buy, 100, 5), (Sell, 100, 15), (Sell, 100, 20)] portfolio_new = Some p \<and>
     pf_net_position p = - 20"
  using whole_run [of "[(Buy, 100, 10)]"] whole_run [of "[(Buy, 100, 10), (Buy, 100, 5)]"]
    whole_run [of "[(Buy, 100, 10), (Buy, 100, 5), (Sell, 100, 15)]"]
    whole_run [of "[(Buy, 100, 10), (Buy, 100, 5), (Sell, 100, 15), (Sell, 100, 20)]"]
  by (auto simp: next_average_def)

lemma test_realized_pnl:
  "\<exists>p. portfolio_run [(Buy, 100, 10), (Sell, 110, 5), (Sell, 90, 5)] portfolio_new = Some p \<and>
     pf_net_position p = 0 \<and> pf_realized_pnl p = 0"
  "\<exists>p. portfolio_run [(Buy, 100, 10), (Sell, 110, 5), (Sell, 90, 5), (Sell, 100, 10), (Buy, 90, 10)]
     portfolio_new = Some p \<and> pf_net_position p = 0 \<and> pf_realized_pnl p = 100"
  using whole_run [of "[(Buy, 100, 10), (Sell, 110, 5), (Sell, 90, 5)]"]
    whole_run [of "[(Buy, 100, 10), (Sell, 110, 5), (Sell, 90, 5), (Sell, 100, 10), (Buy, 90, 10)]"]
  by (auto simp: next_average_def)

section \<open>\<^verbatim>\<open>test_quant_signals.cpp\<close>\<close>

abbreviation book_state :: "Price \<Rightarrow> Quantity \<Rightarrow> Price \<Rightarrow> Quantity \<Rightarrow> BookState" where
  "book_state p q p' q' \<equiv>
     \<lparr>bs_best_bid = p, bs_bid_volume = q, bs_best_ask = p', bs_ask_volume = q'\<rparr>"

lemma test_micro_price_calculation:
  "f64_val (calculate_micro_price (book_state 100 10 110 10)) = Some 105"
  "f64_val (calculate_micro_price (book_state 100 90 110 10)) = Some 109"
  using micro_price_small [of "book_state 100 10 110 10" 110] round64_int [of 105]
    micro_price_small [of "book_state 100 90 110 10" 110] round64_int [of 109]
  by (simp_all add: micro_exact_def)

lemma test_order_flow_imbalance:
  "\<exists>x y z. ofi_run [book_state 100 10 110 10, book_state 100 15 110 10, book_state 99 20 110 10,
     book_state 99 20 109 5] signal_engine_new = [0, x, y, z] \<and>
     f64_int x 5 \<and> f64_int y (- 15) \<and> f64_int z (- 5)"
proof -
  let ?e = "signal_engine_new\<lparr>se_prev_state := book_state 100 10 110 10, se_has_prev := True\<rparr>"
  have "update_and_get_ofi (book_state 100 10 110 10) signal_engine_new = (0, ?e)"
    by (simp add: update_and_get_ofi_def signal_engine_new_def)
  with ofi_run_exact [of ?e "[book_state 100 15 110 10, book_state 99 20 110 10, book_state 99 20 109 5]"]
  show ?thesis by (fastforce simp: quiet_def ofi_exact_def list_all2_Cons2)
qed

lemma test_variance_and_mean:
  "\<exists>r. rs_run f64_of_u64 (map Fin [10, 20, 30, 40]) (rs_new 3) = Some r \<and>
     f64_val (rs_mean r) = Some 30 \<and> f64_val (rs_m2 r) = Some 200 \<and> rs_is_ready r"
proof -
  have zeros: "replicate 3 (0 :: rat) = [0, 0, 0]" by code_simp
  then have "no_rounding [10, 20, 30, 40] (rs_new 3)"
    by (simp add: rs_new_def rs_add_def rs_intermediates_def Let_def u64_rat_def)
  moreover obtain q where "rs_run u64_rat [10, 20, 30, 40] (rs_new 3) = Some q" "rs_mean q = 30"
    "rs_m2 q = 200" "rs_count q = 3" "rs_window_size q = 3"
    using zeros by (simp add: rs_new_def rs_add_def Let_def u64_rat_def)
  moreover have "rs_denotes (rs_new 3) (rs_new 3)"
    by (simp add: rs_denotes_def rs_new_def list_all2_conv_all_nth)
  ultimately show ?thesis
    using rs_run_denotes [of "rs_new 3" "rs_new 3" "[10, 20, 30, 40]" q]
    by (auto simp: rs_denotes_def rs_is_ready_def rs_new_def)
qed

section \<open>\<^verbatim>\<open>test_wal_recovery.cpp\<close>\<close>

lemma test_open_and_close:
  "\<exists>w bs. wal_open os_ok (wal_new 1048576, None) = (True, w, Some bs) \<and>
     \<not> wal_mapped (wal_close w) \<and> length bs = 1048576"
  by (simp add: wal_open_def os_ok_def wal_new_def wal_close_def)

lemma test_append_and_recover:
  "\<exists>w0 f0 w f w2 bs. wal_open os_ok (wal_new 1048576, None) = (True, w0, f0) \<and>
     append_orders [msg1, msg2] (w0, f0) = ([True, True], w, f) \<and>
     wal_open os_ok (wal_new 1048576, f) = (True, w2, Some bs) \<and>
     read_orders 2 bs = Some [msg1, msg2]"
proof -
  obtain ok w0 f0 where o: "wal_open os_ok (wal_new 1048576, None) = (ok, w0, f0)" by (metis surj_pair)
  note h0 = wal_open_holds [OF o]
  obtain w f where run: "append_orders [msg1, msg2] (w0, f0) = ([True, True], w, f)"
    and h: "wal_holds [msg1, msg2] (w, f)"
    using append_orders_holds [of "[]" "(w0, f0)" "[msg1, msg2]"] h0 by (auto simp: NEW_ORDER_SIZE_def)
  obtain bs where bs: "f = Some bs" using h by (auto simp: wal_holds_def)
  obtain w2 where w2: "wal_open os_ok (wal_new 1048576, f) = (True, w2, Some (ftruncate 1048576 bs))"
    "wal_holds [msg1, msg2]
       (w2\<lparr>wal_write_offset := NEW_ORDER_SIZE * length [msg1, msg2]\<rparr>, Some (ftruncate 1048576 bs))"
    by (rule wal_reopen_holds [OF h bs, of 1048576]) (simp_all add: NEW_ORDER_SIZE_def)
  have "read_orders 2 (ftruncate 1048576 bs) = Some [msg1, msg2]"
    using wal_holds_read [OF w2(2)] by (metis option.inject length_Cons list.size(3) numeral_2_eq_2)
  with o h0 run w2(1) show ?thesis by auto
qed

end
