(* ===== verification/Spec2Isabelle.thy ===== *)
theory Spec2Isabelle
  imports Console Pool_Allocator Risk_Engine Tcp_Gateway Mmap_WAL Order_Tracker
    Average_Price Signal_Engine Std_Deviation Market_Maker Cpu_Affinity
    Gateway_Stream Book_Lifetime Repo_Tests
begin

text \<open>
  A verification library for the Nexus-HFT trading engine (C++20, \<^verbatim>\<open>src/src\<close> and
  \<^verbatim>\<open>src/include/nexus\<close>).

  \<^bold>\<open>The program.\<close> A matching engine keeps a price-time priority limit order book. The book
  (\<^verbatim>\<open>core/order_book.hpp\<close>, \<^verbatim>\<open>engine/order_book.cpp\<close>) holds two sorted maps from prices to
  levels; a level is an intrusive doubly linked list of orders with a cached total volume. The
  engine (\<^verbatim>\<open>engine/matching_engine.cpp\<close>) matches an incoming order against the opposite side,
  collects the trades in a small vector with sixteen inline slots, and rests what is left. The
  nodes come from a fixed pool with a free list inside its slots, the maps' tree nodes from a
  bump arena with a free list. \<^verbatim>\<open>src/main.cpp\<close> reads commands, line by line, allocates a node,
  runs the engine and prints trades, book and the latency measured with the processor's
  time-stamp counter. Beside it stand a pre-trade risk check, a
  lock-free single-producer single-consumer queue, a binary order protocol with a gateway that
  feeds the queue, a memory-mapped write-ahead log, the tracking of orders and of a portfolio,
  and the quantities a quoting strategy needs: micro price and order-flow imbalance, rolling
  statistics, and the quotes of the Avellaneda-Stoikov model.

  \<^bold>\<open>The theories.\<close>
  \<^item> \<open>Nexus_Prelude\<close>: lemma collections, facts on lists, options, maps and 64-bit words.
  \<^item> \<open>Core_Types\<close>: \<^verbatim>\<open>core/types.hpp\<close>, \<^verbatim>\<open>engine/trade.hpp\<close>. Prices, quantities and ids are
    64-bit words.
  \<^item> \<open>Intrusive_List\<close>: \<^verbatim>\<open>OrderNode\<close>, \<^verbatim>\<open>IntrusiveList\<close> (\<open>il_push_back\<close>, \<open>il_remove\<close>) on a heap
    from addresses to nodes, with both links; \<open>il_rel\<close> says that a header and the heap represent
    a list of addresses. The locale \<open>linked_fifo\<close> is the contract the level uses.
  \<^item> \<open>Std_Map\<close>: \<^verbatim>\<open>std::map\<close> as an association list sorted by a comparison (locale
    \<open>map_compare\<close>, interpreted for both sides of the book).
  \<^item> \<open>Order_Book\<close>: \<^verbatim>\<open>OrderBook::{insert,cancel,reduce}_order\<close>, \<open>check_remove_level\<close>,
    \<open>get_best_bid\<close>, \<open>get_best_ask\<close>; the representation relation \<open>book_rel\<close> and the locale
    \<open>order_index\<close>, a book as an index of orders by side and price.
  \<^item> \<open>Match_Spec\<close>: the abstract specification. A side is a list of queues of
    (address, id, quantity) sorted by price; \<open>spec_submit\<close> is price-time priority matching on
    natural numbers, with its conservation and priority lemmas.
  \<^item> \<open>Small_Vector\<close>: \<^verbatim>\<open>core/small_vector.hpp\<close>; locales \<open>append_buffer\<close>, \<open>spill_buffer\<close>.
  \<^item> \<open>Matching_Engine\<close>: \<^verbatim>\<open>process_limit_order\<close> with its two nested loops, and the refinement of
    \<open>spec_submit\<close>. The loops are \<open>partial_function (option)\<close>: \<open>None\<close> is a null dereference or a
    loop that does not return, and the lemmas prove \<open>Some\<close>.
  \<^item> \<open>Engine_System\<close>, \<open>Engine_Properties\<close>: the states reachable by submitting fresh orders,
    cancelling and reducing resting ones (\<open>engine_reach\<close>), and what holds in all of them.
  \<^item> \<open>Slot_Allocator\<close> (the contract of a pool, as a locale with the client's lemmas),
    \<open>Memory_Pool\<close> (\<^verbatim>\<open>core/memory_pool.hpp\<close>) and \<open>Pool_Allocator\<close> (\<^verbatim>\<open>core/pool_allocator.hpp\<close>)
    interpret it.
  \<^item> \<open>Book_Memory\<close>: the engine's operations once more, with the tree nodes that the price maps
    allocate in the two arenas of the book (\<open>store_rel\<close> ties nodes, free lists and levels). The
    locale \<open>level_keeper\<close> lifts a relation between levels and nodes through matching and cancelling;
    it is interpreted for \<open>store_rel\<close> and, in \<open>Book_Lifetime\<close>, for any number of levels on a
    heap that keeps the contract of \<^verbatim>\<open>operator new\<close>, up to the destruction of the book.
  \<^item> \<open>Exchange\<close>: the state of \<^verbatim>\<open>main\<close> (pool, engine, next id) and one command;
    \<open>Decimal_Text\<close>: decimal numbers as characters, written and read the way the streams do in
    the C locale; \<open>Command_Line\<close>: a line of characters to its replies, with the conversion of a
    decimal price to cents; \<open>Console\<close>: the replies as text and the loop of \<^verbatim>\<open>main\<close> from the
    characters of the input to the lines of the output; \<open>Time_Stamp\<close>: \<^verbatim>\<open>core/rdtsc.hpp\<close>.
  \<^item> \<open>SPSC_Queue\<close> (\<^verbatim>\<open>concurrency/spsc_queue.hpp\<close>, sequentially and as two threads whose every
    atomic access is a step) and \<open>SPSC_Release_Acquire\<close>: the same threads on a memory with the
    release and acquire orders of the source, where a load may return an old value and two
    unordered accesses to a slot are a data race. \<open>SPSC_Refinement\<close>: the abstract channel that the
    threads refine (a forward simulation), and the bound on their steps. \<open>Gateway_Stream\<close>: the
    session of the gateway and a receiver as the two threads of that queue. \<open>Cpu_Affinity\<close>: \<^verbatim>\<open>concurrency/cpu_affinity.cpp\<close>.
  \<^item> \<open>Risk_Engine\<close> (\<^verbatim>\<open>risk/\<close>), \<open>Binary_Protocol\<close>, \<open>Tcp_Gateway\<close> (\<^verbatim>\<open>network/\<close>), \<open>Mmap_WAL\<close>
    (\<^verbatim>\<open>persistence/\<close>), \<open>Order_Tracker\<close>, \<open>Portfolio\<close> (\<^verbatim>\<open>oms/\<close>), \<open>Average_Price\<close> (the accuracy
    of the portfolio's average price).
  \<^item> \<open>Float64\<close>: IEEE binary64 with the rounding to nearest, ties to even, as an executable
    function on rationals (\<open>rnd\<close>): not-a-number, infinities, the negative zero, subnormal
    numbers, the conversions from and to 64-bit integers (\<open>None\<close> where C++ leaves them undefined).
    The instances of \<open>plus\<close>, \<open>times\<close>, \<open>ord\<close> and so on let the models read like the source. Its
    lemmas are the ones of numerical analysis: monotone rounding, half an ulp of error,
    exactness on integers below \<open>2 ^ 53\<close>, relative errors (\<open>near\<close>, \<open>approx\<close>).
    \<open>Float64_Sqrt\<close>: the correctly rounded square root.
  \<^item> \<open>Signal_Engine\<close>, \<open>Rolling_Stats\<close>, \<open>Std_Deviation\<close>, \<open>Market_Maker\<close>: \<^verbatim>\<open>quant/\<close> over
    \<open>Float64\<close>.
  \<^item> \<open>Repo_Tests\<close>: the assertions of the repository's unit tests, proved of the model.

  \<^bold>\<open>What is shown.\<close>
  \<^item> Matching: the engine returns and computes exactly the specification (C1, C5); the book is
    never crossed (C2), its levels are consistent (C9); price-time priority (C3),
    limits (C40), conservation of quantity without wrap-around (C6); cancel (C37).
  \<^item> The command loop: no command makes it fail (C4), quantities are conserved over a session
    (C7), every line with a price up to \<open>2 ^ 57\<close> is answered and a rejected one changes nothing
    (C14), every input is answered to its end (C38); orders and prices written as text are read
    back exactly (C36, C18).
  \<^item> Storage: the pool never aliases (C17), arena objects are aligned and disjoint (C30), and
    the price maps call \<open>operator new\<close> exactly from the 513th level of a side on (C34); for any
    number of levels nodes never alias and the destroyed book leaves no block behind (C23).
  \<^item> Concurrency: under every interleaving and every stale value that release and acquire allow
    the queue refines a bounded first-in first-out channel (C10), is free of data races (C11) and
    wait free (C15); the session loop loses nothing, on the sequential queue (C35) and in parallel
    with the receiver under stale loads (C16).
  \<^item> Numbers: risk limits in exact arithmetic (C25), exact accounting of profit (C8), the average
    price (C22), the window statistics (C12, C27) and their standard deviation (C39), micro price
    (C13, C28), order-flow imbalance (C20), quotes (C19, C29), the calibration of the counter
    (C26). Where doubles round, the property is a bound on the relative error; where it states
    exactness, the bound on the operands (\<open>2 ^ 53\<close>, \<open>2 ^ 51\<close> for sums of four volumes) is what
    makes every step exact.
  \<^item> Persistence: append and read back, also after reopening (C32).
  \<^item> Behaviour that is not what the code means to do, proved as it is: a stale cancel erases a
    level (C21), undefined conversions (C24), the pool that is never refilled
    (C31), a log that forgets its offset (C33); more in lemmas that the manifest names.

  \<^bold>\<open>Assumptions and parameters.\<close> Addresses are natural numbers; a heap is a total function and
  null is \<open>None\<close>. Every floating-point operation rounds by itself (no contraction into fused
  operations, no fast-math, which is what the GCC and Clang options of the build give on x86-64).
  A \<^verbatim>\<open>std::map\<close> allocates one node for every element and nothing else, as in libstdc++ and
  libc++. The heap behind \<^verbatim>\<open>operator new\<close> is a parameter; \<open>heap_contract\<close> (C23) states what the
  standard says of it: a new block was not live and does not lie in the arenas, and deleting a
  block ends the life of that block only. Other parameters: the natural logarithm (\<open>log_ok\<close>:
  not negative from 1 on), the readings of the counter and of the clocks, the results of \<^verbatim>\<open>operator new\<close> and of the system calls of the log
  and of the processor affinity. The source has no thread that takes the gateway's messages from
  the queue; the receiver of \<open>Gateway_Stream\<close> is any thread that pops. Sizes that the
  source keeps in \<open>size_t\<close> are natural numbers where the address space ends before they can wrap
  (small vector, log); where they are computed from a product the lemma \<open>slab_holds_slots\<close> says when it is
  exact. No fuel is used: lists and structural recursion bound every other loop.

  \<^bold>\<open>Not modelled.\<close> The multicast publisher and the session's reading of sockets: their bodies are
  empty in the source (comments only). The creation and scheduling of threads beyond the steps of
  the queue; the tests, the benchmarks and the web page, which are not part of the engine. Each
  is listed in the manifest with its reason.
\<close>

end
